(* ===== verification/Prelude.thy ===== *)
theory Prelude
  imports Main "HOL-Library.Word" "HOL-Library.Monad_Syntax"
begin

text \<open>
  Shared vocabulary of the development: the result of code that can hit undefined behaviour or
  a failing \<^verbatim>\<open>ucs_assert\<close> (an \<open>option\<close>, with \<open>None\<close> for the failure), the
  widths of the C integers the sources use, the circular comparison of
  \<^verbatim>\<open>src/src/ucs/sys/math.h\<close>, and generic facts on lists, options and words.
\<close>

unbundle bit_operations_syntax

named_theorems ucs_defs \<open>definitions that unfold to plain option and record terms\<close>
named_theorems ucs_frame \<open>what an operation leaves unchanged\<close>

type_synonym u8 = "8 word"
type_synonym u16 = "16 word"
type_synonym u32 = "32 word"
type_synonym u64 = "64 word"

section \<open>Assertions and failing dereferences\<close>

definition ucs_assert :: "bool \<Rightarrow> unit option" where
  "ucs_assert b = (if b then Some () else None)"

lemma ucs_assert_True [simp]: "ucs_assert True = Some ()"
  by (simp add: ucs_assert_def)

lemma ucs_assert_False [simp]: "ucs_assert False = None"
  by (simp add: ucs_assert_def)

lemma ucs_assert_Some [simp]: "ucs_assert b = Some u \<longleftrightarrow> b"
  by (simp add: ucs_assert_def)

section \<open>Evaluation\<close>

text \<open>For evaluating closed terms with the simplifier: scrutinise the first argument before the
  continuation, as the program does.\<close>

lemma bind_weak_cong: "x = y \<Longrightarrow> Option.bind x f = Option.bind y f"
  by simp

lemma map_option_weak_cong: "x = y \<Longrightarrow> map_option f x = map_option f y"
  by simp

lemmas eval_congs = bind_weak_cong map_option_weak_cong let_weak_cong

section \<open>Lists\<close>

lemma last_notin_disjoint [simp]: "set xs \<inter> set ys = {} \<Longrightarrow> xs \<noteq> [] \<Longrightarrow> last xs \<notin> set ys"
  using last_in_set by fastforce

lemma last_neq_last_disjoint [simp]:
  "set xs \<inter> set ys = {} \<Longrightarrow> xs \<noteq> [] \<Longrightarrow> ys \<noteq> [] \<Longrightarrow> last ys \<noteq> last xs"
  using last_in_set by fastforce

section \<open>Arrays\<close>

text \<open>Reading and writing an array element; an index outside the array is undefined behaviour.\<close>

definition arr_get :: "'a list \<Rightarrow> nat \<Rightarrow> 'a option" where
  "arr_get xs i = (if i < length xs then Some (xs ! i) else None)"

definition arr_set :: "'a list \<Rightarrow> nat \<Rightarrow> 'a \<Rightarrow> 'a list option" where
  "arr_set xs i v = (if i < length xs then Some (xs[i := v]) else None)"

lemma arr_get_ok [simp]: "i < length xs \<Longrightarrow> arr_get xs i = Some (xs ! i)"
  by (simp add: arr_get_def)

lemma arr_set_ok [simp]: "i < length xs \<Longrightarrow> arr_set xs i v = Some (xs[i := v])"
  by (simp add: arr_set_def)

text \<open>Arithmetic on \<^verbatim>\<open>unsigned\<close> (32 bits), on numbers below \<open>2 ^ 32\<close>.\<close>

definition w32 :: "nat \<Rightarrow> nat" where
  "w32 n = n mod 2 ^ 32"

lemma w32_id [simp]: "n < 2 ^ 32 \<Longrightarrow> w32 n = n"
  by (simp add: w32_def)

section \<open>Circular comparison\<close>

text \<open>
  \<^verbatim>\<open>UCS_CIRCULAR_COMPARE16(a, op, b)\<close> is \<^verbatim>\<open>((int16_t)((a) - (b)) op 0)\<close>.
  The operands are promoted to \<^verbatim>\<open>int\<close> first, and the cast keeps the low 16 bits, so
  the difference is the difference of 16-bit words, read as two's complement.
\<close>

definition circ_diff16 :: "u16 \<Rightarrow> u16 \<Rightarrow> int" where
  "circ_diff16 a b = sint (a - b)"

abbreviation circ_lt16 :: "u16 \<Rightarrow> u16 \<Rightarrow> bool" where
  "circ_lt16 a b \<equiv> circ_diff16 a b < 0"

abbreviation circ_le16 :: "u16 \<Rightarrow> u16 \<Rightarrow> bool" where
  "circ_le16 a b \<equiv> circ_diff16 a b \<le> 0"

abbreviation circ_ge16 :: "u16 \<Rightarrow> u16 \<Rightarrow> bool" where
  "circ_ge16 a b \<equiv> circ_diff16 a b \<ge> 0"

abbreviation circ_gt16 :: "u16 \<Rightarrow> u16 \<Rightarrow> bool" where
  "circ_gt16 a b \<equiv> circ_diff16 a b > 0"

abbreviation circ_eq16 :: "u16 \<Rightarrow> u16 \<Rightarrow> bool" where
  "circ_eq16 a b \<equiv> circ_diff16 a b = 0"

lemma circ_eq16_iff [simp]: "circ_eq16 a b \<longleftrightarrow> a = b"
  by (simp add: circ_diff16_def signed_eq_0_iff)

lemma sint16_cases: "sint (x :: u16) = (if unat x < 2 ^ 15 then int (unat x) else int (unat x) - 2 ^ 16)"
proof -
  define n where "n = unat x"
  have ux: "uint x = int n" by (simp add: n_def)
  have n: "n < 65536" using unsigned_less [of x, where ?'a = nat] by (simp add: n_def)
  have "sint x = (uint x + 32768) mod 65536 - 32768"
    using int_word_sint [of "uint x", where ?'a = 16] by simp
  then have s: "sint x = (int n + 32768) mod 65536 - 32768"
    unfolding ux .
  have "sint x = (if n < 32768 then int n else int n - 65536)"
  proof (cases "n < 32768")
    case True
    then show ?thesis using s by simp
  next
    case False
    have "(int n + 32768) mod 65536 = (int n - 32768 + 65536) mod 65536" by (simp add: add.commute)
    also have "\<dots> = (int n - 32768) mod 65536" by (rule mod_add_self2)
    also have "\<dots> = int n - 32768" using False n by (simp add: mod_pos_pos_trivial)
    finally show ?thesis using s False by simp
  qed
  then show ?thesis by (simp add: n_def)
qed

text \<open>
  Seen from a base \<open>c\<close>, numbers at most \<open>2 ^ 15 - 1\<close> ahead of it compare the way
  their distances from the base do. This is the fact that makes the circular comparison an
  order on a window of half the number space.
\<close>

definition ahead16 :: "u16 \<Rightarrow> u16 \<Rightarrow> nat" where
  "ahead16 c x = unat (x - c)"

lemma ahead16_less: "ahead16 c x < 2 ^ 16"
  using unsigned_less [of "x - c", where ?'a = nat] by (simp add: ahead16_def)

lemma ahead16_self [simp]: "ahead16 c c = 0"
  by (simp add: ahead16_def)

lemma ahead16_eq_iff [simp]: "ahead16 c x = ahead16 c y \<longleftrightarrow> x = y"
  by (auto simp: ahead16_def dest: unsigned_word_eqI)

lemma circ_diff16_window:
  assumes "ahead16 c a < 2 ^ 15" "ahead16 c b < 2 ^ 15"
  shows "circ_diff16 a b = int (ahead16 c a) - int (ahead16 c b)"
proof -
  have ab: "a - b = (a - c) - (b - c)" by simp
  have "unat (a - b) = (if unat (b - c) \<le> unat (a - c) then unat (a - c) - unat (b - c)
      else unat (a - c) + 2 ^ 16 - unat (b - c))"
    unfolding ab unat_sub_if' [of "a - c" "b - c"] by simp
  then show ?thesis
    using assms by (auto simp: circ_diff16_def sint16_cases ahead16_def split: if_splits)
qed

lemma ahead16_add:
  assumes "ahead16 c x + k < 2 ^ 16"
  shows "ahead16 c (x + of_nat k) = ahead16 c x + k"
proof -
  have k: "unat (of_nat k :: u16) = k"
    using assms by (simp add: unat_of_nat take_bit_nat_eq_self)
  have "unat ((x - c) + of_nat k) = unat (x - c) + k"
    using assms unfolding unat_word_ariths k by (simp add: ahead16_def)
  then show ?thesis
    by (simp add: ahead16_def algebra_simps)
qed

lemma word_eq_plus_1:
  assumes "unat (a :: 'a::len word) = unat b + 1"
  shows "a = b + 1"
proof -
  have "(of_nat (unat a) :: 'a word) = of_nat (unat b + 1)"
    using assms by simp
  then show ?thesis by (simp add: add.commute)
qed

lemma of_nat_eq_0_small: "n < 2 ^ LENGTH('a) \<Longrightarrow> (of_nat n :: 'a::len word) = 0 \<longleftrightarrow> n = 0"
  by (auto simp: word_of_nat_eq_0_iff dest: dvd_imp_le)

end
