(* ===== verification/Ucs_Queue.thy ===== *)
theory Ucs_Queue
  imports Prelude
begin

text \<open>
  \<^verbatim>\<open>src/src/ucs/datastruct/queue.h\<close>: the intrusive singly linked queue. A queue keeps a
  \<open>head\<close> pointer and \<open>ptail\<close>, the address of the pointer cell to which the next element is
  linked (\<^verbatim>\<open>&queue->head\<close> or \<^verbatim>\<open>&elem->next\<close>). The model is the memory itself:
  the pointer cells and the \<open>ptail\<close> field of every queue, with each operation writing the same
  cells in the same order as the C code. The assertions of the debug build are kept
  (\<^verbatim>\<open>UCS_ENABLE_ASSERT\<close>), and a dereference of NULL is \<open>None\<close>.

  \<open>is_queue s q xs\<close> relates the memory to the list of queued elements; the lemmas show that
  every operation does to that list what its comment says, and what it leaves alone. The locale
  \<open>intrusive_fifo\<close> is the contract the users of a queue rely on.
\<close>

section \<open>Memory\<close>

text \<open>The address of a pointer cell, and the value of a \<^verbatim>\<open>ucs_queue_elem_t*\<close>. The
  iteration macro stores the address of the queue itself as an end marker, hence \<open>QPtr\<close>.\<close>

datatype ('q, 'e) loc = HeadOf 'q | NextOf 'e

datatype ('q, 'e) qptr = Null | EPtr 'e | QPtr 'q

record ('q, 'e) qstore =
  qcell :: "('q, 'e) loc \<Rightarrow> ('q, 'e) qptr"
  qptail :: "'q \<Rightarrow> ('q, 'e) loc"

definition set_cell :: "('q, 'e) loc \<Rightarrow> ('q, 'e) qptr \<Rightarrow> ('q, 'e) qstore \<Rightarrow> ('q, 'e) qstore" where
  "set_cell l p s = s\<lparr>qcell := (qcell s)(l := p)\<rparr>"

definition set_ptail :: "'q \<Rightarrow> ('q, 'e) loc \<Rightarrow> ('q, 'e) qstore \<Rightarrow> ('q, 'e) qstore" where
  "set_ptail q l s = s\<lparr>qptail := (qptail s)(q := l)\<rparr>"

lemma qcell_set_cell [simp]: "qcell (set_cell l p s) l' = (if l' = l then p else qcell s l')"
  by (simp add: set_cell_def)

lemma qptail_set_cell [simp]: "qptail (set_cell l p s) = qptail s"
  by (simp add: set_cell_def)

lemma qcell_set_ptail [simp]: "qcell (set_ptail q l s) = qcell s"
  by (simp add: set_ptail_def)

lemma qptail_set_ptail [simp]: "qptail (set_ptail q l s) q' = (if q' = q then l else qptail s q')"
  by (simp add: set_ptail_def)

text \<open>\<^verbatim>\<open>&(*p)->next\<close>: the link of an element; a queue has its \<open>head\<close> cell at the
  same offset; NULL has no cell.\<close>

fun link_of :: "('q, 'e) qptr \<Rightarrow> ('q, 'e) loc option" where
  "link_of Null = None"
| "link_of (EPtr e) = Some (NextOf e)"
| "link_of (QPtr q) = Some (HeadOf q)"

fun as_elem :: "('q, 'e) qptr \<Rightarrow> 'e option" where
  "as_elem (EPtr e) = Some e"
| "as_elem _ = None"

section \<open>Operations\<close>

definition ucs_queue_head_init :: "'q \<Rightarrow> ('q, 'e) qstore \<Rightarrow> ('q, 'e) qstore" where
  "ucs_queue_head_init q s = set_ptail q (HeadOf q) s"

definition ucs_queue_is_tail :: "'q \<Rightarrow> 'e \<Rightarrow> ('q, 'e) qstore \<Rightarrow> bool" where
  "ucs_queue_is_tail q e s \<longleftrightarrow> qptail s q = NextOf e"

definition ucs_queue_is_empty :: "'q \<Rightarrow> ('q, 'e) qstore \<Rightarrow> bool" where
  "ucs_queue_is_empty q s \<longleftrightarrow> qptail s q = HeadOf q"

definition ucs_queue_push :: "'q \<Rightarrow> 'e \<Rightarrow> ('q, 'e) qstore \<Rightarrow> ('q, 'e) qstore" where
  "ucs_queue_push q e s =
     (let s1 = set_cell (qptail s q) (EPtr e) s;
          s2 = set_ptail q (NextOf e) s1
      in set_cell (NextOf e) Null s2)"

definition ucs_queue_push_head :: "'q \<Rightarrow> 'e \<Rightarrow> ('q, 'e) qstore \<Rightarrow> ('q, 'e) qstore" where
  "ucs_queue_push_head q e s =
     (let s1 = set_cell (NextOf e) (qcell s (HeadOf q)) s;
          s2 = set_cell (HeadOf q) (EPtr e) s1
      in if ucs_queue_is_empty q s2 then set_ptail q (NextOf e) s2 else s2)"

definition ucs_queue_pull_non_empty :: "'q \<Rightarrow> ('q, 'e) qstore \<Rightarrow> ('e \<times> ('q, 'e) qstore) option" where
  "ucs_queue_pull_non_empty q s =
     (case qcell s (HeadOf q) of
        EPtr e \<Rightarrow>
          (let s1 = set_cell (HeadOf q) (qcell s (NextOf e)) s;
               s2 = (if ucs_queue_is_tail q e s1 then set_ptail q (HeadOf q) s1 else s1)
           in Some (e, s2))
      | _ \<Rightarrow> None)"

definition ucs_queue_pull :: "'q \<Rightarrow> ('q, 'e) qstore \<Rightarrow> ('e option \<times> ('q, 'e) qstore) option" where
  "ucs_queue_pull q s =
     (if ucs_queue_is_empty q s then Some (None, s)
      else map_option (\<lambda>(e, s'). (Some e, s')) (ucs_queue_pull_non_empty q s))"

definition ucs_queue_del_iter :: "'q \<Rightarrow> ('q, 'e) loc \<Rightarrow> ('q, 'e) qstore \<Rightarrow> ('q, 'e) qstore option" where
  "ucs_queue_del_iter q iter s = do {
     e \<leftarrow> as_elem (qcell s iter);
     let s' = (if ucs_queue_is_tail q e s
               then set_cell iter Null (set_ptail q iter s)
               else set_cell iter (qcell s (NextOf e)) s);
     ucs_assert (qcell s' (HeadOf q) \<noteq> Null \<or> ucs_queue_is_empty q s');
     ucs_assert (\<not> ucs_queue_is_empty q s' \<or> qcell s' (HeadOf q) = Null);
     Some s'
   }"

definition ucs_queue_splice :: "'q \<Rightarrow> 'q \<Rightarrow> ('q, 'e) qstore \<Rightarrow> ('q, 'e) qstore" where
  "ucs_queue_splice q nq s =
     (if \<not> ucs_queue_is_empty nq s then
        (let s1 = set_cell (qptail s q) (qcell s (HeadOf nq)) s;
             s2 = set_ptail q (qptail s1 nq) s1
         in set_ptail nq (HeadOf nq) s2)
      else s)"

text \<open>The loops follow links until they meet \<open>ptail\<close>; in a corrupted memory they need not
  end, so they take fuel, one unit per link followed.\<close>

fun ucs_queue_length_from :: "nat \<Rightarrow> 'q \<Rightarrow> ('q, 'e) loc \<Rightarrow> nat \<Rightarrow> ('q, 'e) qstore \<Rightarrow> nat option" where
  "ucs_queue_length_from 0 q pelem len s = None"
| "ucs_queue_length_from (Suc fuel) q pelem len s =
     (if pelem = qptail s q then Some len
      else case link_of (qcell s pelem) of
             None \<Rightarrow> None
           | Some l \<Rightarrow> ucs_queue_length_from fuel q l (Suc len) s)"

definition ucs_queue_length :: "nat \<Rightarrow> 'q \<Rightarrow> ('q, 'e) qstore \<Rightarrow> nat option" where
  "ucs_queue_length fuel q s = ucs_queue_length_from fuel q (HeadOf q) 0 s"

fun ucs_queue_remove_from :: "nat \<Rightarrow> 'q \<Rightarrow> 'e \<Rightarrow> ('q, 'e) loc \<Rightarrow> ('q, 'e) qstore \<Rightarrow> ('q, 'e) qstore option" where
  "ucs_queue_remove_from 0 q e iter s = None"
| "ucs_queue_remove_from (Suc fuel) q e iter s =
     (if iter = qptail s q then Some s
      else if qcell s iter = EPtr e then ucs_queue_del_iter q iter s
      else case link_of (qcell s iter) of
             None \<Rightarrow> None
           | Some l \<Rightarrow> ucs_queue_remove_from fuel q e l s)"

definition ucs_queue_remove :: "nat \<Rightarrow> 'q \<Rightarrow> 'e \<Rightarrow> ('q, 'e) qstore \<Rightarrow> ('q, 'e) qstore option" where
  "ucs_queue_remove fuel q e s = ucs_queue_remove_from fuel q e (HeadOf q) s"

text \<open>\<^verbatim>\<open>ucs_queue_for_each\<close>: mark the end of the queue with its own address, then visit
  the elements up to the mark. The list of visited elements is what a loop body that does not
  change the queue sees.\<close>

fun for_each_from :: "nat \<Rightarrow> 'q \<Rightarrow> ('q, 'e) qptr \<Rightarrow> ('q, 'e) qstore \<Rightarrow> 'e list option" where
  "for_each_from 0 q p s = None"
| "for_each_from (Suc fuel) q p s =
     (if p = QPtr q then Some []
      else do { e \<leftarrow> as_elem p;
                es \<leftarrow> for_each_from fuel q (qcell s (NextOf e)) s;
                Some (e # es) })"

definition ucs_queue_for_each :: "nat \<Rightarrow> 'q \<Rightarrow> ('q, 'e) qstore \<Rightarrow> ('e list \<times> ('q, 'e) qstore) option" where
  "ucs_queue_for_each fuel q s =
     (let s1 = set_cell (qptail s q) (QPtr q) s
      in map_option (\<lambda>es. (es, s1)) (for_each_from fuel q (qcell s1 (HeadOf q)) s1))"

section \<open>The queued elements\<close>

text \<open>A segment of links: from cell \<open>l\<close>, through the elements \<open>xs\<close>, to the cell \<open>t\<close>.\<close>

fun qseg :: "('q, 'e) qstore \<Rightarrow> ('q, 'e) loc \<Rightarrow> 'e list \<Rightarrow> ('q, 'e) loc \<Rightarrow> bool" where
  "qseg s l [] t \<longleftrightarrow> l = t"
| "qseg s l (x # xs) t \<longleftrightarrow> qcell s l = EPtr x \<and> qseg s (NextOf x) xs t"

definition is_queue :: "('q, 'e) qstore \<Rightarrow> 'q \<Rightarrow> 'e list \<Rightarrow> bool" where
  "is_queue s q xs \<longleftrightarrow> qseg s (HeadOf q) xs (qptail s q) \<and> distinct xs"

definition end_loc :: "('q, 'e) loc \<Rightarrow> 'e list \<Rightarrow> ('q, 'e) loc" where
  "end_loc l xs = (if xs = [] then l else NextOf (last xs))"

lemma end_loc_Nil [simp]: "end_loc l [] = l"
  by (simp add: end_loc_def)

lemma end_loc_Cons [simp]: "end_loc l (x # xs) = end_loc (NextOf x) xs"
  by (simp add: end_loc_def)

lemma qseg_end: "qseg s l xs t \<Longrightarrow> t = end_loc l xs"
  by (induction xs arbitrary: l) auto

lemma qseg_append [simp]:
  "qseg s l (xs @ ys) t \<longleftrightarrow> qseg s l xs (end_loc l xs) \<and> qseg s (end_loc l xs) ys t"
  by (induction xs arbitrary: l) auto

lemma end_loc_append [simp]: "end_loc l (xs @ ys) = end_loc (end_loc l xs) ys"
  by (induction xs arbitrary: l) auto

text \<open>The cells a queue owns: its \<open>head\<close> and the links of its elements.\<close>

definition own :: "'q \<Rightarrow> 'e list \<Rightarrow> ('q, 'e) loc set" where
  "own q xs = insert (HeadOf q) (NextOf ` set xs)"

lemma end_loc_own [simp]: "end_loc (HeadOf q) xs \<in> own q xs"
  by (auto simp: end_loc_def own_def)

lemma own_disjoint:
  "q \<noteq> q' \<Longrightarrow> set xs \<inter> set ys = {} \<Longrightarrow> own q xs \<inter> own q' ys = {}"
  by (auto simp: own_def)

lemma qseg_cong:
  "(\<forall>l' \<in> insert l (NextOf ` set xs) - {t}. qcell s' l' = qcell s l') \<Longrightarrow> distinct xs \<Longrightarrow>
   l \<notin> NextOf ` set xs \<Longrightarrow> qseg s l xs t \<Longrightarrow> qseg s' l xs t"
proof (induction xs arbitrary: l)
  case Nil
  then show ?case by simp
next
  case (Cons x xs)
  have t: "t = end_loc (NextOf x) xs"
    using Cons.prems(4) qseg_end [of s "NextOf x" xs t] by simp
  have "l \<noteq> t"
    using Cons.prems(3) by (auto simp: t end_loc_def)
  moreover have "NextOf x \<notin> NextOf ` set xs"
    using Cons.prems(2) by auto
  ultimately show ?case
    using Cons.prems Cons.IH [of "NextOf x"] by auto
qed

lemma is_queue_cong:
  assumes "is_queue s q xs" "\<And>l. l \<in> own q xs \<Longrightarrow> l \<noteq> qptail s q \<Longrightarrow> qcell s' l = qcell s l"
    "qptail s' q = qptail s q"
  shows "is_queue s' q xs"
  using assms qseg_cong [of "HeadOf q" xs "qptail s q" s' s] by (auto simp: is_queue_def own_def)

lemma is_queue_ptail: "is_queue s q xs \<Longrightarrow> qptail s q = end_loc (HeadOf q) xs"
  using qseg_end [of s "HeadOf q" xs "qptail s q"] by (simp add: is_queue_def)

lemma is_queue_empty [simp]: "is_queue s q xs \<Longrightarrow> ucs_queue_is_empty q s \<longleftrightarrow> xs = []"
  by (auto simp: ucs_queue_is_empty_def is_queue_ptail end_loc_def)

lemma is_queue_tail: "is_queue s q xs \<Longrightarrow> ucs_queue_is_tail q e s \<longleftrightarrow> xs \<noteq> [] \<and> last xs = e"
  by (auto simp: ucs_queue_is_tail_def is_queue_ptail end_loc_def)

lemma is_queue_head: "is_queue s q (x # xs) \<Longrightarrow> qcell s (HeadOf q) = EPtr x"
  by (simp add: is_queue_def)

lemma is_queue_distinct: "is_queue s q xs \<Longrightarrow> distinct xs"
  by (simp add: is_queue_def)

text \<open>The memory determines the elements.\<close>

lemma qseg_unique:
  "qseg s l xs t \<Longrightarrow> qseg s l ys t \<Longrightarrow> distinct xs \<Longrightarrow> distinct ys \<Longrightarrow>
   l \<notin> NextOf ` set xs \<Longrightarrow> l \<notin> NextOf ` set ys \<Longrightarrow> xs = ys"
proof (induction xs arbitrary: l ys)
  case Nil
  then have "l = t" by simp
  with Nil.prems show ?case
    using qseg_end [of s l ys t] by (cases ys) (auto simp: end_loc_def split: if_splits)
next
  case (Cons x xs)
  have "t = end_loc (NextOf x) xs"
    using Cons.prems(1) qseg_end [of s "NextOf x" xs t] by simp
  with Cons.prems(5) have "l \<noteq> t"
    by (auto simp: end_loc_def)
  with Cons.prems(2) obtain zs where "ys = x # zs"
    using Cons.prems(1) by (cases ys) auto
  with Cons.prems Cons.IH [of "NextOf x" zs] show ?case by auto
qed

lemma is_queue_unique: "is_queue s q xs \<Longrightarrow> is_queue s q ys \<Longrightarrow> xs = ys"
  by (auto simp: is_queue_def intro!: qseg_unique)

section \<open>What the operations do\<close>

lemma is_queue_init: "is_queue (ucs_queue_head_init q s) q []"
  by (simp add: is_queue_def ucs_queue_head_init_def)

lemma ucs_queue_head_init_frame [ucs_frame]:
  "qcell (ucs_queue_head_init q s) = qcell s"
  "q' \<noteq> q \<Longrightarrow> qptail (ucs_queue_head_init q s) q' = qptail s q'"
  by (simp_all add: ucs_queue_head_init_def)

lemma ucs_queue_push_frame [ucs_frame]:
  "l \<noteq> qptail s q \<Longrightarrow> l \<noteq> NextOf e \<Longrightarrow> qcell (ucs_queue_push q e s) l = qcell s l"
  "q' \<noteq> q \<Longrightarrow> qptail (ucs_queue_push q e s) q' = qptail s q'"
  by (simp_all add: ucs_queue_push_def Let_def)

lemma is_queue_push:
  assumes "is_queue s q xs" "e \<notin> set xs"
  shows "is_queue (ucs_queue_push q e s) q (xs @ [e])"
proof -
  let ?s = "ucs_queue_push q e s"
  have t: "qptail s q = end_loc (HeadOf q) xs"
    using assms(1) by (rule is_queue_ptail)
  have "qseg ?s (HeadOf q) xs (qptail s q)"
    using assms by - (rule qseg_cong [where s = s]; auto simp: is_queue_def ucs_queue_push_def Let_def)
  moreover have "qcell ?s (qptail s q) = EPtr e"
    using assms(2) by (auto simp: ucs_queue_push_def Let_def t end_loc_def)
  moreover have "qptail ?s q = NextOf e"
    by (simp add: ucs_queue_push_def Let_def)
  ultimately show ?thesis
    using assms by (simp add: is_queue_def t [symmetric])
qed

lemma ucs_queue_push_head_frame [ucs_frame]:
  "l \<noteq> HeadOf q \<Longrightarrow> l \<noteq> NextOf e \<Longrightarrow> qcell (ucs_queue_push_head q e s) l = qcell s l"
  "q' \<noteq> q \<Longrightarrow> qptail (ucs_queue_push_head q e s) q' = qptail s q'"
  by (simp_all add: ucs_queue_push_head_def Let_def)

lemma is_queue_push_head:
  assumes "is_queue s q xs" "e \<notin> set xs"
  shows "is_queue (ucs_queue_push_head q e s) q (e # xs)"
proof (cases xs)
  case Nil
  with assms have "qptail s q = HeadOf q"
    by (simp add: is_queue_def)
  with Nil show ?thesis
    by (simp add: is_queue_def ucs_queue_push_head_def ucs_queue_is_empty_def Let_def)
next
  case (Cons x ys)
  let ?s = "ucs_queue_push_head q e s"
  have t: "qptail s q = end_loc (NextOf x) ys"
    using assms(1) Cons by (simp add: is_queue_ptail)
  have "qseg s (NextOf x) ys (qptail s q)"
    using assms(1) Cons by (simp add: is_queue_def)
  then have "qseg ?s (NextOf x) ys (qptail s q)"
    using assms Cons
    by - (rule qseg_cong [where s = s];
      auto simp: is_queue_def ucs_queue_push_head_def Let_def)
  with assms Cons show ?thesis
    by (auto simp: is_queue_def ucs_queue_push_head_def ucs_queue_is_empty_def Let_def t end_loc_def)
qed

lemma ucs_queue_pull_non_empty_frame [ucs_frame]:
  assumes "ucs_queue_pull_non_empty q s = Some (e, s')"
  shows "l \<noteq> HeadOf q \<Longrightarrow> qcell s' l = qcell s l" "q' \<noteq> q \<Longrightarrow> qptail s' q' = qptail s q'"
  using assms by (auto simp: ucs_queue_pull_non_empty_def Let_def split: qptr.splits if_splits)

lemma is_queue_pull_non_empty:
  assumes "is_queue s q (x # xs)"
  shows "\<exists>s'. ucs_queue_pull_non_empty q s = Some (x, s') \<and> is_queue s' q xs"
proof -
  have h: "qcell s (HeadOf q) = EPtr x"
    using assms by (rule is_queue_head)
  have t: "qptail s q = end_loc (NextOf x) xs"
    using assms by (simp add: is_queue_ptail)
  have seg: "qseg s (NextOf x) xs (qptail s q)" and d: "distinct xs" "x \<notin> set xs"
    using assms by (auto simp: is_queue_def)
  show ?thesis
  proof (cases xs)
    case Nil
    then show ?thesis
      using h t by (simp add: ucs_queue_pull_non_empty_def ucs_queue_is_tail_def is_queue_def Let_def)
  next
    case (Cons y ys)
    define s' where "s' = set_cell (HeadOf q) (qcell s (NextOf x)) s"
    have "qseg s' (NextOf y) ys (qptail s q)"
      using seg d Cons by - (rule qseg_cong [where s = s]; auto simp: s'_def)
    moreover have "qptail s q \<noteq> NextOf x"
      using t d Cons by (auto simp: end_loc_def split: if_splits)
    ultimately show ?thesis
      using h seg d Cons
      by (auto simp: ucs_queue_pull_non_empty_def ucs_queue_is_tail_def is_queue_def Let_def s'_def)
  qed
qed

lemma ucs_queue_splice_frame [ucs_frame]:
  "l \<noteq> qptail s q \<Longrightarrow> qcell (ucs_queue_splice q nq s) l = qcell s l"
  "q' \<noteq> q \<Longrightarrow> q' \<noteq> nq \<Longrightarrow> qptail (ucs_queue_splice q nq s) q' = qptail s q'"
  by (simp_all add: ucs_queue_splice_def Let_def)

lemma is_queue_splice:
  assumes "is_queue s q xs" "is_queue s nq ys" "q \<noteq> nq" "set xs \<inter> set ys = {}"
  shows "is_queue (ucs_queue_splice q nq s) q (xs @ ys)"
    and "is_queue (ucs_queue_splice q nq s) nq []"
proof -
  let ?s = "ucs_queue_splice q nq s"
  show "is_queue ?s nq []"
    using assms by (auto simp: is_queue_def ucs_queue_splice_def ucs_queue_is_empty_def Let_def)
  show "is_queue ?s q (xs @ ys)"
  proof (cases ys)
    case Nil
    with assms show ?thesis
      by (simp add: ucs_queue_splice_def)
  next
    case (Cons y zs)
    have t: "qptail s q = end_loc (HeadOf q) xs"
      using assms(1) by (rule is_queue_ptail)
    have "qseg ?s (HeadOf q) xs (qptail s q)"
      using assms(1) by - (rule qseg_cong [where s = s]; auto simp: is_queue_def ucs_frame)
    moreover have "qcell ?s (qptail s q) = EPtr y"
      using assms Cons by (simp add: ucs_queue_splice_def Let_def is_queue_head)
    moreover have "xs \<noteq> [] \<Longrightarrow> last xs \<notin> set zs"
      using assms(4) Cons last_notin_disjoint [of xs zs] by auto
    then have "qseg ?s (NextOf y) zs (qptail s nq)"
      using assms Cons by - (rule qseg_cong [where s = s]; auto simp: is_queue_def ucs_queue_splice_def Let_def t end_loc_def split: if_splits)
    moreover have "qptail ?s q = qptail s nq"
      using assms Cons by (simp add: ucs_queue_splice_def Let_def)
    ultimately show ?thesis
      using assms Cons by (auto simp: is_queue_def t [symmetric])
  qed
qed

lemma is_queue_del_iter:
  assumes "is_queue s q (xs @ e # ys)"
  shows "\<exists>s'. ucs_queue_del_iter q (end_loc (HeadOf q) xs) s = Some s' \<and> is_queue s' q (xs @ ys) \<and>
    (\<forall>l. l \<noteq> end_loc (HeadOf q) xs \<longrightarrow> qcell s' l = qcell s l) \<and>
    (\<forall>q'. q' \<noteq> q \<longrightarrow> qptail s' q' = qptail s q')"
proof -
  let ?it = "end_loc (HeadOf q) xs"
  have xs: "qseg s (HeadOf q) xs ?it" and e: "qcell s ?it = EPtr e"
    and ys: "qseg s (NextOf e) ys (qptail s q)" and d: "distinct (xs @ e # ys)"
    using assms by (auto simp: is_queue_def)
  define s' where "s' = (if ucs_queue_is_tail q e s then set_cell ?it Null (set_ptail q ?it s)
    else set_cell ?it (qcell s (NextOf e)) s)"
  have tail: "ucs_queue_is_tail q e s \<longleftrightarrow> ys = []"
    using is_queue_tail [OF assms] d by (auto simp: last_append)
  have xs': "qseg s' (HeadOf q) xs ?it"
    using xs d by - (rule qseg_cong [where s = s]; auto simp: s'_def)
  have q': "is_queue s' q (xs @ ys)"
  proof (cases ys)
    case Nil
    then show ?thesis
      using xs' d tail by (simp add: is_queue_def s'_def)
  next
    case (Cons y zs)
    have "?it \<noteq> NextOf x" if "x \<in> insert y (set zs)" for x
      using that d Cons last_in_set [of xs] by (auto simp: end_loc_def dest: last_notin_disjoint)
    then have "qseg s' (NextOf y) zs (qptail s q)"
      using ys d Cons by - (rule qseg_cong [where s = s]; auto simp: s'_def)
    moreover have "qcell s' ?it = EPtr y"
      using Cons ys tail by (simp add: s'_def)
    moreover have "qptail s' q = qptail s q"
      using Cons tail by (simp add: s'_def)
    ultimately show ?thesis
      using xs' d Cons by (simp add: is_queue_def)
  qed
  have "qcell s' (HeadOf q) \<noteq> Null \<or> xs @ ys = []"
    using q' by (cases "xs @ ys") (auto simp: is_queue_def)
  moreover have "xs @ ys \<noteq> [] \<or> qcell s' (HeadOf q) = Null"
    using tail by (auto simp: s'_def)
  ultimately have "ucs_queue_del_iter q ?it s = Some s'"
    using q' e by (auto simp: ucs_queue_del_iter_def Let_def s'_def [symmetric])
  then show ?thesis
    using q' by (auto simp: s'_def)
qed

lemma ucs_queue_length_from:
  "qseg s l xs (qptail s q) \<Longrightarrow> distinct xs \<Longrightarrow> l \<notin> NextOf ` set xs \<Longrightarrow> length xs < fuel \<Longrightarrow>
   ucs_queue_length_from fuel q l n s = Some (n + length xs)"
proof (induction xs arbitrary: l n fuel)
  case Nil
  then show ?case by (cases fuel) auto
next
  case (Cons x xs)
  obtain f where f: "fuel = Suc f" using Cons.prems(4) by (cases fuel) auto
  have "qptail s q = end_loc (NextOf x) xs"
    using Cons.prems(1) qseg_end [of s "NextOf x" xs "qptail s q"] by simp
  then have "l \<noteq> qptail s q"
    using Cons.prems(3) by (auto simp: end_loc_def)
  then show ?case
    using Cons.prems Cons.IH [of "NextOf x" f "Suc n"] by (auto simp: f)
qed

lemma is_queue_length:
  "is_queue s q xs \<Longrightarrow> length xs < fuel \<Longrightarrow> ucs_queue_length fuel q s = Some (length xs)"
  using ucs_queue_length_from [of s "HeadOf q" xs q fuel 0]
  by (auto simp: is_queue_def ucs_queue_length_def)

lemma ucs_queue_remove_from:
  "is_queue s q (xs @ ys) \<Longrightarrow> length ys < fuel \<Longrightarrow>
   \<exists>s'. ucs_queue_remove_from fuel q e (end_loc (HeadOf q) xs) s = Some s' \<and>
     is_queue s' q (xs @ remove1 e ys)"
proof (induction ys arbitrary: xs fuel)
  case Nil
  then show ?case
    by (cases fuel) (auto simp: is_queue_ptail)
next
  case (Cons y ys)
  obtain f where f: "fuel = Suc f" using Cons.prems(2) by (cases fuel) auto
  have "distinct (xs @ y # ys)"
    using Cons.prems(1) by (rule is_queue_distinct)
  then have "qptail s q \<noteq> end_loc (HeadOf q) xs"
    using is_queue_ptail [OF Cons.prems(1)] last_in_set [of xs]
    by (auto simp: end_loc_def dest: last_neq_last_disjoint split: if_splits)
  moreover have "qcell s (end_loc (HeadOf q) xs) = EPtr y"
    using Cons.prems(1) by (simp add: is_queue_def)
  ultimately show ?case
    using Cons.prems Cons.IH [of "xs @ [y]" f] is_queue_del_iter [OF Cons.prems(1)]
    by (cases "y = e") (auto simp: f)
qed

lemma is_queue_remove:
  assumes "is_queue s q xs" "length xs < fuel"
  shows "\<exists>s'. ucs_queue_remove fuel q e s = Some s' \<and> is_queue s' q (remove1 e xs)"
  using ucs_queue_remove_from [of s q "[]" xs fuel e] assms by (simp add: ucs_queue_remove_def)

lemma for_each_from:
  "qseg s l xs t \<Longrightarrow> qcell s t = QPtr q \<Longrightarrow> length xs < fuel \<Longrightarrow>
   for_each_from fuel q (qcell s l) s = Some xs"
proof (induction xs arbitrary: l fuel)
  case Nil
  then show ?case by (cases fuel) auto
next
  case (Cons x xs)
  then show ?case by (cases fuel) auto
qed

lemma is_queue_for_each:
  assumes "is_queue s q xs" "length xs < fuel"
  shows "ucs_queue_for_each fuel q s = Some (xs, set_cell (qptail s q) (QPtr q) s)"
    and "is_queue (set_cell (qptail s q) (QPtr q) s) q xs"
proof -
  let ?s = "set_cell (qptail s q) (QPtr q) s"
  show q: "is_queue ?s q xs"
    using assms(1) by (rule is_queue_cong) auto
  then show "ucs_queue_for_each fuel q s = Some (xs, ?s)"
    using assms(2) for_each_from [of ?s "HeadOf q" xs "qptail s q" q fuel]
    by (simp add: ucs_queue_for_each_def Let_def is_queue_def)
qed

lemma is_queue_pull:
  "is_queue s q [] \<Longrightarrow> ucs_queue_pull q s = Some (None, s)"
  "is_queue s q (x # xs) \<Longrightarrow> \<exists>s'. ucs_queue_pull q s = Some (Some x, s') \<and> is_queue s' q xs"
  by (auto simp: ucs_queue_pull_def dest: is_queue_pull_non_empty)

section \<open>Which cells change\<close>

text \<open>\<open>changes s s' C Q\<close>: at most the cells \<open>C\<close> and the \<open>ptail\<close> fields of the queues
  \<open>Q\<close> differ.\<close>

definition changes :: "('q, 'e) qstore \<Rightarrow> ('q, 'e) qstore \<Rightarrow> ('q, 'e) loc set \<Rightarrow> 'q set \<Rightarrow> bool" where
  "changes s s' C Q \<longleftrightarrow> (\<forall>l. l \<notin> C \<longrightarrow> qcell s' l = qcell s l) \<and> (\<forall>q. q \<notin> Q \<longrightarrow> qptail s' q = qptail s q)"

lemma changes_refl [simp, intro]: "changes s s C Q"
  by (simp add: changes_def)

lemma changes_trans:
  "changes s s1 C Q \<Longrightarrow> changes s1 s2 C Q \<Longrightarrow> changes s s2 C Q"
  by (auto simp: changes_def)

lemma changes_mono: "changes s s' C Q \<Longrightarrow> C \<subseteq> C' \<Longrightarrow> Q \<subseteq> Q' \<Longrightarrow> changes s s' C' Q'"
  by (auto simp: changes_def)

lemma is_queue_changes:
  "is_queue s q xs \<Longrightarrow> changes s s' C Q \<Longrightarrow> q \<notin> Q \<Longrightarrow> own q xs \<inter> C = {} \<Longrightarrow> is_queue s' q xs"
  by (rule is_queue_cong) (auto simp: changes_def)

text \<open>The operations, in a form that composes backwards over a sequence of calls.\<close>

lemma changes_set_cell: "changes s s1 C Q \<Longrightarrow> l \<in> C \<Longrightarrow> changes s (set_cell l p s1) C Q"
  by (auto simp: changes_def)

lemma changes_set_ptail: "changes s s1 C Q \<Longrightarrow> q \<in> Q \<Longrightarrow> changes s (set_ptail q l s1) C Q"
  by (auto simp: changes_def)

lemma changes_head_init: "changes s s1 C Q \<Longrightarrow> q \<in> Q \<Longrightarrow> changes s (ucs_queue_head_init q s1) C Q"
  unfolding changes_def by (metis ucs_queue_head_init_frame)

lemma changes_push:
  "changes s s1 C Q \<Longrightarrow> qptail s1 q \<in> C \<Longrightarrow> NextOf e \<in> C \<Longrightarrow> q \<in> Q \<Longrightarrow>
   changes s (ucs_queue_push q e s1) C Q"
  unfolding changes_def by (metis ucs_queue_push_frame)

lemma changes_push_head:
  "changes s s1 C Q \<Longrightarrow> HeadOf q \<in> C \<Longrightarrow> NextOf e \<in> C \<Longrightarrow> q \<in> Q \<Longrightarrow>
   changes s (ucs_queue_push_head q e s1) C Q"
  unfolding changes_def by (metis ucs_queue_push_head_frame)

lemma changes_pull_non_empty:
  "ucs_queue_pull_non_empty q s1 = Some (e, s') \<Longrightarrow> changes s s1 C Q \<Longrightarrow> HeadOf q \<in> C \<Longrightarrow> q \<in> Q \<Longrightarrow>
   changes s s' C Q"
  unfolding changes_def by (metis ucs_queue_pull_non_empty_frame)

lemma changes_splice:
  "changes s s1 C Q \<Longrightarrow> qptail s1 q \<in> C \<Longrightarrow> q \<in> Q \<Longrightarrow> nq \<in> Q \<Longrightarrow>
   changes s (ucs_queue_splice q nq s1) C Q"
  unfolding changes_def by (metis ucs_queue_splice_frame)

section \<open>Relinking inside a queue\<close>

text \<open>Users that hold a pointer to an element relink its neighbours directly.\<close>

definition relink_replace :: "'q \<Rightarrow> 'e \<Rightarrow> 'e \<Rightarrow> 'e \<Rightarrow> ('q, 'e) qstore \<Rightarrow> ('q, 'e) qstore" where
  "relink_replace q p h n m =
     (let m1 = set_cell (NextOf p) (EPtr n) m;
          m2 = set_cell (NextOf n) (qcell m1 (NextOf h)) m1
      in if qptail m2 q = NextOf h then set_ptail q (NextOf n) m2 else m2)"

definition relink_skip :: "'q \<Rightarrow> 'e \<Rightarrow> 'e \<Rightarrow> ('q, 'e) qstore \<Rightarrow> ('q, 'e) qstore" where
  "relink_skip q h1 h2 m =
     (let m1 = set_cell (NextOf h1) (qcell m (NextOf h2)) m
      in if qptail m1 q = NextOf h2 then set_ptail q (NextOf h1) m1 else m1)"

definition relink_insert :: "'e \<Rightarrow> 'e \<Rightarrow> 'e \<Rightarrow> ('q, 'e) qstore \<Rightarrow> ('q, 'e) qstore" where
  "relink_insert p h n m = set_cell (NextOf n) (EPtr h) (set_cell (NextOf p) (EPtr n) m)"

lemma changes_relink_replace:
  "changes s m C Q \<Longrightarrow> NextOf p \<in> C \<Longrightarrow> NextOf n \<in> C \<Longrightarrow> q \<in> Q \<Longrightarrow>
   changes s (relink_replace q p h n m) C Q"
  by (auto simp: changes_def relink_replace_def Let_def)

lemma changes_relink_skip:
  "changes s m C Q \<Longrightarrow> NextOf h1 \<in> C \<Longrightarrow> q \<in> Q \<Longrightarrow> changes s (relink_skip q h1 h2 m) C Q"
  by (auto simp: changes_def relink_skip_def Let_def)

lemma changes_relink_insert:
  "changes s m C Q \<Longrightarrow> NextOf p \<in> C \<Longrightarrow> NextOf n \<in> C \<Longrightarrow> changes s (relink_insert p h n m) C Q"
  by (auto simp: changes_def relink_insert_def)

lemmas changes_intros = changes_refl changes_set_cell changes_set_ptail changes_head_init
  changes_push changes_push_head changes_splice changes_relink_replace changes_relink_skip
  changes_relink_insert

lemma is_queue_relink_skip:
  assumes "is_queue m q (xs @ h1 # h2 # ys)"
  shows "is_queue (relink_skip q h1 h2 m) q (xs @ h1 # ys)"
proof -
  let ?m = "relink_skip q h1 h2 m"
  let ?t = "end_loc (HeadOf q) xs"
  have xs: "qseg m (HeadOf q) xs ?t" "qcell m ?t = EPtr h1"
    and ys: "qseg m (NextOf h2) ys (qptail m q)" and d: "distinct (xs @ h1 # h2 # ys)"
    using assms by (auto simp: is_queue_def)
  have "qseg ?m (HeadOf q) xs ?t"
    using xs d by - (rule qseg_cong [where s = m]; auto simp: relink_skip_def Let_def)
  moreover have "qcell ?m ?t = EPtr h1"
    using xs d by (auto simp: relink_skip_def Let_def end_loc_def)
  moreover have "qseg ?m (NextOf h1) ys (qptail ?m q)"
  proof (cases ys)
    case Nil
    then show ?thesis using ys by (simp add: relink_skip_def Let_def)
  next
    case (Cons y zs)
    have "qptail m q \<noteq> NextOf h2"
      using qseg_end [OF ys] d Cons by (auto simp: end_loc_def split: if_splits)
    moreover have "qseg ?m (NextOf y) zs (qptail m q)"
      using ys d Cons by - (rule qseg_cong [where s = m]; auto simp: relink_skip_def Let_def)
    ultimately show ?thesis
      using ys Cons by (simp add: relink_skip_def Let_def)
  qed
  ultimately show ?thesis
    using d by (simp add: is_queue_def)
qed

lemma is_queue_relink_insert:
  assumes "is_queue m q (xs @ p # h # ys)" "n \<notin> set (xs @ p # h # ys)"
  shows "is_queue (relink_insert p h n m) q (xs @ p # n # h # ys)"
proof -
  let ?m = "relink_insert p h n m"
  let ?t = "end_loc (HeadOf q) xs"
  have xs: "qseg m (HeadOf q) xs ?t" "qcell m ?t = EPtr p"
    and ys: "qseg m (NextOf h) ys (qptail m q)" and d: "distinct (xs @ p # h # ys)"
    using assms by (auto simp: is_queue_def)
  have "qseg ?m (HeadOf q) xs ?t"
    using xs d assms(2) by - (rule qseg_cong [where s = m]; auto simp: relink_insert_def)
  moreover have "qcell ?m ?t = EPtr p"
    using xs d assms(2) by (auto simp: relink_insert_def end_loc_def)
  moreover have "qseg ?m (NextOf h) ys (qptail m q)"
    using ys d assms(2) by - (rule qseg_cong [where s = m]; auto simp: relink_insert_def)
  ultimately show ?thesis
    using d assms(2) by (auto simp: is_queue_def relink_insert_def)
qed

lemma is_queue_relink_replace:
  assumes "is_queue m q (xs @ p # h # ys)" "n \<notin> set (xs @ p # h # ys)"
  shows "is_queue (relink_replace q p h n m) q (xs @ p # n # ys)"
proof -
  let ?m = "relink_replace q p h n m"
  let ?t = "end_loc (HeadOf q) xs"
  have xs: "qseg m (HeadOf q) xs ?t" "qcell m ?t = EPtr p"
    and ys: "qseg m (NextOf h) ys (qptail m q)" and d: "distinct (xs @ p # h # ys)"
    using assms by (auto simp: is_queue_def)
  have "qseg ?m (HeadOf q) xs ?t"
    using xs d assms(2) by - (rule qseg_cong [where s = m]; auto simp: relink_replace_def Let_def)
  moreover have "qcell ?m ?t = EPtr p" "qcell ?m (NextOf p) = EPtr n"
    using xs d assms(2) by (auto simp: relink_replace_def Let_def end_loc_def)
  moreover have "qseg ?m (NextOf n) ys (qptail ?m q)"
  proof (cases ys)
    case Nil
    then show ?thesis using ys by (simp add: relink_replace_def Let_def)
  next
    case (Cons y zs)
    have "qptail m q \<noteq> NextOf h"
      using qseg_end [OF ys] d Cons by (auto simp: end_loc_def split: if_splits)
    moreover have "qseg ?m (NextOf y) zs (qptail m q)"
      using ys d assms(2) Cons
      by - (rule qseg_cong [where s = m]; auto simp: relink_replace_def Let_def)
    ultimately show ?thesis
      using ys d Cons by (auto simp: relink_replace_def Let_def)
  qed
  ultimately show ?thesis
    using d assms(2) by (auto simp: is_queue_def)
qed

section \<open>The contract\<close>

text \<open>Pull until the queue is empty, at most \<open>n\<close> times.\<close>

primrec drain :: "('st \<Rightarrow> ('e option \<times> 'st) option) \<Rightarrow> nat \<Rightarrow> 'st \<Rightarrow> ('e list \<times> 'st) option" where
  "drain pull 0 s = Some ([], s)"
| "drain pull (Suc n) s =
     (case pull s of
        None \<Rightarrow> None
      | Some (None, s') \<Rightarrow> Some ([], s')
      | Some (Some e, s') \<Rightarrow> map_option (\<lambda>(es, s''). (e # es, s'')) (drain pull n s'))"

locale intrusive_fifo =
  fixes holds :: "'st \<Rightarrow> 'q \<Rightarrow> 'e list \<Rightarrow> bool"
    and init :: "'q \<Rightarrow> 'st \<Rightarrow> 'st"
    and push :: "'q \<Rightarrow> 'e \<Rightarrow> 'st \<Rightarrow> 'st"
    and push_head :: "'q \<Rightarrow> 'e \<Rightarrow> 'st \<Rightarrow> 'st"
    and pull :: "'q \<Rightarrow> 'st \<Rightarrow> ('e option \<times> 'st) option"
    and splice :: "'q \<Rightarrow> 'q \<Rightarrow> 'st \<Rightarrow> 'st"
  assumes holds_init: "holds (init q s) q []"
    and holds_push: "holds s q xs \<Longrightarrow> e \<notin> set xs \<Longrightarrow> holds (push q e s) q (xs @ [e])"
    and holds_push_head: "holds s q xs \<Longrightarrow> e \<notin> set xs \<Longrightarrow> holds (push_head q e s) q (e # xs)"
    and holds_pull_Nil: "holds s q [] \<Longrightarrow> pull q s = Some (None, s)"
    and holds_pull_Cons:
      "holds s q (x # xs) \<Longrightarrow> \<exists>s'. pull q s = Some (Some x, s') \<and> holds s' q xs"
    and holds_splice:
      "holds s q xs \<Longrightarrow> holds s nq ys \<Longrightarrow> q \<noteq> nq \<Longrightarrow> set xs \<inter> set ys = {} \<Longrightarrow>
       holds (splice q nq s) q (xs @ ys) \<and> holds (splice q nq s) nq []"
    and holds_unique: "holds s q xs \<Longrightarrow> holds s q ys \<Longrightarrow> xs = ys"
begin

lemma holds_push_all:
  "holds s q xs \<Longrightarrow> distinct (xs @ es) \<Longrightarrow> holds (fold (push q) es s) q (xs @ es)"
proof (induction es arbitrary: s xs)
  case Nil
  then show ?case by simp
next
  case (Cons e es)
  then have "holds (push q e s) q (xs @ [e])"
    by (auto intro: holds_push)
  with Cons.prems Cons.IH [of "push q e s" "xs @ [e]"] show ?case
    by simp
qed

lemma drain_all:
  "holds s q xs \<Longrightarrow> length xs < n \<Longrightarrow> \<exists>s'. drain (pull q) n s = Some (xs, s') \<and> holds s' q []"
proof (induction xs arbitrary: s n)
  case Nil
  then show ?case
    by (cases n) (auto simp: holds_pull_Nil)
next
  case (Cons x xs)
  obtain m where m: "n = Suc m" "length xs < m"
    using Cons.prems(2) by (cases n) auto
  obtain s1 where s1: "pull q s = Some (Some x, s1)" "holds s1 q xs"
    using holds_pull_Cons [OF Cons.prems(1)] by blast
  show ?case
    using Cons.IH [OF s1(2) m(2)] s1(1) by (auto simp: m(1))
qed

lemma fifo:
  assumes "holds s q xs" "distinct (xs @ es)" "length xs + length es < n"
  shows "\<exists>s'. drain (pull q) n (fold (push q) es s) = Some (xs @ es, s') \<and> holds s' q []"
  using drain_all [OF holds_push_all [OF assms(1,2)]] assms(3) by simp

lemma push_head_first:
  assumes "holds s q xs" "e \<notin> set xs"
  shows "\<exists>s'. pull q (push_head q e s) = Some (Some e, s') \<and> holds s' q xs"
  using holds_pull_Cons [OF holds_push_head [OF assms]] .

lemma splice_drain:
  assumes "holds s q xs" "holds s nq ys" "q \<noteq> nq" "set xs \<inter> set ys = {}"
    "length xs + length ys < n"
  shows "\<exists>s'. drain (pull q) n (splice q nq s) = Some (xs @ ys, s') \<and> holds s' q []"
    and "pull nq (splice q nq s) = Some (None, splice q nq s)"
  using drain_all [of "splice q nq s" q "xs @ ys" n] holds_splice [OF assms(1-4)] assms(5)
  by (auto intro: holds_pull_Nil)

end

interpretation ucsq: intrusive_fifo is_queue ucs_queue_head_init ucs_queue_push ucs_queue_push_head
  ucs_queue_pull ucs_queue_splice
  by unfold_locales
    (auto intro: is_queue_init is_queue_push is_queue_push_head is_queue_pull is_queue_splice
      is_queue_unique)

section \<open>First in, first out\<close>

text \<open>C23: The queue is first in, first out: pushing any new elements onto a queue and then pulling until
  \<^verbatim>\<open>ucs_queue_pull\<close> reports an empty queue returns the old elements followed by the new
  ones, each once and in order, and no pull dereferences NULL.\<close>
theorem ucs_queue_fifo:
  assumes "is_queue s q xs" "distinct (xs @ es)" "length xs + length es < n"
  shows "\<exists>s'. drain (ucs_queue_pull q) n (fold (ucs_queue_push q) es s) = Some (xs @ es, s') \<and>
    is_queue s' q []"
  using assms by (rule ucsq.fifo)

definition blank_store :: "(nat, nat) qstore" where
  "blank_store = \<lparr>qcell = (\<lambda>_. Null), qptail = (\<lambda>_. HeadOf 0)\<rparr>"

theorem ucs_queue_fifo_witness:
  "\<exists>s'. drain (ucs_queue_pull 0) 4 (fold (ucs_queue_push 0) [7, 5, 6] (ucs_queue_head_init 0 blank_store)) =
     Some ([7, 5, 6], s') \<and> is_queue s' 0 []"
  using ucs_queue_fifo [OF is_queue_init [of 0 blank_store], of "[7, 5, 6]" 4] by simp

end
