(* ===== verification/Ucs_List.thy ===== *)
theory Ucs_List
  imports Prelude
begin

text \<open>
  \<^verbatim>\<open>src/src/ucs/datastruct/list.h\<close>: the circular doubly linked list. The memory holds the
  \<open>prev\<close> and \<open>next\<close> pointer of every link (\<open>None\<close> is NULL); a list is a head link and the links
  reached from it. A dereference of NULL is \<open>None\<close> in the result of an operation.
\<close>

section \<open>Memory and operations\<close>

record 'l lstore =
  lprev :: "'l \<Rightarrow> 'l option"
  lnext :: "'l \<Rightarrow> 'l option"

definition set_prev :: "'l \<Rightarrow> 'l option \<Rightarrow> 'l lstore \<Rightarrow> 'l lstore" where
  "set_prev l p s = s\<lparr>lprev := (lprev s)(l := p)\<rparr>"

definition set_next :: "'l \<Rightarrow> 'l option \<Rightarrow> 'l lstore \<Rightarrow> 'l lstore" where
  "set_next l p s = s\<lparr>lnext := (lnext s)(l := p)\<rparr>"

lemma lstore_simps [simp]:
  "lprev (set_prev l p s) l' = (if l' = l then p else lprev s l')"
  "lnext (set_prev l p s) = lnext s"
  "lnext (set_next l p s) l' = (if l' = l then p else lnext s l')"
  "lprev (set_next l p s) = lprev s"
  by (simp_all add: set_prev_def set_next_def)

definition ucs_list_head_init :: "'l \<Rightarrow> 'l lstore \<Rightarrow> 'l lstore" where
  "ucs_list_head_init head s = set_prev head (Some head) (set_next head (Some head) s)"

definition ucs_list_insert_replace :: "'l option \<Rightarrow> 'l option \<Rightarrow> 'l \<Rightarrow> 'l lstore \<Rightarrow> 'l lstore option" where
  "ucs_list_insert_replace prev next elem s = do {
     let s1 = set_next elem next (set_prev elem prev s);
     p \<leftarrow> prev;
     let s2 = set_next p (Some elem) s1;
     n \<leftarrow> next;
     Some (set_prev n (Some elem) s2)
   }"

definition ucs_list_replace :: "'l \<Rightarrow> 'l \<Rightarrow> 'l lstore \<Rightarrow> 'l lstore option" where
  "ucs_list_replace elem replacement s =
     ucs_list_insert_replace (lprev s elem) (lnext s elem) replacement s"

definition ucs_list_insert_after :: "'l \<Rightarrow> 'l \<Rightarrow> 'l lstore \<Rightarrow> 'l lstore option" where
  "ucs_list_insert_after pos new_link s = ucs_list_insert_replace (Some pos) (lnext s pos) new_link s"

definition ucs_list_insert_before :: "'l \<Rightarrow> 'l \<Rightarrow> 'l lstore \<Rightarrow> 'l lstore option" where
  "ucs_list_insert_before pos new_link s = ucs_list_insert_replace (lprev s pos) (Some pos) new_link s"

abbreviation ucs_list_add_head :: "'l \<Rightarrow> 'l \<Rightarrow> 'l lstore \<Rightarrow> 'l lstore option" where
  "ucs_list_add_head \<equiv> ucs_list_insert_after"

abbreviation ucs_list_add_tail :: "'l \<Rightarrow> 'l \<Rightarrow> 'l lstore \<Rightarrow> 'l lstore option" where
  "ucs_list_add_tail \<equiv> ucs_list_insert_before"

definition ucs_list_del :: "'l \<Rightarrow> 'l lstore \<Rightarrow> 'l lstore option" where
  "ucs_list_del elem s = do {
     p \<leftarrow> lprev s elem;
     let s1 = set_next p (lnext s elem) s;
     n \<leftarrow> lnext s1 elem;
     Some (set_prev n (lprev s1 elem) s1)
   }"

definition ucs_list_is_empty :: "'l \<Rightarrow> 'l lstore \<Rightarrow> bool" where
  "ucs_list_is_empty head s \<longleftrightarrow> lnext s head = Some head"

definition ucs_list_is_only :: "'l \<Rightarrow> 'l \<Rightarrow> 'l lstore \<Rightarrow> bool" where
  "ucs_list_is_only head elem s \<longleftrightarrow> lnext s head = Some elem \<and> lnext s elem = Some head"

definition ucs_list_splice_tail :: "'l \<Rightarrow> 'l \<Rightarrow> 'l lstore \<Rightarrow> 'l lstore option" where
  "ucs_list_splice_tail head newlist s =
     (if ucs_list_is_empty newlist s then Some s
      else do {
        first \<leftarrow> lnext s newlist;
        last \<leftarrow> lprev s newlist;
        tail \<leftarrow> lprev s head;
        let s1 = set_prev first (Some tail) s;
        let s2 = set_next tail (Some first) s1;
        let s3 = set_next last (Some head) s2;
        Some (set_prev head (Some last) s3)
      })"

definition ucs_list_extract_head :: "'l \<Rightarrow> 'l lstore \<Rightarrow> ('l \<times> 'l lstore) option" where
  "ucs_list_extract_head head s = do {
     tmp \<leftarrow> lnext s head;
     s1 \<leftarrow> ucs_list_del tmp s;
     Some (tmp, s1)
   }"

fun ucs_list_length_from :: "nat \<Rightarrow> 'l \<Rightarrow> 'l option \<Rightarrow> nat \<Rightarrow> 'l lstore \<Rightarrow> nat option" where
  "ucs_list_length_from 0 head ptr len s = None"
| "ucs_list_length_from (Suc fuel) head ptr len s =
     (case ptr of
        None \<Rightarrow> None
      | Some p \<Rightarrow> if p = head then Some len else ucs_list_length_from fuel head (lnext s p) (Suc len) s)"

definition ucs_list_length :: "nat \<Rightarrow> 'l \<Rightarrow> 'l lstore \<Rightarrow> nat option" where
  "ucs_list_length fuel head s = ucs_list_length_from fuel head (lnext s head) 0 s"

section \<open>The linked elements\<close>

fun dseg :: "'l lstore \<Rightarrow> 'l \<Rightarrow> 'l list \<Rightarrow> 'l \<Rightarrow> bool" where
  "dseg s a [] b \<longleftrightarrow> lnext s a = Some b \<and> lprev s b = Some a"
| "dseg s a (x # xs) b \<longleftrightarrow> lnext s a = Some x \<and> lprev s x = Some a \<and> dseg s x xs b"

definition is_list :: "'l lstore \<Rightarrow> 'l \<Rightarrow> 'l list \<Rightarrow> bool" where
  "is_list s h xs \<longleftrightarrow> dseg s h xs h \<and> distinct (h # xs)"

lemma dseg_append [simp]: "dseg s a (xs @ y # ys) b \<longleftrightarrow> dseg s a xs y \<and> dseg s y ys b"
  by (induction xs arbitrary: a) auto

lemma dseg_cong:
  "dseg s a xs b \<Longrightarrow> (\<forall>l \<in> insert a (set xs). lnext s' l = lnext s l) \<Longrightarrow>
   (\<forall>l \<in> insert b (set xs). lprev s' l = lprev s l) \<Longrightarrow> dseg s' a xs b"
  by (induction xs arbitrary: a) auto

lemma is_list_cong:
  "is_list s h xs \<Longrightarrow> (\<forall>l \<in> insert h (set xs). lnext s' l = lnext s l \<and> lprev s' l = lprev s l) \<Longrightarrow>
   is_list s' h xs"
  using dseg_cong [of s h xs h s'] by (simp add: is_list_def)

lemma dseg_ends:
  "dseg s a xs b \<Longrightarrow> lnext s a = Some (if xs = [] then b else hd xs) \<and>
     lprev s b = Some (if xs = [] then a else last xs)"
  by (induction xs arbitrary: a) auto

lemma is_list_ends: "is_list s h xs \<Longrightarrow> lnext s h = Some (hd (xs @ [h])) \<and> lprev s h = Some (last (h # xs))"
  unfolding is_list_def by (drule conjunct1, drule dseg_ends) (simp split: if_splits)

lemma is_list_empty [simp]: "is_list s h xs \<Longrightarrow> ucs_list_is_empty h s \<longleftrightarrow> xs = []"
  by (cases xs) (auto simp: is_list_def ucs_list_is_empty_def)

lemma is_list_only: "is_list s h xs \<Longrightarrow> x \<noteq> h \<Longrightarrow> ucs_list_is_only h x s \<longleftrightarrow> xs = [x]"
  by (cases xs; cases "tl xs") (auto simp: is_list_def ucs_list_is_only_def)

text \<open>Every link on a list has a successor: a scheduled link is told from an unscheduled one by
  \<open>next \<noteq> NULL\<close>.\<close>

lemma dseg_next: "dseg s a xs b \<Longrightarrow> x \<in> insert a (set xs) \<Longrightarrow> lnext s x \<noteq> None"
  by (induction xs arbitrary: a) (auto split: if_splits)

lemma is_list_next: "is_list s h xs \<Longrightarrow> x \<in> insert h (set xs) \<Longrightarrow> lnext s x \<noteq> None"
  unfolding is_list_def using dseg_next by fast

section \<open>What the operations do\<close>

lemma is_list_init: "is_list (ucs_list_head_init h s) h []"
  by (simp add: is_list_def ucs_list_head_init_def)

lemma dseg_update_next:
  "dseg s a xs b \<Longrightarrow> l \<notin> insert a (set xs) \<Longrightarrow> dseg (set_next l p s) a xs b"
  by (rule dseg_cong) auto

lemma dseg_update_prev:
  "dseg s a xs b \<Longrightarrow> l \<notin> insert b (set xs) \<Longrightarrow> dseg (set_prev l p s) a xs b"
  by (rule dseg_cong) auto

lemmas dseg_update = dseg_update_next dseg_update_prev

text \<open>Links outside the list keep their pointers.\<close>

definition same_links :: "'l set \<Rightarrow> 'l lstore \<Rightarrow> 'l lstore \<Rightarrow> bool" where
  "same_links L s s' \<longleftrightarrow> (\<forall>l. l \<notin> L \<longrightarrow> lnext s' l = lnext s l \<and> lprev s' l = lprev s l)"

lemma insert_replace_correct:
  assumes "is_list s h (xs @ ys)" "x \<notin> set (h # xs @ ys)"
  shows "\<exists>s'. ucs_list_insert_replace (Some (last (h # xs))) (Some (hd (ys @ [h]))) x s = Some s' \<and>
    is_list s' h (xs @ x # ys) \<and> same_links (set (h # x # xs @ ys)) s s'"
  using assms
  by (cases xs rule: rev_cases; cases ys)
    (auto simp: is_list_def ucs_list_insert_replace_def same_links_def intro!: dseg_update)

lemma list_del_correct:
  assumes "is_list s h (xs @ x # ys)"
  shows "\<exists>s'. ucs_list_del x s = Some s' \<and> is_list s' h (xs @ ys) \<and>
    same_links (set (h # xs @ ys)) s s'"
  using assms
  by (cases xs rule: rev_cases; cases ys)
    (auto simp: is_list_def ucs_list_del_def same_links_def intro!: dseg_update)

lemma list_replace_correct:
  assumes "is_list s h (xs @ x # ys)" "r \<notin> set (h # xs @ x # ys)"
  shows "\<exists>s'. ucs_list_replace x r s = Some s' \<and> is_list s' h (xs @ r # ys) \<and>
    same_links (set (h # r # xs @ ys)) s s'"
  using assms
  by (cases xs rule: rev_cases; cases ys)
    (auto simp: is_list_def ucs_list_replace_def ucs_list_insert_replace_def same_links_def
      intro!: dseg_update)

lemma add_tail_correct:
  assumes "is_list s h xs" "x \<notin> set (h # xs)"
  shows "\<exists>s'. ucs_list_add_tail h x s = Some s' \<and> is_list s' h (xs @ [x]) \<and>
    same_links (set (h # x # xs)) s s'"
  using insert_replace_correct [of s h xs "[]" x] assms is_list_ends [OF assms(1)]
  unfolding ucs_list_insert_before_def by simp

lemma add_head_correct:
  assumes "is_list s h xs" "x \<notin> set (h # xs)"
  shows "\<exists>s'. ucs_list_add_head h x s = Some s' \<and> is_list s' h (x # xs) \<and>
    same_links (set (h # x # xs)) s s'"
  using insert_replace_correct [of s h "[]" xs x] assms is_list_ends [OF assms(1)]
  unfolding ucs_list_insert_after_def by simp

lemma extract_head_correct:
  assumes "is_list s h (x # xs)"
  shows "\<exists>s'. ucs_list_extract_head h s = Some (x, s') \<and> is_list s' h xs \<and>
    same_links (set (h # xs)) s s'"
  using list_del_correct [of s h "[]" x xs] assms
  by (auto simp: ucs_list_extract_head_def is_list_def)

lemma splice_tail_correct:
  assumes "is_list s h xs" "is_list s n ys" "set (h # xs) \<inter> set (n # ys) = {}"
  shows "\<exists>s'. ucs_list_splice_tail h n s = Some s' \<and> is_list s' h (xs @ ys) \<and>
    same_links (set (h # xs @ ys)) s s'"
proof (cases ys)
  case Nil
  then show ?thesis using assms by (auto simp: ucs_list_splice_tail_def same_links_def)
next
  case (Cons y ys')
  have "\<not> ucs_list_is_empty n s" using assms(2) Cons by simp
  then show ?thesis using assms Cons
    by (cases xs rule: rev_cases; cases ys' rule: rev_cases)
      (auto simp: ucs_list_splice_tail_def is_list_def same_links_def intro!: dseg_update)
qed

lemma length_from_correct:
  assumes "dseg s a xs h" "h \<notin> set xs" "length xs < fuel"
  shows "ucs_list_length_from fuel h (lnext s a) n s = Some (n + length xs)"
  using assms
proof (induction xs arbitrary: a n fuel)
  case Nil
  then show ?case by (cases fuel) auto
next
  case (Cons x xs)
  then show ?case by (cases fuel) auto
qed

lemma list_length_correct:
  "is_list s h xs \<Longrightarrow> length xs < fuel \<Longrightarrow> ucs_list_length fuel h s = Some (length xs)"
  using length_from_correct [of s h xs h fuel 0] by (simp add: is_list_def ucs_list_length_def)

end
