(* ===== verification/Frag_List.thy ===== *)
theory Frag_List
  imports Ucs_Queue
begin

text \<open>
  \<^verbatim>\<open>src/src/ucs/datastruct/frag_list.c\<close> and \<^verbatim>\<open>frag_list.h\<close>: the reorder buffer of
  the unreliable-datagram transports. Packets that arrive early are kept in lists of consecutive
  sequence numbers; the first element of each list is the list's head and carries the queue of
  the other elements. The model works on the queue memory of \<open>Ucs_Queue\<close>, and writes the same
  cells as the C code, including the places where it bypasses the queue operations.
  Statistics counters (\<^verbatim>\<open>ENABLE_STATS\<close>) are left out.
\<close>

section \<open>State\<close>

text \<open>The queues of one fragment list: \<^verbatim>\<open>frag_list->list\<close>,
  \<^verbatim>\<open>frag_list->ready_list\<close> and \<^verbatim>\<open>elem->head.list\<close> of every element.\<close>

datatype 'e flq = FragList | ReadyList | ElemList 'e

datatype ucs_frag_list_ooo_type =
    UCS_FRAG_LIST_INSERT_FAST
  | UCS_FRAG_LIST_INSERT_FIRST
  | UCS_FRAG_LIST_INSERT_SLOW
  | UCS_FRAG_LIST_INSERT_DUP
  | UCS_FRAG_LIST_INSERT_READY
  | UCS_FRAG_LIST_INSERT_FAIL

record 'e frag_list =
  fl_mem :: "('e flq, 'e) qstore"
  first_sn :: "'e \<Rightarrow> u16"
  last_sn :: "'e \<Rightarrow> u16"
  head_sn :: u16
  elem_count :: u32
  list_count :: u32
  max_holes :: int

section \<open>Operations\<close>

definition ucs_frag_list_init :: "u16 \<Rightarrow> int \<Rightarrow> 'e frag_list \<Rightarrow> 'e frag_list option" where
  "ucs_frag_list_init initial_sn holes fl = do {
     ucs_assert (holes = 0 \<or> holes = -1);
     Some (fl\<lparr>head_sn := initial_sn, elem_count := 0, list_count := 0, max_holes := holes,
              fl_mem := ucs_queue_head_init ReadyList (ucs_queue_head_init FragList (fl_mem fl))\<rparr>)
   }"

definition ucs_frag_list_cleanup :: "'e frag_list \<Rightarrow> unit option" where
  "ucs_frag_list_cleanup fl = do {
     ucs_assert (elem_count fl = 0);
     ucs_assert (list_count fl = 0);
     ucs_assert (ucs_queue_is_empty FragList (fl_mem fl));
     ucs_assert (ucs_queue_is_empty ReadyList (fl_mem fl))
   }"

definition frag_list_replace_head ::
    "'e option \<Rightarrow> 'e \<Rightarrow> 'e \<Rightarrow> 'e frag_list \<Rightarrow> 'e frag_list option" where
  "frag_list_replace_head prevh h new_h fl = do {
     let fl1 = fl\<lparr>first_sn := (first_sn fl)(new_h := first_sn fl h - 1)\<rparr>;
     let fl2 = fl1\<lparr>last_sn := (last_sn fl1)(new_h := last_sn fl1 h)\<rparr>;
     let m = fl_mem fl2;
     m2 \<leftarrow> (case prevh of
        None \<Rightarrow> do {
          (e, m1) \<leftarrow> ucs_queue_pull_non_empty FragList m;
          ucs_assert (e = h);
          Some (ucs_queue_push_head FragList new_h m1) }
      | Some p \<Rightarrow> do {
          let m1 = set_cell (NextOf p) (EPtr new_h) m;
          let m2 = set_cell (NextOf new_h) (qcell m1 (NextOf h)) m1;
          Some (if qptail m2 FragList = NextOf h then set_ptail FragList (NextOf new_h) m2 else m2) });
     let m3 = ucs_queue_head_init (ElemList new_h) m2;
     let m4 = ucs_queue_splice (ElemList new_h) (ElemList h) m3;
     Some (fl2\<lparr>fl_mem := ucs_queue_push_head (ElemList new_h) h m4\<rparr>)
   }"

definition frag_list_add_tail :: "'e \<Rightarrow> 'e \<Rightarrow> 'e frag_list \<Rightarrow> 'e frag_list" where
  "frag_list_add_tail h elem fl =
     fl\<lparr>last_sn := (last_sn fl)(h := last_sn fl h + 1),
        fl_mem := ucs_queue_push (ElemList h) elem (fl_mem fl)\<rparr>"

definition frag_list_merge_heads :: "'e \<Rightarrow> 'e \<Rightarrow> 'e frag_list \<Rightarrow> 'e frag_list" where
  "frag_list_merge_heads h1 h2 fl =
     (let fl1 = fl\<lparr>last_sn := (last_sn fl)(h1 := last_sn fl h2)\<rparr>;
          m1 = set_cell (NextOf h1) (qcell (fl_mem fl1) (NextOf h2)) (fl_mem fl1);
          m2 = (if qptail m1 FragList = NextOf h2 then set_ptail FragList (NextOf h1) m1 else m1);
          m3 = ucs_queue_push_head (ElemList h2) h2 m2;
          m4 = ucs_queue_splice (ElemList h1) (ElemList h2) m3
      in fl1\<lparr>fl_mem := m4\<rparr>)"

definition frag_list_insert_head :: "'e option \<Rightarrow> 'e \<Rightarrow> 'e \<Rightarrow> u16 \<Rightarrow> 'e frag_list \<Rightarrow> 'e frag_list" where
  "frag_list_insert_head prevh h new_h sn fl =
     (let fl1 = fl\<lparr>last_sn := (last_sn fl)(new_h := sn), first_sn := (first_sn fl)(new_h := sn)\<rparr>;
          m1 = ucs_queue_head_init (ElemList new_h) (fl_mem fl1);
          m2 = (case prevh of
                  None \<Rightarrow> ucs_queue_push_head FragList new_h m1
                | Some p \<Rightarrow> set_cell (NextOf new_h) (EPtr h) (set_cell (NextOf p) (EPtr new_h) m1))
      in fl1\<lparr>fl_mem := m2\<rparr>)"

definition frag_list_insert_tail :: "'e \<Rightarrow> u16 \<Rightarrow> 'e frag_list \<Rightarrow> 'e frag_list" where
  "frag_list_insert_tail new_h sn fl =
     (let fl1 = fl\<lparr>last_sn := (last_sn fl)(new_h := sn), first_sn := (first_sn fl)(new_h := sn)\<rparr>;
          m1 = ucs_queue_head_init (ElemList new_h) (fl_mem fl1)
      in fl1\<lparr>fl_mem := ucs_queue_push FragList new_h m1\<rparr>)"

definition ucs_frag_list_insert_head ::
    "'e \<Rightarrow> u16 \<Rightarrow> 'e frag_list \<Rightarrow> (ucs_frag_list_ooo_type \<times> 'e frag_list) option" where
  "ucs_frag_list_insert_head elem sn fl = do {
     h \<leftarrow> (if \<not> ucs_queue_is_empty FragList (fl_mem fl)
           then map_option Some (as_elem (qcell (fl_mem fl) (HeadOf FragList)))
           else Some None);
     if (case h of Some h' \<Rightarrow> circ_ge16 sn (first_sn fl h') | None \<Rightarrow> False)
     then Some (UCS_FRAG_LIST_INSERT_DUP, fl)
     else do {
       let fl1 = fl\<lparr>head_sn := head_sn fl + 1\<rparr>;
       if \<not> ucs_queue_is_empty ReadyList (fl_mem fl1)
       then Some (UCS_FRAG_LIST_INSERT_READY,
                  fl1\<lparr>fl_mem := ucs_queue_push ReadyList elem (fl_mem fl1)\<rparr>)
       else if (case h of Some h' \<Rightarrow> circ_eq16 (first_sn fl1 h') (sn + 1) | None \<Rightarrow> False)
       then Some (UCS_FRAG_LIST_INSERT_FIRST, fl1)
       else Some (UCS_FRAG_LIST_INSERT_FAST, fl1)
     }
   }"

text \<open>
  The search loop of \<^verbatim>\<open>ucs_frag_list_insert_slow\<close>, from the current element \<open>p\<close> of
  the iteration. The test for a merge with the next list compares
  \<^verbatim>\<open>nexth->head.first_sn == (sn + 1)\<close> without the circular macro: \<^verbatim>\<open>sn + 1\<close> is
  an \<^verbatim>\<open>int\<close> there and does not wrap at 16 bits.
\<close>

fun insert_slow_loop ::
    "nat \<Rightarrow> 'e option \<Rightarrow> ('e flq, 'e) qptr \<Rightarrow> 'e \<Rightarrow> u16 \<Rightarrow> 'e frag_list \<Rightarrow>
     (ucs_frag_list_ooo_type \<times> 'e frag_list) option" where
  "insert_slow_loop 0 prevh p elem sn fl = None"
| "insert_slow_loop (Suc fuel) prevh p elem sn fl =
     (if p = QPtr FragList then
        (let fl1 = frag_list_insert_tail elem sn fl in
         Some (UCS_FRAG_LIST_INSERT_SLOW,
               fl1\<lparr>elem_count := elem_count fl1 + 1, list_count := list_count fl1 + 1\<rparr>))
      else do {
        h \<leftarrow> as_elem p;
        if circ_ge16 sn (first_sn fl h) \<and> circ_le16 sn (last_sn fl h)
        then Some (UCS_FRAG_LIST_INSERT_DUP, fl)
        else if circ_eq16 (sn + 1) (first_sn fl h) then do {
          fl1 \<leftarrow> frag_list_replace_head prevh h elem fl;
          Some (UCS_FRAG_LIST_INSERT_SLOW, fl1\<lparr>elem_count := elem_count fl1 + 1\<rparr>)
        }
        else if circ_eq16 (last_sn fl h + 1) sn then do {
          ucs_assert (circ_le16 (first_sn fl h) (last_sn fl h));
          let fl1 = frag_list_add_tail h elem fl;
          let nexth = qcell (fl_mem fl1) (NextOf h);
          fl2 \<leftarrow> (if \<not> ucs_queue_is_tail FragList h (fl_mem fl1) then do {
                    nh \<leftarrow> as_elem nexth;
                    Some (if unat (first_sn fl1 nh) = unat sn + 1
                          then (let fl2 = frag_list_merge_heads h nh fl1
                                in fl2\<lparr>list_count := list_count fl2 - 1\<rparr>)
                          else fl1) }
                  else Some fl1);
          Some (UCS_FRAG_LIST_INSERT_SLOW, fl2\<lparr>elem_count := elem_count fl2 + 1\<rparr>)
        }
        else if circ_lt16 sn (first_sn fl h) then do {
          ucs_assert (case prevh of None \<Rightarrow> True | Some ph \<Rightarrow> circ_lt16 (last_sn fl ph + 1) sn);
          let fl1 = frag_list_insert_head prevh h elem sn fl;
          Some (UCS_FRAG_LIST_INSERT_SLOW,
                fl1\<lparr>elem_count := elem_count fl1 + 1, list_count := list_count fl1 + 1\<rparr>)
        }
        else do {
          ucs_assert (circ_lt16 (last_sn fl h + 1) sn);
          insert_slow_loop fuel (Some h) (qcell (fl_mem fl) (NextOf h)) elem sn fl
        }
      })"

definition ucs_frag_list_insert_slow ::
    "nat \<Rightarrow> 'e \<Rightarrow> u16 \<Rightarrow> 'e frag_list \<Rightarrow> (ucs_frag_list_ooo_type \<times> 'e frag_list) option" where
  "ucs_frag_list_insert_slow fuel elem sn fl =
     (if circ_eq16 sn (head_sn fl + 1) then ucs_frag_list_insert_head elem sn fl
      else if circ_le16 sn (head_sn fl) then Some (UCS_FRAG_LIST_INSERT_DUP, fl)
      else if max_holes fl = 0 then Some (UCS_FRAG_LIST_INSERT_FAIL, fl)
      else (let m1 = set_cell (qptail (fl_mem fl) FragList) (QPtr FragList) (fl_mem fl)
            in insert_slow_loop fuel None (qcell m1 (HeadOf FragList)) elem sn (fl\<lparr>fl_mem := m1\<rparr>)))"

definition ucs_frag_list_insert ::
    "nat \<Rightarrow> 'e \<Rightarrow> u16 \<Rightarrow> 'e frag_list \<Rightarrow> (ucs_frag_list_ooo_type \<times> 'e frag_list) option" where
  "ucs_frag_list_insert fuel elem sn fl =
     (if circ_eq16 sn (head_sn fl + 1) \<and> elem_count fl = 0
      then Some (UCS_FRAG_LIST_INSERT_FAST, fl\<lparr>head_sn := sn\<rparr>)
      else ucs_frag_list_insert_slow fuel elem sn fl)"

definition ucs_frag_list_pull_slow :: "'e frag_list \<Rightarrow> ('e option \<times> 'e frag_list) option" where
  "ucs_frag_list_pull_slow fl = do {
     h0 \<leftarrow> as_elem (qcell (fl_mem fl) (HeadOf FragList));
     if \<not> circ_eq16 (first_sn fl h0) (head_sn fl + 1) then Some (None, fl)
     else do {
       let fl1 = fl\<lparr>head_sn := last_sn fl h0, elem_count := elem_count fl - 1,
                    list_count := list_count fl - 1\<rparr>;
       (h, m1) \<leftarrow> ucs_queue_pull_non_empty FragList (fl_mem fl1);
       Some (Some h, fl1\<lparr>fl_mem := ucs_queue_splice ReadyList (ElemList h) m1\<rparr>)
     }
   }"

definition ucs_frag_list_pull :: "'e frag_list \<Rightarrow> ('e option \<times> 'e frag_list) option" where
  "ucs_frag_list_pull fl =
     (if \<not> ucs_queue_is_empty ReadyList (fl_mem fl) then do {
        (e, m1) \<leftarrow> ucs_queue_pull_non_empty ReadyList (fl_mem fl);
        Some (Some e, fl\<lparr>elem_count := elem_count fl - 1, fl_mem := m1\<rparr>) }
      else if \<not> ucs_queue_is_empty FragList (fl_mem fl) then ucs_frag_list_pull_slow fl
      else Some (None, fl))"

definition ucs_frag_list_empty :: "'e frag_list \<Rightarrow> bool" where
  "ucs_frag_list_empty fl \<longleftrightarrow>
     ucs_queue_is_empty FragList (fl_mem fl) \<and> ucs_queue_is_empty ReadyList (fl_mem fl)"

section \<open>The stored packets\<close>

text \<open>
  A stored list is its first sequence number and its elements in order; \<open>fl_rep fl ss rs\<close> says
  that the memory of \<open>fl\<close> holds the lists \<open>ss\<close>, in this order, and the ready list \<open>rs\<close>.
\<close>

type_synonym 'e seg = "u16 \<times> 'e list"

definition seg_head :: "'e seg \<Rightarrow> 'e" where
  "seg_head x = hd (snd x)"

definition seg_last :: "'e seg \<Rightarrow> u16" where
  "seg_last x = fst x + of_nat (length (snd x)) - 1"

definition seg_ok :: "'e frag_list \<Rightarrow> 'e seg \<Rightarrow> bool" where
  "seg_ok fl x \<longleftrightarrow> snd x \<noteq> [] \<and> is_queue (fl_mem fl) (ElemList (seg_head x)) (tl (snd x)) \<and>
     first_sn fl (seg_head x) = fst x \<and> last_sn fl (seg_head x) = seg_last x"

definition seg_elems :: "'e seg list \<Rightarrow> 'e list" where
  "seg_elems ss = concat (map snd ss)"

definition fl_rep :: "'e frag_list \<Rightarrow> 'e seg list \<Rightarrow> 'e list \<Rightarrow> bool" where
  "fl_rep fl ss rs \<longleftrightarrow> is_queue (fl_mem fl) FragList (map seg_head ss) \<and>
     is_queue (fl_mem fl) ReadyList rs \<and> (\<forall>x \<in> set ss. seg_ok fl x) \<and>
     distinct (seg_elems ss @ rs)"

lemma seg_elems_simps [simp]:
  "seg_elems [] = []" "seg_elems (x # ss) = snd x @ seg_elems ss"
  "seg_elems (ss @ ts) = seg_elems ss @ seg_elems ts"
  by (simp_all add: seg_elems_def)

lemma seg_sub: "x \<in> set ss \<Longrightarrow> set (snd x) \<subseteq> set (seg_elems ss)"
  by (auto simp: seg_elems_def)

lemma seg_head_in: "snd x \<noteq> [] \<Longrightarrow> seg_head x \<in> set (snd x)"
  by (simp add: seg_head_def)

lemma seg_ok_split: "seg_ok fl x \<Longrightarrow> snd x = seg_head x # tl (snd x)"
  by (simp add: seg_ok_def seg_head_def)

text \<open>A change of memory that stays away from a stored list keeps it.\<close>

lemma seg_ok_changes:
  assumes "seg_ok fl x" "changes (fl_mem fl) (fl_mem fl') C Q" "ElemList (seg_head x) \<notin> Q"
    "HeadOf (ElemList (seg_head x)) \<notin> C" "\<And>e. e \<in> set (tl (snd x)) \<Longrightarrow> NextOf e \<notin> C"
    "first_sn fl' (seg_head x) = first_sn fl (seg_head x)"
    "last_sn fl' (seg_head x) = last_sn fl (seg_head x)"
  shows "seg_ok fl' x"
  using assms by (auto simp: seg_ok_def own_def intro!: is_queue_changes [of "fl_mem fl"])

lemma heads_distinct: "(\<forall>x \<in> set ss. snd x \<noteq> []) \<Longrightarrow> distinct (seg_elems ss) \<Longrightarrow> distinct (map seg_head ss)"
proof (induction ss)
  case Nil
  then show ?case by simp
next
  case (Cons x ss)
  have "seg_head x \<notin> set (seg_elems ss)"
    using Cons.prems seg_head_in [of x] by auto
  moreover have "seg_head y \<in> set (seg_elems ss)" if "y \<in> set ss" for y
    using that Cons.prems(1) seg_sub [OF that] seg_head_in [of y] by auto
  ultimately show ?case
    using Cons by auto
qed

lemma tails_not_heads:
  "(\<forall>x \<in> set ss. snd x \<noteq> []) \<Longrightarrow> distinct (seg_elems ss) \<Longrightarrow> x \<in> set ss \<Longrightarrow> y \<in> set ss \<Longrightarrow>
   e \<in> set (tl (snd x)) \<Longrightarrow> e \<noteq> seg_head y"
proof (induction ss)
  case Nil
  then show ?case by simp
next
  case (Cons z ss)
  have sub: "set (snd w) \<subseteq> set (seg_elems ss)" if "w \<in> set ss" for w
    using that by (rule seg_sub)
  have in_tl: "e \<in> set (snd x)"
    using Cons.prems(5) by (rule list.set_sel(2) [rotated]) (use Cons.prems(5) in auto)
  consider "x = z" "y = z" | "x = z" "y \<in> set ss" | "x \<in> set ss" "y = z" | "x \<in> set ss" "y \<in> set ss"
    using Cons.prems(3,4) by auto
  then show ?case
  proof cases
    case 1
    then show ?thesis
      using Cons.prems by (cases "snd z") (auto simp: seg_head_def)
  next
    case 2
    then show ?thesis
      using Cons.prems sub [of y] seg_head_in [of y] in_tl by auto
  next
    case 3
    then show ?thesis
      using Cons.prems sub [of x] seg_head_in [of z] in_tl by auto
  next
    case 4
    then show ?thesis
      using Cons.prems Cons.IH by auto
  qed
qed

text \<open>What the representation says about who owns which link.\<close>

lemma rep_facts:
  assumes "fl_rep fl ss rs"
  shows rep_nonempty: "x \<in> set ss \<Longrightarrow> snd x \<noteq> []"
    and rep_head_elem: "x \<in> set ss \<Longrightarrow> seg_head x \<in> set (seg_elems ss)"
    and rep_tail_elem: "x \<in> set ss \<Longrightarrow> e \<in> set (tl (snd x)) \<Longrightarrow> e \<in> set (seg_elems ss)"
    and rep_tail_not_head: "x \<in> set ss \<Longrightarrow> y \<in> set ss \<Longrightarrow> e \<in> set (tl (snd x)) \<Longrightarrow> e \<noteq> seg_head y"
    and rep_heads_distinct: "distinct (map seg_head ss)"
    and rep_ready: "e \<in> set rs \<Longrightarrow> e \<notin> set (seg_elems ss)"
    and rep_ptail: "qptail (fl_mem fl) FragList \<in> insert (HeadOf FragList) (NextOf ` seg_head ` set ss)"
proof -
  have ne: "\<forall>x \<in> set ss. snd x \<noteq> []" and d: "distinct (seg_elems ss)"
    and q: "is_queue (fl_mem fl) FragList (map seg_head ss)"
    using assms by (auto simp: fl_rep_def seg_ok_def)
  show "x \<in> set ss \<Longrightarrow> snd x \<noteq> []" using ne by blast
  show "x \<in> set ss \<Longrightarrow> seg_head x \<in> set (seg_elems ss)"
    using ne seg_head_in [of x] seg_sub [of x ss] by blast
  show "x \<in> set ss \<Longrightarrow> e \<in> set (tl (snd x)) \<Longrightarrow> e \<in> set (seg_elems ss)"
    using ne seg_sub [of x ss] by (meson list.set_sel(2) subsetD)
  show "x \<in> set ss \<Longrightarrow> y \<in> set ss \<Longrightarrow> e \<in> set (tl (snd x)) \<Longrightarrow> e \<noteq> seg_head y"
    using tails_not_heads [OF ne d] by blast
  show "distinct (map seg_head ss)" using ne d by (rule heads_distinct)
  show "e \<in> set rs \<Longrightarrow> e \<notin> set (seg_elems ss)" using assms by (auto simp: fl_rep_def)
  show "qptail (fl_mem fl) FragList \<in> insert (HeadOf FragList) (NextOf ` seg_head ` set ss)"
    using is_queue_ptail [OF q] end_loc_own [of FragList "map seg_head ss"] by (simp add: own_def)
qed

lemma rep_fresh_head: "fl_rep fl ss rs \<Longrightarrow> e \<notin> set (seg_elems ss @ rs) \<Longrightarrow> e \<notin> seg_head ` set ss"
  using rep_head_elem by fastforce

lemma rep_heads_sub: "fl_rep fl ss rs \<Longrightarrow> seg_head ` set ss \<subseteq> set (seg_elems ss)"
  using rep_head_elem by fastforce

lemma rep_tail_heads:
  "fl_rep fl ss rs \<Longrightarrow> x \<in> set ss \<Longrightarrow> seg_head ` set ss \<inter> set (tl (snd x)) = {}"
  using rep_tail_not_head by fastforce

lemma rep_seg_keep:
  assumes rep: "fl_rep fl ss rs" and x: "x \<in> set ss"
    and ch: "changes (fl_mem fl) (fl_mem fl') C Q"
    and Q: "ElemList (seg_head x) \<notin> Q" "HeadOf (ElemList (seg_head x)) \<notin> C"
    and C: "\<And>e. NextOf e \<in> C \<Longrightarrow> e \<in> seg_head ` set ss \<or> e \<notin> set (snd x)"
    and sn: "first_sn fl' (seg_head x) = first_sn fl (seg_head x)"
      "last_sn fl' (seg_head x) = last_sn fl (seg_head x)"
  shows "seg_ok fl' x"
proof (rule seg_ok_changes [OF _ ch Q _ sn])
  show "seg_ok fl x" using rep x by (simp add: fl_rep_def)
  fix e assume e: "e \<in> set (tl (snd x))"
  then have "e \<notin> seg_head ` set ss"
    using rep_tail_not_head [OF rep x] by blast
  moreover have "e \<in> set (snd x)"
    using e by (metis list.sel(2) list.set_sel(2) e)
  ultimately show "NextOf e \<notin> C" using C by blast
qed

lemma rep_ready_keep:
  assumes rep: "fl_rep fl ss rs" and ch: "changes (fl_mem fl) m' C Q"
    and Q: "ReadyList \<notin> Q" "HeadOf ReadyList \<notin> C"
    and C: "\<And>e. NextOf e \<in> C \<Longrightarrow> e \<in> set (seg_elems ss) \<or> e \<notin> set rs"
  shows "is_queue m' ReadyList rs"
proof (rule is_queue_changes [OF _ ch Q(1)])
  show "is_queue (fl_mem fl) ReadyList rs" using rep by (simp add: fl_rep_def)
  show "own ReadyList rs \<inter> C = {}"
    using Q(2) C rep_ready [OF rep] by (auto simp: own_def)
qed

lemma rep_elem_other:
  assumes "fl_rep fl (pre @ x # post) rs" "y \<in> set (pre @ post)" "e \<in> set (snd x)"
  shows "e \<notin> set (snd y)"
proof -
  have "distinct (seg_elems (pre @ x # post))"
    using assms(1) unfolding fl_rep_def distinct_append by blast
  then have "set (snd x) \<inter> (set (seg_elems pre) \<union> set (seg_elems post)) = {}"
    by auto
  moreover have "set (snd y) \<subseteq> set (seg_elems pre) \<union> set (seg_elems post)"
    using assms(2) seg_sub [of y pre] seg_sub [of y post] by auto
  ultimately show ?thesis using assms(3) by blast
qed

lemma rep_head_other:
  assumes "fl_rep fl (pre @ x # post) rs" "y \<in> set (pre @ post)"
  shows "seg_head y \<noteq> seg_head x"
  using rep_elem_other [OF assms, of "seg_head x"] seg_head_in [of x] seg_head_in [of y]
    rep_nonempty [OF assms(1), of x] rep_nonempty [OF assms(1), of y] assms(2) by auto

lemma rep_insert_tail:
  assumes rep: "fl_rep fl ss rs" and fresh: "e \<notin> set (seg_elems ss @ rs)"
  shows "fl_rep (frag_list_insert_tail e sn fl) (ss @ [(sn, [e])]) rs"
proof -
  let ?m = "fl_mem fl" and ?fl = "frag_list_insert_tail e sn fl"
  let ?m1 = "ucs_queue_head_init (ElemList e) ?m"
  let ?m2 = "ucs_queue_push FragList e ?m1"
  let ?C = "insert (NextOf e) (own FragList (map seg_head ss))" and ?Q = "{FragList, ElemList e}"
  have m2: "fl_mem ?fl = ?m2"
    by (simp add: frag_list_insert_tail_def)
  have heads: "e \<notin> seg_head ` set ss"
    using rep fresh by (rule rep_fresh_head)
  have F: "is_queue ?m FragList (map seg_head ss)"
    using rep by (auto simp: fl_rep_def)
  have F1: "is_queue ?m1 FragList (map seg_head ss)"
    using F by (rule is_queue_changes [where C = "{}" and Q = "{ElemList e}"])
      (auto intro!: changes_intros)
  have ch: "changes ?m ?m2 ?C ?Q"
    using end_loc_own [of FragList "map seg_head ss"] is_queue_ptail [OF F1]
    by (intro changes_intros) auto
  then have ch': "changes ?m (fl_mem ?fl) ?C ?Q"
    using m2 by simp
  have "is_queue ?m2 FragList (map seg_head ss @ [e])"
    using F1 heads by (intro is_queue_push) auto
  moreover have "is_queue ?m2 ReadyList rs"
    using rep_head_elem [OF rep] fresh
    by (intro rep_ready_keep [OF rep ch]) (auto simp: own_def)
  moreover have "seg_ok ?fl x" if "x \<in> set ss" for x
    using that heads fresh seg_sub [OF that]
    by (intro rep_seg_keep [OF rep that ch']) (auto simp: own_def frag_list_insert_tail_def)
  moreover have "seg_ok ?fl (sn, [e])"
    using is_queue_init [of "ElemList e" ?m]
    by (simp add: seg_ok_def seg_head_def seg_last_def m2 is_queue_def ucs_frame)
      (simp add: frag_list_insert_tail_def)
  ultimately show ?thesis
    using rep fresh by (auto simp: fl_rep_def m2 seg_head_def)
qed

lemma rep_add_tail:
  assumes rep: "fl_rep fl (pre @ x # post) rs" and fresh: "e \<notin> set (seg_elems (pre @ x # post) @ rs)"
  shows "fl_rep (frag_list_add_tail (seg_head x) e fl) (pre @ (fst x, snd x @ [e]) # post) rs"
proof -
  let ?m = "fl_mem fl" and ?h = "seg_head x" and ?fl = "frag_list_add_tail (seg_head x) e fl"
  let ?ss = "pre @ x # post"
  let ?C = "insert (NextOf e) (own (ElemList ?h) (tl (snd x)))" and ?Q = "{ElemList ?h}"
  have x: "x \<in> set ?ss" "seg_ok fl x"
    using rep by (auto simp: fl_rep_def)
  have E: "is_queue ?m (ElemList ?h) (tl (snd x))" and hx: "snd x = ?h # tl (snd x)"
    using x(2) by (auto simp: seg_ok_def seg_head_def)
  have ch: "changes ?m (fl_mem ?fl) ?C ?Q"
    using end_loc_own [of "ElemList ?h" "tl (snd x)"] is_queue_ptail [OF E]
    unfolding frag_list_add_tail_def by simp (intro changes_intros; auto)
  have in_x: "e' \<in> set (snd x)" if "e' \<in> set (tl (snd x))" for e'
    using that by (subst hx) simp
  have "is_queue (fl_mem ?fl) FragList (map seg_head ?ss)"
  proof (rule is_queue_changes [OF _ ch])
    show "is_queue ?m FragList (map seg_head ?ss)" using rep by (simp add: fl_rep_def)
    show "own FragList (map seg_head ?ss) \<inter> ?C = {}"
      using rep_fresh_head [OF rep fresh] rep_tail_heads [OF rep x(1)] by (auto simp: own_def)
  qed simp
  moreover have "is_queue (fl_mem ?fl) ReadyList rs"
    using fresh rep_tail_elem [OF rep x(1)] by (intro rep_ready_keep [OF rep ch]) (auto simp: own_def)
  moreover have "seg_ok ?fl y" if "y \<in> set (pre @ post)" for y
  proof -
    have y: "y \<in> set ?ss" using that by auto
    have "seg_head y \<noteq> ?h" using rep_head_other [OF rep that] .
    then show ?thesis
      using fresh seg_sub [OF y] rep_elem_other [OF rep that] in_x
      by (intro rep_seg_keep [OF rep y ch]) (auto simp: own_def frag_list_add_tail_def)
  qed
  moreover have "seg_ok ?fl (fst x, snd x @ [e])"
  proof -
    have "e \<notin> set (tl (snd x))" using fresh in_x by auto
    then have "is_queue (fl_mem ?fl) (ElemList ?h) (tl (snd x) @ [e])"
      using E by (simp add: frag_list_add_tail_def is_queue_push)
    then show ?thesis
      using x(2) by (auto simp: seg_ok_def seg_head_def seg_last_def frag_list_add_tail_def)
  qed
  moreover have "map seg_head (pre @ (fst x, snd x @ [e]) # post) = map seg_head ?ss"
    using x(2) by (simp add: seg_head_def seg_ok_def)
  moreover have "distinct (seg_elems (pre @ (fst x, snd x @ [e]) # post) @ rs)"
    using rep fresh by (auto simp: fl_rep_def)
  ultimately show ?thesis
    unfolding fl_rep_def by auto
qed

lemma rep_insert_head_None:
  assumes rep: "fl_rep fl ss rs" and fresh: "e \<notin> set (seg_elems ss @ rs)"
  shows "fl_rep (frag_list_insert_head None h e sn fl) ((sn, [e]) # ss) rs"
proof -
  let ?m = "fl_mem fl" and ?fl = "frag_list_insert_head None h e sn fl"
  let ?m1 = "ucs_queue_head_init (ElemList e) ?m"
  let ?m2 = "ucs_queue_push_head FragList e ?m1"
  let ?C = "{NextOf e, HeadOf FragList}" and ?Q = "{FragList, ElemList e}"
  have m2: "fl_mem ?fl = ?m2"
    by (simp add: frag_list_insert_head_def)
  have heads: "e \<notin> seg_head ` set ss"
    using rep fresh by (rule rep_fresh_head)
  have F: "is_queue ?m FragList (map seg_head ss)"
    using rep by (auto simp: fl_rep_def)
  have F1: "is_queue ?m1 FragList (map seg_head ss)"
    using F by (rule is_queue_changes [where C = "{}" and Q = "{ElemList e}"])
      (auto intro!: changes_intros)
  have ch: "changes ?m (fl_mem ?fl) ?C ?Q"
    unfolding m2 by (intro changes_intros) auto
  have "is_queue ?m2 FragList (e # map seg_head ss)"
    using F1 heads by (intro is_queue_push_head) auto
  moreover have "is_queue (fl_mem ?fl) ReadyList rs"
    using fresh by (intro rep_ready_keep [OF rep ch]) auto
  moreover have "seg_ok ?fl x" if "x \<in> set ss" for x
    using that heads fresh seg_sub [OF that]
    by (intro rep_seg_keep [OF rep that ch]) (auto simp: frag_list_insert_head_def)
  moreover have "seg_ok ?fl (sn, [e])"
    using is_queue_init [of "ElemList e" ?m]
    by (simp add: seg_ok_def seg_head_def seg_last_def m2 is_queue_def ucs_frame)
      (simp add: frag_list_insert_head_def)
  ultimately show ?thesis
    using rep fresh by (auto simp: fl_rep_def m2 seg_head_def)
qed

lemma rep_insert_head_Some:
  assumes rep: "fl_rep fl (pre @ p # x # post) rs"
    and fresh: "e \<notin> set (seg_elems (pre @ p # x # post) @ rs)"
  shows "fl_rep (frag_list_insert_head (Some (seg_head p)) (seg_head x) e sn fl)
    (pre @ p # (sn, [e]) # x # post) rs"
proof -
  let ?ss = "pre @ p # x # post"
  let ?m = "fl_mem fl" and ?fl = "frag_list_insert_head (Some (seg_head p)) (seg_head x) e sn fl"
  let ?m1 = "ucs_queue_head_init (ElemList e) ?m"
  let ?m2 = "relink_insert (seg_head p) (seg_head x) e ?m1"
  let ?C = "{NextOf e, NextOf (seg_head p)}" and ?Q = "{ElemList e}"
  have m2: "fl_mem ?fl = ?m2"
    by (simp add: frag_list_insert_head_def relink_insert_def)
  have heads: "e \<notin> seg_head ` set ?ss"
    using rep fresh by (rule rep_fresh_head)
  have F: "is_queue ?m FragList (map seg_head ?ss)"
    using rep by (auto simp: fl_rep_def)
  have F1: "is_queue ?m1 FragList (map seg_head ?ss)"
    using F by (rule is_queue_changes [where C = "{}" and Q = "{ElemList e}"])
      (auto intro!: changes_intros)
  have ch: "changes ?m (fl_mem ?fl) ?C ?Q"
    unfolding m2 by (intro changes_intros) auto
  have "is_queue ?m2 FragList (map seg_head (pre @ p # (sn, [e]) # x # post))"
    using F1 heads is_queue_relink_insert [of ?m1 FragList "map seg_head pre" "seg_head p" "seg_head x"
        "map seg_head post" e]
    by (auto simp: seg_head_def)
  moreover have "is_queue (fl_mem ?fl) ReadyList rs"
    using fresh rep_head_elem [OF rep, of p] by (intro rep_ready_keep [OF rep ch]) auto
  moreover have "seg_ok ?fl y" if "y \<in> set ?ss" for y
    using that heads fresh seg_sub [OF that]
    by (intro rep_seg_keep [OF rep that ch]) (auto simp: frag_list_insert_head_def)
  moreover have "seg_ok ?fl (sn, [e])"
    using is_queue_init [of "ElemList e" ?m]
    by (simp add: seg_ok_def seg_head_def seg_last_def m2 is_queue_def ucs_frame relink_insert_def)
      (simp add: frag_list_insert_head_def)
  moreover have "distinct (seg_elems (pre @ p # (sn, [e]) # x # post) @ rs)"
    using rep fresh by (auto simp: fl_rep_def)
  ultimately show ?thesis
    unfolding fl_rep_def m2 by auto
qed

lemma rep_merge_heads:
  assumes rep: "fl_rep fl (pre @ x # y # post) rs" and adj: "fst y = seg_last x + 1"
  shows "fl_rep (frag_list_merge_heads (seg_head x) (seg_head y) fl) (pre @ (fst x, snd x @ snd y) # post) rs"
proof -
  let ?ss = "pre @ x # y # post" and ?h1 = "seg_head x" and ?h2 = "seg_head y"
  let ?m = "fl_mem fl" and ?fl = "frag_list_merge_heads (seg_head x) (seg_head y) fl"
  let ?m1 = "relink_skip FragList ?h1 ?h2 ?m"
  let ?m2 = "ucs_queue_push_head (ElemList ?h2) ?h2 ?m1"
  let ?m3 = "ucs_queue_splice (ElemList ?h1) (ElemList ?h2) ?m2"
  have m3: "fl_mem ?fl = ?m3"
    by (simp add: frag_list_merge_heads_def relink_skip_def Let_def)
  have xy: "x \<in> set ?ss" "y \<in> set ?ss" and okx: "seg_ok fl x" and oky: "seg_ok fl y"
    using rep by (auto simp: fl_rep_def)
  have d: "distinct (snd x @ snd y)"
    using rep unfolding fl_rep_def by auto
  note hx = seg_ok_split [OF okx] and hy = seg_ok_split [OF oky]
  have h12: "?h1 \<noteq> ?h2" using d hx hy by (metis disjoint_iff distinct_append list.set_intros(1))
  have F: "is_queue ?m FragList (map seg_head pre @ ?h1 # ?h2 # map seg_head post)"
    and E1: "is_queue ?m (ElemList ?h1) (tl (snd x))" and E2: "is_queue ?m (ElemList ?h2) (tl (snd y))"
    using rep okx oky by (auto simp: fl_rep_def seg_ok_def)
  have ch1: "changes ?m ?m1 {NextOf ?h1} {FragList}"
    by (intro changes_intros) auto
  have F1: "is_queue ?m1 FragList (map seg_head pre @ ?h1 # map seg_head post)"
    using F by (rule is_queue_relink_skip)
  have dx: "distinct (?h1 # tl (snd x))" and dy: "distinct (?h2 # tl (snd y))"
    and dxy: "set (?h1 # tl (snd x)) \<inter> set (?h2 # tl (snd y)) = {}"
    using d hx hy by (metis distinct_append)+
  have E1': "is_queue ?m1 (ElemList ?h1) (tl (snd x))" and E2': "is_queue ?m1 (ElemList ?h2) (tl (snd y))"
    using dx dxy by (auto simp: own_def intro!: is_queue_changes [OF E1 ch1] is_queue_changes [OF E2 ch1])
  have ch2: "changes ?m1 ?m2 {HeadOf (ElemList ?h2), NextOf ?h2} {ElemList ?h2}"
    by (intro changes_intros) auto
  have E2'': "is_queue ?m2 (ElemList ?h2) (?h2 # tl (snd y))"
    using E2' dy by (intro is_queue_push_head) auto
  have E1'': "is_queue ?m2 (ElemList ?h1) (tl (snd x))"
    using h12 dxy by (intro is_queue_changes [OF E1' ch2]) (auto simp: own_def)
  have E3: "is_queue ?m3 (ElemList ?h1) (tl (snd x) @ snd y)"
    using is_queue_splice(1) [OF E1'' E2''] h12 dxy hy by auto
  let ?C = "{NextOf ?h1, NextOf ?h2, HeadOf (ElemList ?h2)} \<union> own (ElemList ?h1) (tl (snd x))"
  let ?Q = "{FragList, ElemList ?h1, ElemList ?h2}"
  have ch: "changes ?m (fl_mem ?fl) ?C ?Q"
    using end_loc_own [of "ElemList ?h1" "tl (snd x)"] is_queue_ptail [OF E1'']
    unfolding m3 by (intro changes_intros) auto
  let ?C3 = "{NextOf ?h2, HeadOf (ElemList ?h2)} \<union> own (ElemList ?h1) (tl (snd x))"
  have ch3: "changes ?m1 ?m3 ?C3 {ElemList ?h1, ElemList ?h2}"
    using end_loc_own [of "ElemList ?h1" "tl (snd x)"] is_queue_ptail [OF E1'']
    by (intro changes_intros) auto
  have "is_queue ?m3 FragList (map seg_head pre @ ?h1 # map seg_head post)"
  proof (rule is_queue_changes [OF F1 ch3])
    have "?h2 \<notin> set (map seg_head pre @ ?h1 # map seg_head post)"
      using rep_heads_distinct [OF rep] by auto
    then show "own FragList (map seg_head pre @ ?h1 # map seg_head post) \<inter> ?C3 = {}"
      using rep_tail_heads [OF rep xy(1)] by (auto simp: own_def)
  qed simp
  moreover have "is_queue (fl_mem ?fl) ReadyList rs"
    using rep_head_elem [OF rep xy(1)] rep_head_elem [OF rep xy(2)] rep_tail_elem [OF rep xy(1)]
    by (intro rep_ready_keep [OF rep ch]) (auto simp: own_def)
  moreover have "seg_ok ?fl z" if z: "z \<in> set (pre @ post)" for z
  proof -
    have z': "z \<in> set ?ss" using z by auto
    have "seg_head z \<noteq> ?h1" "e \<in> set (snd x) \<Longrightarrow> e \<notin> set (snd z)" for e
      using rep_head_other [of fl pre x "y # post" rs z] rep_elem_other [of fl pre x "y # post" rs z] rep z
      by auto
    moreover have "seg_head z \<noteq> ?h2"
      using rep_head_other [of fl "pre @ [x]" y post rs z] rep z by auto
    ultimately show ?thesis
      using hx by (intro rep_seg_keep [OF rep z' ch])
        (auto simp: own_def frag_list_merge_heads_def Let_def, metis list.set_intros(2))
  qed
  moreover have "seg_ok ?fl (fst x, snd x @ snd y)"
  proof -
    have "is_queue (fl_mem ?fl) (ElemList ?h1) (tl (snd x @ snd y))"
      using E3 okx by (simp add: m3 seg_ok_def)
    moreover have "last_sn ?fl ?h1 = seg_last (fst x, snd x @ snd y)"
      using oky adj by (simp add: frag_list_merge_heads_def Let_def seg_ok_def seg_last_def)
    ultimately show ?thesis
      using okx by (auto simp: seg_ok_def seg_head_def frag_list_merge_heads_def Let_def)
  qed
  moreover have "distinct (seg_elems (pre @ (fst x, snd x @ snd y) # post) @ rs)"
    using rep unfolding fl_rep_def by simp
  moreover have "seg_head (fst x, snd x @ snd y) = ?h1"
    using okx by (simp add: seg_head_def seg_ok_def)
  ultimately show ?thesis
    unfolding fl_rep_def m3 by auto
qed

text \<open>\<^verbatim>\<open>frag_list_replace_head\<close> first puts the new head into the list of heads
  (\<open>m2\<close>), then moves the old head and its elements below the new one.\<close>

lemma rep_replace_rest:
  assumes rep: "fl_rep fl (pre @ x # post) rs" and fresh: "e \<notin> set (seg_elems (pre @ x # post) @ rs)"
    and F2: "is_queue m2 FragList (map seg_head pre @ e # map seg_head post)"
    and ch2: "changes (fl_mem fl) m2 (insert (NextOf e) (own FragList (map seg_head pre))) {FragList}"
    and fl': "fl' = fl\<lparr>first_sn := (first_sn fl)(e := fst x - 1), last_sn := (last_sn fl)(e := seg_last x),
      fl_mem := ucs_queue_push_head (ElemList e) (seg_head x)
        (ucs_queue_splice (ElemList e) (ElemList (seg_head x)) (ucs_queue_head_init (ElemList e) m2))\<rparr>"
  shows "fl_rep fl' (pre @ (fst x - 1, e # snd x) # post) rs"
proof -
  let ?ss = "pre @ x # post" and ?h = "seg_head x" and ?Ee = "ElemList e" and ?Eh = "ElemList (seg_head x)"
  let ?C2 = "insert (NextOf e) (own FragList (map seg_head pre))"
  let ?m3 = "ucs_queue_head_init ?Ee m2"
  let ?m4 = "ucs_queue_splice ?Ee ?Eh ?m3"
  let ?m5 = "ucs_queue_push_head ?Ee ?h ?m4"
  have x: "x \<in> set ?ss" and okx: "seg_ok fl x" and m5: "fl_mem fl' = ?m5"
    using rep by (auto simp: fl_rep_def fl')
  note hx = seg_ok_split [OF okx]
  have heads: "e \<notin> seg_head ` set ?ss" using rep fresh by (rule rep_fresh_head)
  have eh: "?h \<noteq> e" using heads by auto
  have in_x: "e' \<in> set (snd x)" if "e' \<in> set (tl (snd x))" for e'
    using that by (subst hx) simp
  have et: "e \<notin> set (tl (snd x))" using fresh in_x by auto
  have ht: "?h \<notin> set (tl (snd x))" using rep_tail_heads [OF rep x] by auto
  have "is_queue m2 ?Eh (tl (snd x))"
    using okx et rep_tail_heads [OF rep x]
    by (intro is_queue_changes [OF _ ch2]) (auto simp: seg_ok_def own_def)
  then have H3: "is_queue ?m3 ?Eh (tl (snd x))"
    using eh by (auto intro!: is_queue_changes [where s = m2 and C = "{}" and Q = "{?Ee}"] changes_intros)
  have E3: "is_queue ?m3 ?Ee []" by (rule is_queue_init)
  have E4: "is_queue ?m4 ?Ee (tl (snd x))"
    using is_queue_splice(1) [OF E3 H3] eh by simp
  have E5: "is_queue ?m5 ?Ee (snd x)"
    using is_queue_push_head [OF E4, of ?h] ht hx by simp
  have t3: "qptail ?m3 ?Ee = HeadOf ?Ee" using is_queue_ptail [OF E3] by simp
  let ?C = "insert (NextOf ?h) (insert (HeadOf ?Ee) ?C2)" and ?Q = "{FragList, ?Ee, ?Eh}"
  have "changes (fl_mem fl) m2 ?C ?Q" by (rule changes_mono [OF ch2]) auto
  then have ch: "changes (fl_mem fl) (fl_mem fl') ?C ?Q"
    unfolding m5 using t3 by (intro changes_intros) auto
  have ch5: "changes m2 ?m5 {NextOf ?h, HeadOf ?Ee} {?Ee, ?Eh}"
    using t3 by (intro changes_intros) auto
  have "?h \<notin> set (map seg_head pre @ e # map seg_head post)"
    using rep_heads_distinct [OF rep] eh by auto
  then have "is_queue (fl_mem fl') FragList (map seg_head pre @ e # map seg_head post)"
    unfolding m5 by (intro is_queue_changes [OF F2 ch5]) (auto simp: own_def)
  moreover have "is_queue (fl_mem fl') ReadyList rs"
    using fresh rep_heads_sub [OF rep] by (intro rep_ready_keep [OF rep ch]) (auto simp: own_def)
  moreover have "seg_ok fl' y" if y: "y \<in> set (pre @ post)" for y
  proof -
    have y': "y \<in> set ?ss" using y by auto
    show ?thesis
      using heads y fresh seg_sub [OF y'] rep_head_other [OF rep y]
      by (intro rep_seg_keep [OF rep y' ch]) (auto simp: own_def fl')
  qed
  moreover have "seg_ok fl' (fst x - 1, e # snd x)"
    using E5 by (simp add: seg_ok_def seg_head_def seg_last_def m5) (simp add: fl' seg_last_def)
  moreover have "distinct (seg_elems (pre @ (fst x - 1, e # snd x) # post) @ rs)"
    using rep fresh unfolding fl_rep_def by auto
  ultimately show ?thesis
    unfolding fl_rep_def by (auto simp: seg_head_def)
qed

definition same_counts :: "'e frag_list \<Rightarrow> 'e frag_list \<Rightarrow> bool" where
  "same_counts fl fl' \<longleftrightarrow> head_sn fl' = head_sn fl \<and> elem_count fl' = elem_count fl \<and>
     list_count fl' = list_count fl \<and> max_holes fl' = max_holes fl"

lemma rep_replace_head_None:
  assumes rep: "fl_rep fl (x # post) rs" and fresh: "e \<notin> set (seg_elems (x # post) @ rs)"
  shows "\<exists>fl'. frag_list_replace_head None (seg_head x) e fl = Some fl' \<and>
    fl_rep fl' ((fst x - 1, e # snd x) # post) rs \<and> same_counts fl fl'"
proof -
  have F: "is_queue (fl_mem fl) FragList (seg_head x # map seg_head post)" and ok: "seg_ok fl x"
    using rep by (auto simp: fl_rep_def)
  obtain m1 where m1: "ucs_queue_pull_non_empty FragList (fl_mem fl) = Some (seg_head x, m1)"
      "is_queue m1 FragList (map seg_head post)"
    using is_queue_pull_non_empty [OF F] by blast
  have e: "e \<notin> seg_head ` set (x # post)" using rep fresh by (rule rep_fresh_head)
  then have F2: "is_queue (ucs_queue_push_head FragList e m1) FragList (e # map seg_head post)"
    using is_queue_push_head [OF m1(2)] by auto
  let ?C = "insert (NextOf e) (own FragList (map seg_head []))"
  have "changes (fl_mem fl) m1 ?C {FragList}"
    by (rule changes_pull_non_empty [OF m1(1)]) (auto simp: own_def)
  then have ch: "changes (fl_mem fl) (ucs_queue_push_head FragList e m1) ?C {FragList}"
    by (intro changes_intros) (auto simp: own_def)
  let ?fl = "fl\<lparr>first_sn := (first_sn fl)(e := fst x - 1), last_sn := (last_sn fl)(e := seg_last x),
      fl_mem := ucs_queue_push_head (ElemList e) (seg_head x) (ucs_queue_splice (ElemList e)
        (ElemList (seg_head x)) (ucs_queue_head_init (ElemList e) (ucs_queue_push_head FragList e m1)))\<rparr>"
  have "fl_rep ?fl ((fst x - 1, e # snd x) # post) rs"
    using rep_replace_rest [of fl "[]" x post rs e] rep fresh F2 ch by simp
  moreover have "frag_list_replace_head None (seg_head x) e fl = Some ?fl"
    using ok m1 e by (auto simp: frag_list_replace_head_def seg_ok_def)
  ultimately show ?thesis
    by (auto simp: same_counts_def)
qed

lemma rep_replace_head_Some:
  assumes rep: "fl_rep fl (pre @ p # x # post) rs"
    and fresh: "e \<notin> set (seg_elems (pre @ p # x # post) @ rs)"
  shows "\<exists>fl'. frag_list_replace_head (Some (seg_head p)) (seg_head x) e fl = Some fl' \<and>
    fl_rep fl' (pre @ p # (fst x - 1, e # snd x) # post) rs \<and> same_counts fl fl'"
proof -
  have F: "is_queue (fl_mem fl) FragList (map seg_head pre @ seg_head p # seg_head x # map seg_head post)"
    and ok: "seg_ok fl x"
    using rep by (auto simp: fl_rep_def)
  have e: "e \<notin> seg_head ` set (pre @ p # x # post)" using rep fresh by (rule rep_fresh_head)
  let ?m2 = "relink_replace FragList (seg_head p) (seg_head x) e (fl_mem fl)"
  have F2: "is_queue ?m2 FragList (map seg_head (pre @ [p]) @ e # map seg_head post)"
    using is_queue_relink_replace [OF F] e by auto
  have ch: "changes (fl_mem fl) ?m2 (insert (NextOf e) (own FragList (map seg_head (pre @ [p])))) {FragList}"
    by (intro changes_intros) (auto simp: own_def)
  let ?fl = "fl\<lparr>first_sn := (first_sn fl)(e := fst x - 1), last_sn := (last_sn fl)(e := seg_last x),
      fl_mem := ucs_queue_push_head (ElemList e) (seg_head x) (ucs_queue_splice (ElemList e)
        (ElemList (seg_head x)) (ucs_queue_head_init (ElemList e) ?m2))\<rparr>"
  have "fl_rep ?fl (pre @ p # (fst x - 1, e # snd x) # post) rs"
    using rep_replace_rest [of fl "pre @ [p]" x post rs e ?m2] rep fresh F2 ch by simp
  moreover have "frag_list_replace_head (Some (seg_head p)) (seg_head x) e fl = Some ?fl"
    using ok e by (auto simp: frag_list_replace_head_def seg_ok_def relink_replace_def Let_def)
  ultimately show ?thesis
    by (auto simp: same_counts_def)
qed

lemma fl_rep_counts [simp]:
  "fl_rep (fl\<lparr>elem_count := a\<rparr>) ss rs = fl_rep fl ss rs"
  "fl_rep (fl\<lparr>list_count := a\<rparr>) ss rs = fl_rep fl ss rs"
  "fl_rep (fl\<lparr>head_sn := sn\<rparr>) ss rs = fl_rep fl ss rs"
  "fl_rep (fl\<lparr>max_holes := k\<rparr>) ss rs = fl_rep fl ss rs"
  by (simp_all add: fl_rep_def seg_ok_def)

text \<open>Pulling the first list makes it the ready list; its head is the element returned.\<close>

lemma rep_pull_slow:
  assumes rep: "fl_rep fl (x # post) []"
  shows "\<exists>m1 m2. ucs_queue_pull_non_empty FragList (fl_mem fl) = Some (seg_head x, m1) \<and>
    m2 = ucs_queue_splice ReadyList (ElemList (seg_head x)) m1 \<and>
    fl_rep (fl\<lparr>fl_mem := m2\<rparr>) post (tl (snd x))"
proof -
  let ?h = "seg_head x"
  have F: "is_queue (fl_mem fl) FragList (?h # map seg_head post)" and ok: "seg_ok fl x"
    and R: "is_queue (fl_mem fl) ReadyList []"
    using rep by (auto simp: fl_rep_def)
  obtain m1 where m1: "ucs_queue_pull_non_empty FragList (fl_mem fl) = Some (?h, m1)"
      "is_queue m1 FragList (map seg_head post)"
    using is_queue_pull_non_empty [OF F] by blast
  let ?m2 = "ucs_queue_splice ReadyList (ElemList ?h) m1"
  have ch1: "changes (fl_mem fl) m1 {HeadOf FragList} {FragList}"
    by (rule changes_pull_non_empty [OF m1(1)]) auto
  have R1: "is_queue m1 ReadyList []" and E1: "is_queue m1 (ElemList ?h) (tl (snd x))"
    using ok R by (auto simp: own_def seg_ok_def intro!: is_queue_changes [OF _ ch1])
  have R2: "is_queue ?m2 ReadyList (tl (snd x))"
    using is_queue_splice(1) [OF R1 E1] by simp
  let ?C = "{HeadOf FragList, HeadOf ReadyList}" and ?Q = "{FragList, ReadyList, ElemList ?h}"
  have t: "qptail m1 ReadyList = HeadOf ReadyList" using is_queue_ptail [OF R1] by simp
  have "changes m1 ?m2 {HeadOf ReadyList} {ReadyList, ElemList ?h}"
    using t by (intro changes_intros) auto
  then have F2: "is_queue ?m2 FragList (map seg_head post)"
    by (intro is_queue_changes [OF m1(2)]) (auto simp: own_def)
  have "changes (fl_mem fl) m1 ?C ?Q" by (rule changes_mono [OF ch1]) auto
  then have ch: "changes (fl_mem fl) (fl_mem (fl\<lparr>fl_mem := ?m2\<rparr>)) ?C ?Q"
    using t by simp (intro changes_intros; auto)
  have "seg_ok (fl\<lparr>fl_mem := ?m2\<rparr>) y" if y: "y \<in> set post" for y
    using rep_head_other [of fl "[]" x post "[]" y] rep y
    by (intro rep_seg_keep [OF rep _ ch]) auto
  moreover have "distinct (seg_elems post @ tl (snd x))"
    using rep seg_ok_split [OF ok] unfolding fl_rep_def
    by (auto simp: distinct_tl dest: list.set_sel(2) [rotated])
  ultimately have "fl_rep (fl\<lparr>fl_mem := ?m2\<rparr>) post (tl (snd x))"
    using F2 R2 by (simp add: fl_rep_def)
  then show ?thesis using m1 by blast
qed

section \<open>The search loop on lists of segments\<close>

text \<open>Offsets from the base sequence number \<open>c\<close>: the segments lie in the window ahead of it, in
  increasing order, with at least one missing number before each of them (\<open>lo\<close> is the first
  offset after the previous segment).\<close>

definition sn_window :: nat where
  "sn_window = 2 ^ 15 - 1"

fun segs_wf :: "u16 \<Rightarrow> nat \<Rightarrow> 'e seg list \<Rightarrow> bool" where
  "segs_wf c lo [] \<longleftrightarrow> True"
| "segs_wf c lo (x # ss) \<longleftrightarrow> lo < ahead16 c (fst x) \<and> snd x \<noteq> [] \<and>
     ahead16 c (fst x) + length (snd x) \<le> sn_window \<and> segs_wf c (ahead16 c (fst x) + length (snd x)) ss"

fun segs_insert :: "u16 \<Rightarrow> 'e \<Rightarrow> 'e seg list \<Rightarrow> ucs_frag_list_ooo_type \<times> 'e seg list" where
  "segs_insert sn e [] = (UCS_FRAG_LIST_INSERT_SLOW, [(sn, [e])])"
| "segs_insert sn e (x # ss) =
     (if circ_ge16 sn (fst x) \<and> circ_le16 sn (seg_last x) then (UCS_FRAG_LIST_INSERT_DUP, x # ss)
      else if circ_eq16 (sn + 1) (fst x) then (UCS_FRAG_LIST_INSERT_SLOW, (fst x - 1, e # snd x) # ss)
      else if circ_eq16 (seg_last x + 1) sn then
        (UCS_FRAG_LIST_INSERT_SLOW,
         case ss of
           [] \<Rightarrow> [(fst x, snd x @ [e])]
         | y # ss' \<Rightarrow> if unat (fst y) = unat sn + 1 then (fst x, (snd x @ [e]) @ snd y) # ss'
                     else (fst x, snd x @ [e]) # ss)
      else if circ_lt16 sn (fst x) then (UCS_FRAG_LIST_INSERT_SLOW, (sn, [e]) # x # ss)
      else let (r, ss') = segs_insert sn e ss in (r, x # ss'))"

lemma seg_last_ahead:
  assumes "snd x \<noteq> []" "ahead16 c (fst x) + length (snd x) \<le> sn_window"
  shows "ahead16 c (seg_last x) = ahead16 c (fst x) + length (snd x) - 1"
    and "ahead16 c (seg_last x + 1) = ahead16 c (fst x) + length (snd x)"
proof -
  obtain n where n: "length (snd x) = Suc n"
    using assms(1) by (cases "snd x") auto
  have "seg_last x = fst x + of_nat n" and l1: "seg_last x + 1 = fst x + of_nat (Suc n)"
    by (simp_all add: seg_last_def n)
  then show "ahead16 c (seg_last x) = ahead16 c (fst x) + length (snd x) - 1"
    using assms(2) ahead16_add [of c "fst x" n] by (simp add: n sn_window_def)
  show "ahead16 c (seg_last x + 1) = ahead16 c (fst x) + length (snd x)"
    unfolding l1 using assms(2) ahead16_add [of c "fst x" "Suc n"] by (simp add: n sn_window_def)
qed

text \<open>The four comparisons of the loop, as comparisons of offsets.\<close>

lemma seg_compare:
  assumes "snd x \<noteq> []" "ahead16 c (fst x) + length (snd x) \<le> sn_window" "ahead16 c sn < sn_window"
  shows "circ_ge16 sn (fst x) \<longleftrightarrow> ahead16 c (fst x) \<le> ahead16 c sn"
    and "circ_lt16 sn (fst x) \<longleftrightarrow> ahead16 c sn < ahead16 c (fst x)"
    and "circ_le16 sn (seg_last x) \<longleftrightarrow> ahead16 c sn < ahead16 c (fst x) + length (snd x)"
    and "circ_lt16 (seg_last x + 1) sn \<longleftrightarrow> ahead16 c (fst x) + length (snd x) < ahead16 c sn"
    and "sn + 1 = fst x \<longleftrightarrow> ahead16 c sn + 1 = ahead16 c (fst x)"
    and "seg_last x + 1 = sn \<longleftrightarrow> ahead16 c (fst x) + length (snd x) = ahead16 c sn"
    and "circ_le16 (fst x) (seg_last x)"
proof -
  have n: "0 < length (snd x)" using assms(1) by simp
  note l = seg_last_ahead [OF assms(1,2)]
  have w: "ahead16 c sn < 2 ^ 15" "ahead16 c (fst x) < 2 ^ 15" "ahead16 c (seg_last x) < 2 ^ 15"
    "ahead16 c (seg_last x + 1) < 2 ^ 15"
    using assms n l by (auto simp: sn_window_def)
  show "circ_ge16 sn (fst x) \<longleftrightarrow> ahead16 c (fst x) \<le> ahead16 c sn"
    "circ_lt16 sn (fst x) \<longleftrightarrow> ahead16 c sn < ahead16 c (fst x)"
    using w by (auto simp: circ_diff16_window [of c])
  show "circ_le16 sn (seg_last x) \<longleftrightarrow> ahead16 c sn < ahead16 c (fst x) + length (snd x)"
    using circ_diff16_window [OF w(1) w(3)] l n by auto
  show "circ_lt16 (seg_last x + 1) sn \<longleftrightarrow> ahead16 c (fst x) + length (snd x) < ahead16 c sn"
    using circ_diff16_window [OF w(4) w(1)] l by auto
  show "sn + 1 = fst x \<longleftrightarrow> ahead16 c sn + 1 = ahead16 c (fst x)"
    using ahead16_add [of c sn 1] w(1) by (simp flip: ahead16_eq_iff [of c])
  show "seg_last x + 1 = sn \<longleftrightarrow> ahead16 c (fst x) + length (snd x) = ahead16 c sn"
    using l(2) by (simp flip: ahead16_eq_iff [of c])
  show "circ_le16 (fst x) (seg_last x)"
    using circ_diff16_window [OF w(2) w(3)] l n by (auto simp: Suc_le_eq)
qed

text \<open>What one run of the loop returns: the verdict and lists of \<open>segs_insert\<close>, with the
  counters in step.\<close>

definition loop_post :: "'e frag_list \<Rightarrow> 'e seg list \<Rightarrow> 'e seg list \<Rightarrow> 'e list \<Rightarrow>
    ucs_frag_list_ooo_type \<times> 'e seg list \<Rightarrow> (ucs_frag_list_ooo_type \<times> 'e frag_list) option \<Rightarrow> bool" where
  "loop_post fl pre post rs spec res \<longleftrightarrow>
     (\<exists>fl'. res = Some (fst spec, fl') \<and> fl_rep fl' (pre @ snd spec) rs \<and>
        head_sn fl' = head_sn fl \<and> max_holes fl' = max_holes fl \<and>
        elem_count fl' = elem_count fl + (if fst spec = UCS_FRAG_LIST_INSERT_SLOW then 1 else 0) \<and>
        list_count fl' = list_count fl + of_nat (length (snd spec)) - of_nat (length post))"

lemma loop_next_ptr:
  assumes "fl_rep fl (pre @ post) rs" "qcell (fl_mem fl) (qptail (fl_mem fl) FragList) = QPtr FragList"
  shows "qcell (fl_mem fl) (end_loc (HeadOf FragList) (map seg_head pre)) =
    (case post of [] \<Rightarrow> QPtr FragList | x # _ \<Rightarrow> EPtr (seg_head x))"
proof -
  have F: "is_queue (fl_mem fl) FragList (map seg_head pre @ map seg_head post)"
    using assms(1) by (simp add: fl_rep_def)
  show ?thesis
    using is_queue_ptail [OF F] F assms(2) by (auto simp: is_queue_def split: list.split)
qed

lemma rep_snoc:
  assumes "pre \<noteq> []"
  obtains pre' p where "pre = pre' @ [p]" "last pre = p"
  using assms by (metis append_butlast_last_id last_snoc)

lemma loop_replace:
  assumes rep: "fl_rep fl (pre @ x # post) rs" and fresh: "e \<notin> set (seg_elems (pre @ x # post) @ rs)"
  shows "\<exists>fl'. frag_list_replace_head (if pre = [] then None else Some (seg_head (last pre)))
      (seg_head x) e fl = Some fl' \<and>
    fl_rep fl' (pre @ (fst x - 1, e # snd x) # post) rs \<and> same_counts fl fl'"
proof (cases "pre = []")
  case True
  then show ?thesis using rep_replace_head_None [of fl x post rs e] assms by simp
next
  case False
  then obtain pre' p where p: "pre = pre' @ [p]" "last pre = p" by (rule rep_snoc)
  then show ?thesis using rep_replace_head_Some [of fl pre' p x post rs e] assms by simp
qed

lemma loop_insert_head:
  assumes rep: "fl_rep fl (pre @ x # post) rs" and fresh: "e \<notin> set (seg_elems (pre @ x # post) @ rs)"
  shows "fl_rep (frag_list_insert_head (if pre = [] then None else Some (seg_head (last pre)))
      (seg_head x) e sn fl) (pre @ (sn, [e]) # x # post) rs"
proof (cases "pre = []")
  case True
  then show ?thesis using rep_insert_head_None [of fl "x # post" rs e] assms by simp
next
  case False
  then obtain pre' p where p: "pre = pre' @ [p]" "last pre = p" by (rule rep_snoc)
  then show ?thesis using rep_insert_head_Some [of fl pre' p x post rs e] assms by simp
qed

lemma frag_list_op_counts [simp]:
  "head_sn (frag_list_insert_tail e sn fl) = head_sn fl"
  "max_holes (frag_list_insert_tail e sn fl) = max_holes fl"
  "elem_count (frag_list_insert_tail e sn fl) = elem_count fl"
  "list_count (frag_list_insert_tail e sn fl) = list_count fl"
  "head_sn (frag_list_insert_head p h e sn fl) = head_sn fl"
  "max_holes (frag_list_insert_head p h e sn fl) = max_holes fl"
  "elem_count (frag_list_insert_head p h e sn fl) = elem_count fl"
  "list_count (frag_list_insert_head p h e sn fl) = list_count fl"
  "head_sn (frag_list_add_tail h e fl) = head_sn fl"
  "max_holes (frag_list_add_tail h e fl) = max_holes fl"
  "elem_count (frag_list_add_tail h e fl) = elem_count fl"
  "list_count (frag_list_add_tail h e fl) = list_count fl"
  "head_sn (frag_list_merge_heads h1 h2 fl) = head_sn fl"
  "max_holes (frag_list_merge_heads h1 h2 fl) = max_holes fl"
  "elem_count (frag_list_merge_heads h1 h2 fl) = elem_count fl"
  "list_count (frag_list_merge_heads h1 h2 fl) = list_count fl"
  by (simp_all add: frag_list_insert_tail_def frag_list_insert_head_def frag_list_add_tail_def
      frag_list_merge_heads_def Let_def)

text \<open>The branch that extends a list at its end and may join it with the next one.\<close>

lemma loop_add_tail:
  assumes rep: "fl_rep fl (pre @ x # post) rs" and fresh: "e \<notin> set (seg_elems (pre @ x # post) @ rs)"
    and sn: "seg_last x + 1 = sn"
  defines "fl1 \<equiv> frag_list_add_tail (seg_head x) e fl"
  defines "post' \<equiv> (case post of
           [] \<Rightarrow> [(fst x, snd x @ [e])]
         | y # ss' \<Rightarrow> if unat (fst y) = unat sn + 1 then (fst x, (snd x @ [e]) @ snd y) # ss'
                     else (fst x, snd x @ [e]) # post)"
  shows "\<exists>fl2. (if \<not> ucs_queue_is_tail FragList (seg_head x) (fl_mem fl1) then do {
                    nh \<leftarrow> as_elem (qcell (fl_mem fl1) (NextOf (seg_head x)));
                    Some (if unat (first_sn fl1 nh) = unat sn + 1
                          then (let fl2 = frag_list_merge_heads (seg_head x) nh fl1
                                in fl2\<lparr>list_count := list_count fl2 - 1\<rparr>)
                          else fl1) }
                  else Some fl1) = Some fl2 \<and>
    fl_rep fl2 (pre @ post') rs \<and> head_sn fl2 = head_sn fl \<and> max_holes fl2 = max_holes fl \<and>
    elem_count fl2 = elem_count fl \<and>
    list_count fl2 = list_count fl + of_nat (length post') - of_nat (Suc (length post))"
proof -
  let ?x = "(fst x, snd x @ [e])"
  have ok: "seg_ok fl x" using rep by (simp add: fl_rep_def)
  then have hx: "seg_head ?x = seg_head x" by (simp add: seg_ok_def seg_head_def)
  have rep1: "fl_rep fl1 (pre @ ?x # post) rs"
    unfolding fl1_def using rep fresh by (rule rep_add_tail)
  then have F1: "is_queue (fl_mem fl1) FragList (map seg_head pre @ seg_head x # map seg_head post)"
    by (simp add: fl_rep_def hx)
  have last: "seg_last ?x = sn"
    using sn by (simp add: seg_last_def algebra_simps)
  show ?thesis
  proof (cases post)
    case Nil
    then show ?thesis
      using rep1 is_queue_tail [OF F1, of "seg_head x"] by (simp add: post'_def fl1_def)
  next
    case (Cons y ss')
    have "distinct (map seg_head pre @ seg_head x # map seg_head post)"
      using F1 by (rule is_queue_distinct)
    then have nt: "\<not> ucs_queue_is_tail FragList (seg_head x) (fl_mem fl1)"
      using is_queue_tail [OF F1, of "seg_head x"] Cons last_in_set [of "map seg_head post"] by auto
    have ny: "qcell (fl_mem fl1) (NextOf (seg_head x)) = EPtr (seg_head y)"
      using F1 Cons by (simp add: is_queue_def)
    have fy: "first_sn fl1 (seg_head y) = fst y"
      using rep1 Cons by (simp add: fl_rep_def seg_ok_def)
    show ?thesis
    proof (cases "unat (fst y) = unat sn + 1")
      case True
      then have "fst y = seg_last ?x + 1"
        unfolding last by (rule word_eq_plus_1)
      then have "fl_rep (frag_list_merge_heads (seg_head x) (seg_head y) fl1)
          (pre @ (fst x, (snd x @ [e]) @ snd y) # ss') rs"
        using rep_merge_heads [of fl1 pre ?x y ss' rs] rep1 Cons by (simp add: hx)
      then show ?thesis
        using True Cons nt ny fy by (simp add: post'_def fl1_def)
    next
      case False
      then show ?thesis
        using Cons nt ny fy rep1 by (simp add: post'_def fl1_def)
    qed
  qed
qed

lemma insert_slow_loop_correct:
  assumes "fl_rep fl (pre @ post) rs"
    and "qcell (fl_mem fl) (qptail (fl_mem fl) FragList) = QPtr FragList"
    and "e \<notin> set (seg_elems (pre @ post) @ rs)"
    and "segs_wf c lo post" and "ahead16 c sn < sn_window"
    and "pre \<noteq> [] \<longrightarrow> circ_lt16 (seg_last (last pre) + 1) sn"
    and "length post < fuel"
  shows "loop_post fl pre post rs (segs_insert sn e post)
    (insert_slow_loop fuel (if pre = [] then None else Some (seg_head (last pre)))
       (qcell (fl_mem fl) (end_loc (HeadOf FragList) (map seg_head pre))) e sn fl)"
  using assms
proof (induction post arbitrary: pre fuel lo)
  case Nil
  note ptr = loop_next_ptr [OF Nil.prems(1,2)]
  obtain f where f: "fuel = Suc f" using Nil.prems(7) by (cases fuel) auto
  have "fl_rep (frag_list_insert_tail e sn fl) (pre @ [(sn, [e])]) rs"
    using rep_insert_tail [of fl pre rs e sn] Nil.prems by simp
  then show ?case
    by (simp add: f ptr loop_post_def Let_def)
next
  case (Cons x ss)
  note rep = Cons.prems(1) and fresh = Cons.prems(3) and win = Cons.prems(5)
  note ptr = loop_next_ptr [OF rep Cons.prems(2)]
  obtain f where f: "fuel = Suc f" "length ss < f" using Cons.prems(7) by (cases fuel) auto
  have ok: "seg_ok fl x" and okp: "pre \<noteq> [] \<Longrightarrow> seg_ok fl (last pre)"
    using rep by (auto simp: fl_rep_def)
  have wfx: "snd x \<noteq> []" "ahead16 c (fst x) + length (snd x) \<le> sn_window"
    and wfs: "segs_wf c (ahead16 c (fst x) + length (snd x)) ss"
    using Cons.prems(4) by auto
  have sns: "first_sn fl (seg_head x) = fst x" "last_sn fl (seg_head x) = seg_last x"
    "pre \<noteq> [] \<Longrightarrow> last_sn fl (seg_head (last pre)) = seg_last (last pre)"
    using ok okp by (auto simp: seg_ok_def)
  note cmp = seg_compare [OF wfx win]
  consider (dup) "circ_ge16 sn (fst x) \<and> circ_le16 sn (seg_last x)"
    | (before) "\<not> (circ_ge16 sn (fst x) \<and> circ_le16 sn (seg_last x))" "sn + 1 = fst x"
    | (after) "\<not> (circ_ge16 sn (fst x) \<and> circ_le16 sn (seg_last x))" "sn + 1 \<noteq> fst x" "seg_last x + 1 = sn"
    | (hole) "\<not> (circ_ge16 sn (fst x) \<and> circ_le16 sn (seg_last x))" "sn + 1 \<noteq> fst x" "seg_last x + 1 \<noteq> sn"
        "circ_lt16 sn (fst x)"
    | (rest) "\<not> (circ_ge16 sn (fst x) \<and> circ_le16 sn (seg_last x))" "sn + 1 \<noteq> fst x" "seg_last x + 1 \<noteq> sn"
        "\<not> circ_lt16 sn (fst x)"
    by blast
  then show ?case
  proof cases
    case dup
    then show ?thesis using rep by (simp add: f(1) ptr sns loop_post_def)
  next
    case before
    then show ?thesis
      using loop_replace [OF rep fresh] by (auto simp: f(1) ptr sns loop_post_def same_counts_def)
  next
    case after
    then show ?thesis
      using loop_add_tail [OF rep fresh after(3)] cmp(7)
      by (auto simp: f(1) ptr sns loop_post_def Let_def simp del: bind_assoc)
  next
    case hole
    then show ?thesis
      using loop_insert_head [OF rep fresh, of sn] Cons.prems(6)
      by (auto simp: f(1) ptr sns loop_post_def Let_def)
  next
    case rest
    then have lt: "circ_lt16 (seg_last x + 1) sn"
      using cmp by linarith
    have IH: "loop_post fl (pre @ [x]) ss rs (segs_insert sn e ss)
      (insert_slow_loop f (Some (seg_head x)) (qcell (fl_mem fl) (NextOf (seg_head x))) e sn fl)"
      using Cons.IH [of "pre @ [x]" "ahead16 c (fst x) + length (snd x)" f] Cons.prems wfs f lt by simp
    have "loop_post fl pre (x # ss) rs (segs_insert sn e (x # ss))
      (insert_slow_loop f (Some (seg_head x)) (qcell (fl_mem fl) (NextOf (seg_head x))) e sn fl)"
      using IH rest by (auto simp: loop_post_def split: prod.splits)
    then show ?thesis
      using rest lt by (simp add: f(1) ptr sns del: segs_insert.simps)
  qed
qed

section \<open>Stored sequence numbers\<close>

definition seg_content :: "'e seg \<Rightarrow> (u16 \<times> 'e) list" where
  "seg_content x = zip (map (\<lambda>i. fst x + of_nat i) [0..<length (snd x)]) (snd x)"

definition contents :: "'e seg list \<Rightarrow> (u16 \<times> 'e) list" where
  "contents ss = concat (map seg_content ss)"

lemma contents_simps [simp]:
  "contents [] = []" "contents (x # ss) = seg_content x @ contents ss"
  "contents (ss @ ts) = contents ss @ contents ts"
  by (simp_all add: contents_def)

lemma seg_content_Nil [simp]: "seg_content (f, []) = []"
  by (simp add: seg_content_def)

lemma seg_content_Cons: "seg_content (f, e # es) = (f, e) # seg_content (f + 1, es)"
proof -
  have "[0..<length (e # es)] = 0 # map Suc [0..<length es]"
    by (simp only: list.size add_0_right add_Suc_right map_Suc_upt upt_conv_Cons)
  then show ?thesis
    by (simp add: seg_content_def comp_def add.assoc)
qed

lemma seg_content_append:
  "seg_content (f, es @ fs) = seg_content (f, es) @ seg_content (f + of_nat (length es), fs)"
  by (induction es arbitrary: f) (simp_all add: seg_content_Cons add.assoc)

lemma map_snd_seg_content [simp]: "map snd (seg_content x) = snd x"
  by (simp add: seg_content_def)

lemma map_snd_contents [simp]: "map snd (contents ss) = seg_elems ss"
  by (induction ss) simp_all

lemma seg_content_sn:
  assumes "snd x \<noteq> []" "ahead16 c (fst x) + length (snd x) \<le> sn_window" "ahead16 c sn < sn_window"
  shows "sn \<in> fst ` set (seg_content x) \<longleftrightarrow>
    ahead16 c (fst x) \<le> ahead16 c sn \<and> ahead16 c sn < ahead16 c (fst x) + length (snd x)"
proof -
  have a: "ahead16 c (fst x + of_nat i) = ahead16 c (fst x) + i" if "i < length (snd x)" for i
    using that assms(2) by (intro ahead16_add) (simp add: sn_window_def)
  have "sn \<in> fst ` set (seg_content x) \<longleftrightarrow> (\<exists>i < length (snd x). sn = fst x + of_nat i)"
    by (simp add: seg_content_def set_map [symmetric] del: set_map) (auto simp: map_fst_zip)
  also have "\<dots> \<longleftrightarrow> (\<exists>i < length (snd x). ahead16 c sn = ahead16 c (fst x) + i)"
    using a by (metis ahead16_eq_iff)
  also have "\<dots> \<longleftrightarrow> ahead16 c (fst x) \<le> ahead16 c sn \<and> ahead16 c sn < ahead16 c (fst x) + length (snd x)"
    by (auto intro: exI [of _ "ahead16 c sn - ahead16 c (fst x)"])
  finally show ?thesis .
qed

lemma segs_wf_mono: "segs_wf c lo ss \<Longrightarrow> lo' \<le> lo \<Longrightarrow> segs_wf c lo' ss"
  by (cases ss) auto

lemma contents_above:
  "segs_wf c lo ss \<Longrightarrow> ahead16 c sn < sn_window \<Longrightarrow> sn \<in> fst ` set (contents ss) \<Longrightarrow> lo < ahead16 c sn"
proof (induction ss arbitrary: lo)
  case Nil
  then show ?case by simp
next
  case (Cons x ss)
  have "sn \<in> fst ` set (seg_content x) \<or> sn \<in> fst ` set (contents ss)"
    using Cons.prems(3) by (auto simp: image_iff)
  then show ?case
  proof
    assume "sn \<in> fst ` set (seg_content x)"
    then show ?thesis using Cons.prems seg_content_sn [of x c sn] by auto
  next
    assume "sn \<in> fst ` set (contents ss)"
    then show ?thesis using Cons.prems Cons.IH [of "ahead16 c (fst x) + length (snd x)"] by auto
  qed
qed

text \<open>The branch that extends a list at its end.\<close>

lemma segs_insert_after:
  assumes wf: "segs_wf c lo (x # ss)" and after: "ahead16 c (fst x) + length (snd x) = ahead16 c sn"
    and win: "ahead16 c sn < sn_window" and nowrap: "sn \<noteq> - 1"
  shows "fst (segs_insert sn e (x # ss)) = UCS_FRAG_LIST_INSERT_SLOW"
    and "set (contents (snd (segs_insert sn e (x # ss)))) = insert (sn, e) (set (contents (x # ss)))"
    and "segs_wf c lo (snd (segs_insert sn e (x # ss)))"
proof -
  let ?a = "ahead16 c (fst x)" and ?n = "length (snd x)" and ?x = "(fst x, snd x @ [e])"
  have wfx: "lo < ?a" "snd x \<noteq> []" "?a + ?n \<le> sn_window" and wfs: "segs_wf c (?a + ?n) ss"
    using wf by auto
  note cmp = seg_compare [OF wfx(2,3) win]
  have sn: "fst x + of_nat ?n = sn"
    using after cmp(6) by (simp add: seg_last_def)
  have c1: "seg_content ?x = seg_content x @ [(sn, e)]"
    using sn seg_content_append [of "fst x" "snd x" "[e]"] by (simp add: seg_content_Cons)
  have sn1: "ahead16 c (sn + 1) = ahead16 c sn + 1"
    using ahead16_add [of c sn 1] win by (simp add: sn_window_def)
  have ins: "segs_insert sn e (x # ss) = (UCS_FRAG_LIST_INSERT_SLOW,
       case ss of
         [] \<Rightarrow> [?x]
       | y # ss' \<Rightarrow> if unat (fst y) = unat sn + 1 then (fst x, (snd x @ [e]) @ snd y) # ss'
                   else ?x # ss)"
    using after cmp wfx by simp
  then show "fst (segs_insert sn e (x # ss)) = UCS_FRAG_LIST_INSERT_SLOW" by simp
  have "set (contents (snd (segs_insert sn e (x # ss)))) = insert (sn, e) (set (contents (x # ss))) \<and>
    segs_wf c lo (snd (segs_insert sn e (x # ss)))"
  proof (cases ss)
    case Nil
    then show ?thesis using ins c1 wfx after win by auto
  next
    case (Cons y ss')
    have ywf: "?a + ?n < ahead16 c (fst y)" "ahead16 c (fst y) + length (snd y) \<le> sn_window"
        "segs_wf c (ahead16 c (fst y) + length (snd y)) ss'"
      using wfs Cons by auto
    show ?thesis
    proof (cases "fst y = sn + 1")
      case True
      have "unat (sn + 1) = unat sn + 1"
        using nowrap by (metis Suc_eq_plus1 add.commute add_eq_0_iff unatSuc)
      then have ins': "snd (segs_insert sn e (x # ss)) = (fst x, (snd x @ [e]) @ snd y) # ss'"
        using ins Cons True by simp
      have "fst x + of_nat (length (snd x @ [e])) = fst y"
        using sn True by simp
      then have "seg_content (fst x, (snd x @ [e]) @ snd y) = seg_content ?x @ seg_content y"
        using seg_content_append [of "fst x" "snd x @ [e]" "snd y"] by simp
      moreover have len: "?a + length ((snd x @ [e]) @ snd y) = ahead16 c (fst y) + length (snd y)"
        using True sn1 after by simp
      have "segs_wf c lo ((fst x, (snd x @ [e]) @ snd y) # ss')"
        unfolding segs_wf.simps fst_conv snd_conv len using wfx ywf by simp
      ultimately show ?thesis
        unfolding ins' using c1 Cons by auto
    next
      case False
      then have "unat (fst y) \<noteq> unat sn + 1"
        using word_eq_plus_1 [of "fst y" sn] by auto
      then have ins': "snd (segs_insert sn e (x # ss)) = ?x # ss"
        using ins Cons by simp
      have "ahead16 c (fst y) \<noteq> ?a + ?n + 1"
        using False sn1 after by (metis ahead16_eq_iff)
      then show ?thesis
        unfolding ins' using c1 wfx ywf wfs Cons after win by auto
    qed
  qed
  then show "set (contents (snd (segs_insert sn e (x # ss)))) = insert (sn, e) (set (contents (x # ss)))"
    "segs_wf c lo (snd (segs_insert sn e (x # ss)))" by auto
qed

text \<open>Inserting is insertion into the set of stored packets, and a number that is stored already is
  reported as a duplicate, as long as the number is not the last one before the wrap-around.\<close>

lemma segs_insert_spec:
  assumes "segs_wf c lo ss" "lo < ahead16 c sn" "ahead16 c sn < sn_window" "sn \<noteq> - 1"
  shows "if sn \<in> fst ` set (contents ss) then segs_insert sn e ss = (UCS_FRAG_LIST_INSERT_DUP, ss)
    else fst (segs_insert sn e ss) = UCS_FRAG_LIST_INSERT_SLOW \<and>
      set (contents (snd (segs_insert sn e ss))) = insert (sn, e) (set (contents ss)) \<and>
      segs_wf c lo (snd (segs_insert sn e ss))"
  using assms
proof (induction ss arbitrary: lo)
  case Nil
  then show ?case by (simp add: seg_content_Cons sn_window_def)
next
  case (Cons x ss)
  let ?a = "ahead16 c (fst x)" and ?b = "ahead16 c sn" and ?n = "length (snd x)"
  have wfx: "lo < ?a" "snd x \<noteq> []" "?a + ?n \<le> sn_window" and wfs: "segs_wf c (?a + ?n) ss"
    using Cons.prems(1) by auto
  note win = Cons.prems(3)
  note cmp = seg_compare [OF wfx(2,3) win] and insn = seg_content_sn [OF wfx(2,3) win]
  have notin: "?b \<le> ?a + ?n \<Longrightarrow> sn \<notin> fst ` set (contents ss)"
    using contents_above [OF wfs win] by auto
  have split: "sn \<in> fst ` set (contents (x # ss)) \<longleftrightarrow>
      sn \<in> fst ` set (seg_content x) \<or> sn \<in> fst ` set (contents ss)"
    by (auto simp: image_iff)
  consider (dup) "?a \<le> ?b" "?b < ?a + ?n" | (before) "?b + 1 = ?a" | (after) "?a + ?n = ?b"
    | (hole) "?b + 1 < ?a" | (rest) "?a + ?n < ?b"
    by linarith
  then show ?case
  proof cases
    case dup
    then show ?thesis using split insn cmp by simp
  next
    case before
    then have f: "fst x = sn + 1" using cmp(5) by simp
    then have x: "x = (sn + 1, snd x)" by (metis prod.collapse)
    have "seg_content (sn, e # snd x) = (sn, e) # seg_content x"
      by (subst (2) x) (simp add: seg_content_Cons)
    moreover have "sn \<notin> fst ` set (contents (x # ss))"
      using split insn notin before by simp
    moreover have len: "?b + length (e # snd x) = ?a + ?n"
      using before by simp
    have "segs_wf c lo ((sn, e # snd x) # ss)"
      unfolding segs_wf.simps fst_conv snd_conv len using wfs wfx Cons.prems(2) by simp
    moreover have "snd (segs_insert sn e (x # ss)) = (sn, e # snd x) # ss"
      "fst (segs_insert sn e (x # ss)) = UCS_FRAG_LIST_INSERT_SLOW"
      using before cmp f by auto
    ultimately show ?thesis
      by auto
  next
    case after
    then show ?thesis
      using split insn notin segs_insert_after [OF Cons.prems(1) after win Cons.prems(4), of e] by simp
  next
    case hole
    then have "segs_insert sn e (x # ss) = (UCS_FRAG_LIST_INSERT_SLOW, (sn, [e]) # x # ss)"
      using cmp wfx by simp
    moreover have "sn \<notin> fst ` set (contents (x # ss))"
      using split insn notin hole by simp
    ultimately show ?thesis
      using hole Cons.prems wfx wfs win by (simp add: seg_content_Cons)
  next
    case rest
    have ins: "segs_insert sn e (x # ss) = (let (r, ss') = segs_insert sn e ss in (r, x # ss'))"
      using rest cmp wfx by simp
    show ?thesis
      using Cons.IH [OF wfs rest win Cons.prems(4)] split insn rest wfx
      by (auto simp: ins split: prod.splits simp del: segs_insert.simps)
  qed
qed

end
