(* ===== verification/Frag_List_Order.thy ===== *)
theory Frag_List_Order
  imports Frag_List
begin

text \<open>
  The reorder buffer as its users see it: packets go in with \<^verbatim>\<open>ucs_frag_list_insert\<close> in the
  order the network delivers them, and come out in sequence order, each once. The state between
  two arrivals has an empty ready list (after \<^verbatim>\<open>UCS_FRAG_LIST_INSERT_FIRST\<close> the user pulls
  until nothing is left, as the comments of \<^verbatim>\<open>frag_list.h\<close> ask for).
\<close>

section \<open>The state between arrivals\<close>







section \<open>Arrivals out of order\<close>





section \<open>Arrivals in order\<close>



section \<open>Pulling\<close>







section \<open>Whole runs\<close>

text \<open>One arrival as the comments of \<^verbatim>\<open>frag_list.h\<close> describe it: an in-order packet is handed
  on at once; after \<^verbatim>\<open>INSERT_FIRST\<close> everything that can be pulled is pulled.\<close>

definition fl_arrive :: "nat \<Rightarrow> u16 \<Rightarrow> 'e \<Rightarrow> 'e frag_list \<Rightarrow> ('e list \<times> 'e frag_list) option" where
  "fl_arrive fuel sn e fl =
     (case ucs_frag_list_insert fuel e sn fl of
        None \<Rightarrow> None
      | Some (r, fl1) \<Rightarrow>
          (if r = UCS_FRAG_LIST_INSERT_FAST then Some ([e], fl1)
           else if r = UCS_FRAG_LIST_INSERT_FIRST
           then map_option (\<lambda>(es, fl2). (e # es, fl2)) (drain ucs_frag_list_pull fuel fl1)
           else Some ([], fl1)))"

fun fl_arrivals :: "nat \<Rightarrow> (u16 \<times> 'e) list \<Rightarrow> 'e frag_list \<Rightarrow> ('e list \<times> 'e frag_list) option" where
  "fl_arrivals fuel [] fl = Some ([], fl)"
| "fl_arrivals fuel ((sn, e) # as) fl =
     (case fl_arrive fuel sn e fl of
        None \<Rightarrow> None
      | Some (ds, fl1) \<Rightarrow>
          map_option (\<lambda>(ds', fl2). (ds @ ds', fl2)) (fl_arrivals fuel as fl1))"

text \<open>An arrival the buffer is meant for: old, next, or early within the window, and not the number
  \<open>0xFFFF\<close> out of order (where the code misses a merge).\<close>

definition arrival_ok :: "u16 \<Rightarrow> u16 \<Rightarrow> bool" where
  "arrival_ok c sn \<longleftrightarrow> circ_le16 sn c \<or> sn = c + 1 \<or> (1 < ahead16 c sn \<and> ahead16 c sn < sn_window \<and> sn \<noteq> - 1)"










section \<open>Properties\<close>

text \<open>A list on uninitialised memory, for evaluation.\<close>

definition raw_frag_list :: "nat frag_list" where
  "raw_frag_list = \<lparr>fl_mem = \<lparr>qcell = (\<lambda>_. Null), qptail = (\<lambda>_. HeadOf ReadyList)\<rparr>,
     first_sn = (\<lambda>_. 0), last_sn = (\<lambda>_. 0), head_sn = 0, elem_count = 7, list_count = 7, max_holes = 3\<rparr>"

definition new_frag_list :: "u16 \<Rightarrow> nat frag_list" where
  "new_frag_list sn = the (ucs_frag_list_init sn (-1) raw_frag_list)"


lemmas fl_eval = fl_arrive_def ucs_frag_list_insert_def ucs_frag_list_insert_slow_def
  ucs_frag_list_insert_head_def ucs_frag_list_pull_def ucs_frag_list_pull_slow_def
  ucs_frag_list_empty_def new_frag_list_def raw_frag_list_def ucs_frag_list_init_def
  frag_list_insert_tail_def frag_list_insert_head_def frag_list_add_tail_def
  frag_list_merge_heads_def frag_list_replace_head_def ucs_queue_head_init_def
  ucs_queue_is_tail_def ucs_queue_is_empty_def ucs_queue_push_def ucs_queue_push_head_def
  ucs_queue_pull_non_empty_def ucs_queue_splice_def set_cell_def set_ptail_def circ_diff16_def
  Let_def arrival_ok_def ahead16_def sn_window_def

text \<open>Fuel for the examples.\<close>

abbreviation fuel5 :: nat where
  "fuel5 \<equiv> Suc (Suc (Suc (Suc (Suc 0))))"





text \<open>C39: The merge test \<^verbatim>\<open>nexth->head.first_sn == (sn + 1)\<close> misses the wrap-around. With
  packet \<open>0xFFFD\<close> missing, the arrivals \<open>0xFFFE\<close>, \<open>0\<close>, \<open>0xFFFF\<close> leave two adjacent lists, a
  duplicate of packet \<open>0\<close> is stored a second time, and once the gap is filled the list that begins
  at \<open>0\<close> can never be pulled: packet \<open>1\<close> is then rejected as a duplicate for ever.\<close>

theorem frag_list_wrap_stuck:
  "\<exists>fl'. fl_arrivals fuel5 [(0xFFFE, 1), (0, 2), (0xFFFF, 3), (0, 4), (0xFFFD, 5)] (new_frag_list 0xFFFC) =
      Some ([5, 1, 3, 4], fl') \<and> head_sn fl' = 0 \<and>
    (\<forall>fuel e. ucs_frag_list_insert fuel e 1 fl' = Some (UCS_FRAG_LIST_INSERT_DUP, fl'))"
proof -
  let ?r = "fl_arrivals fuel5 [(0xFFFE, 1), (0, 2), (0xFFFF, 3), (0, 4), (0xFFFD, 5)] (new_frag_list 0xFFFC)"
  let ?fl = "snd (the ?r)"
  have r: "map_option fst ?r = Some [5, 1, 3, 4]" by (simp add: fl_eval cong: eval_congs)
  have h: "head_sn ?fl = 0" by (simp add: fl_eval cong: eval_congs)
  have "elem_count ?fl = 1" by (simp add: fl_eval cong: eval_congs)
  moreover have "\<not> ucs_queue_is_empty FragList (fl_mem ?fl)" by (simp add: fl_eval cong: eval_congs)
  moreover have "qcell (fl_mem ?fl) (HeadOf FragList) = EPtr 2" by (simp add: fl_eval cong: eval_congs)
  moreover have "circ_ge16 1 (first_sn ?fl 2)" by (simp add: fl_eval cong: eval_congs)
  ultimately have "\<forall>fuel e. ucs_frag_list_insert fuel e 1 ?fl = Some (UCS_FRAG_LIST_INSERT_DUP, ?fl)"
    using h by (simp add: ucs_frag_list_insert_def ucs_frag_list_insert_slow_def
        ucs_frag_list_insert_head_def)
  moreover have "?r = Some ([5, 1, 3, 4], ?fl)"
    using r by (cases ?r) auto
  ultimately show ?thesis using h by blast
qed


end
