(* ===== verification/Arbiter.thy ===== *)
theory Arbiter
  imports Ucs_List
begin

text \<open>
  \<^verbatim>\<open>src/src/ucs/datastruct/arbiter.c\<close> and \<^verbatim>\<open>arbiter.h\<close>: the arbiter that transports
  use to share send resources between endpoints. A group is a ring of work elements reached from
  its \<open>tail\<close>; the arbiter is a doubly linked list through the head elements of the scheduled
  groups. The model is the memory of the elements, groups and list links, in the debug build: the
  \<open>guard\<close> and \<open>arbiter\<close> fields of a group exist and a failing assertion or a NULL dereference is
  \<open>None\<close>. The dispatch callback is a parameter that may change the arbiter memory and its own
  argument.
\<close>

section \<open>Memory\<close>

text \<open>An element is a user element, the \<open>dummy\<close> variable of a dispatch of an arbiter, or the
  \<open>dummy_group_head\<close> variable of a purge of a group.\<close>

datatype ('a, 'g, 'e) ucs_arbiter_elem = Elem 'e | Dummy 'a | PurgeDummy 'g

text \<open>A list link is the head of a list (\<^verbatim>\<open>arbiter->list\<close>, or the variable
  \<open>resched_list\<close> of a dispatch of that arbiter) or the \<open>list\<close> field of an element.\<close>

datatype 'a lhead = ArbList 'a | ReschedList 'a

datatype ('a, 'g, 'e) alink = LHead "'a lhead" | EList "('a, 'g, 'e) ucs_arbiter_elem"

datatype ucs_arbiter_cb_result =
    UCS_ARBITER_CB_RESULT_REMOVE_ELEM
  | UCS_ARBITER_CB_RESULT_NEXT_GROUP
  | UCS_ARBITER_CB_RESULT_DESCHED_GROUP
  | UCS_ARBITER_CB_RESULT_RESCHED_GROUP
  | UCS_ARBITER_CB_RESULT_STOP

record ('a, 'g, 'e) arb =
  alinks :: "('a, 'g, 'e) alink lstore"
  enext :: "('a, 'g, 'e) ucs_arbiter_elem \<Rightarrow> ('a, 'g, 'e) ucs_arbiter_elem option"
  egroup :: "('a, 'g, 'e) ucs_arbiter_elem \<Rightarrow> 'g option"
  gtail :: "'g \<Rightarrow> ('a, 'g, 'e) ucs_arbiter_elem option"
  gguard :: "'g \<Rightarrow> int"
  garbiter :: "'g \<Rightarrow> 'a option"

type_synonym ('a, 'g, 'e, 'x) ucs_arbiter_callback =
  "'a \<Rightarrow> 'g \<Rightarrow> ('a, 'g, 'e) ucs_arbiter_elem \<Rightarrow> 'x \<times> ('a, 'g, 'e) arb \<Rightarrow>
   (ucs_arbiter_cb_result \<times> 'x \<times> ('a, 'g, 'e) arb) option"

definition on_links ::
  "(('a, 'g, 'e) alink lstore \<Rightarrow> ('a, 'g, 'e) alink lstore option) \<Rightarrow> ('a, 'g, 'e) arb \<Rightarrow> ('a, 'g, 'e) arb option" where
  "on_links f st = map_option (\<lambda>l. st\<lparr>alinks := l\<rparr>) (f (alinks st))"

definition set_enext where
  "set_enext e v st = st\<lparr>enext := (enext st)(e := v)\<rparr>"

definition set_egroup where
  "set_egroup e v st = st\<lparr>egroup := (egroup st)(e := v)\<rparr>"

definition set_gtail where
  "set_gtail g v st = st\<lparr>gtail := (gtail st)(g := v)\<rparr>"

definition set_gguard where
  "set_gguard g v st = st\<lparr>gguard := (gguard st)(g := v)\<rparr>"

definition set_garbiter where
  "set_garbiter g v st = st\<lparr>garbiter := (garbiter st)(g := v)\<rparr>"

lemmas arb_upd_defs = set_enext_def set_egroup_def set_gtail_def set_gguard_def set_garbiter_def

section \<open>Operations\<close>

definition ucs_arbiter_init :: "'a \<Rightarrow> ('a, 'g, 'e) arb \<Rightarrow> ('a, 'g, 'e) arb" where
  "ucs_arbiter_init a st = st\<lparr>alinks := ucs_list_head_init (LHead (ArbList a)) (alinks st)\<rparr>"

definition ucs_arbiter_group_init :: "'g \<Rightarrow> ('a, 'g, 'e) arb \<Rightarrow> ('a, 'g, 'e) arb" where
  "ucs_arbiter_group_init g st = set_gguard g 0 (set_gtail g None st)"

definition ucs_arbiter_elem_init :: "('a, 'g, 'e) ucs_arbiter_elem \<Rightarrow> ('a, 'g, 'e) arb \<Rightarrow> ('a, 'g, 'e) arb" where
  "ucs_arbiter_elem_init e st = set_egroup e None st"

definition ucs_arbiter_is_empty :: "'a \<Rightarrow> ('a, 'g, 'e) arb \<Rightarrow> bool" where
  "ucs_arbiter_is_empty a st = ucs_list_is_empty (LHead (ArbList a)) (alinks st)"

definition ucs_arbiter_group_is_empty :: "'g \<Rightarrow> ('a, 'g, 'e) arb \<Rightarrow> bool" where
  "ucs_arbiter_group_is_empty g st \<longleftrightarrow> gtail st g = None"

definition ucs_arbiter_elem_is_scheduled :: "('a, 'g, 'e) ucs_arbiter_elem \<Rightarrow> ('a, 'g, 'e) arb \<Rightarrow> bool" where
  "ucs_arbiter_elem_is_scheduled e st \<longleftrightarrow> egroup st e \<noteq> None"

definition ucs_arbiter_elem_is_only :: "('a, 'g, 'e) ucs_arbiter_elem \<Rightarrow> ('a, 'g, 'e) arb \<Rightarrow> bool" where
  "ucs_arbiter_elem_is_only e st \<longleftrightarrow> enext st e = Some e"

definition guard_check :: "'g \<Rightarrow> ('a, 'g, 'e) arb \<Rightarrow> unit option" where
  "guard_check g st = ucs_assert (gguard st g = 0)"

definition ucs_arbiter_cleanup :: "'a \<Rightarrow> ('a, 'g, 'e) arb \<Rightarrow> unit option" where
  "ucs_arbiter_cleanup a st = ucs_assert (ucs_arbiter_is_empty a st)"

definition ucs_arbiter_group_cleanup :: "'g \<Rightarrow> ('a, 'g, 'e) arb \<Rightarrow> unit option" where
  "ucs_arbiter_group_cleanup g st = do {
     guard_check g st;
     ucs_assert (ucs_arbiter_group_is_empty g st)
   }"

definition ucs_arbiter_group_head_is_scheduled :: "('a, 'g, 'e) ucs_arbiter_elem \<Rightarrow> ('a, 'g, 'e) arb \<Rightarrow> bool" where
  "ucs_arbiter_group_head_is_scheduled head st \<longleftrightarrow> lnext (alinks st) (EList head) \<noteq> None"

definition ucs_arbiter_group_head_reset :: "('a, 'g, 'e) ucs_arbiter_elem \<Rightarrow> ('a, 'g, 'e) arb \<Rightarrow> ('a, 'g, 'e) arb" where
  "ucs_arbiter_group_head_reset head st = st\<lparr>alinks := set_next (EList head) None (alinks st)\<rparr>"

definition ucs_arbiter_elem_set_scheduled ::
  "('a, 'g, 'e) ucs_arbiter_elem \<Rightarrow> 'g \<Rightarrow> ('a, 'g, 'e) arb \<Rightarrow> ('a, 'g, 'e) arb" where
  "ucs_arbiter_elem_set_scheduled e g st = set_egroup e (Some g) st"

definition ucs_arbiter_group_push_elem_always ::
  "'g \<Rightarrow> ('a, 'g, 'e) ucs_arbiter_elem \<Rightarrow> ('a, 'g, 'e) arb \<Rightarrow> ('a, 'g, 'e) arb" where
  "ucs_arbiter_group_push_elem_always g e st =
     (let st1 = (case gtail st g of
                   None \<Rightarrow> set_enext e (Some e) (ucs_arbiter_group_head_reset e st)
                 | Some tail \<Rightarrow> set_enext tail (Some e) (set_enext e (enext st tail) st))
      in ucs_arbiter_elem_set_scheduled e g (set_gtail g (Some e) st1))"

definition ucs_arbiter_group_push_elem ::
  "'g \<Rightarrow> ('a, 'g, 'e) ucs_arbiter_elem \<Rightarrow> ('a, 'g, 'e) arb \<Rightarrow> ('a, 'g, 'e) arb" where
  "ucs_arbiter_group_push_elem g e st =
     (if ucs_arbiter_elem_is_scheduled e st then st else ucs_arbiter_group_push_elem_always g e st)"

definition ucs_arbiter_group_push_head_elem_always ::
  "'g \<Rightarrow> ('a, 'g, 'e) ucs_arbiter_elem \<Rightarrow> ('a, 'g, 'e) arb \<Rightarrow> ('a, 'g, 'e) arb option" where
  "ucs_arbiter_group_push_head_elem_always g e st = do {
     guard_check g st;
     ucs_assert (\<not> ucs_arbiter_elem_is_scheduled e st);
     let st1 = ucs_arbiter_elem_set_scheduled e g (ucs_arbiter_group_head_reset e st);
     case gtail st g of
       None \<Rightarrow> Some (set_gtail g (Some e) (set_enext e (Some e) st1))
     | Some tail \<Rightarrow> do {
         head \<leftarrow> enext st1 tail;
         let st2 = set_enext tail (Some e) (set_enext e (Some head) st1);
         if \<not> ucs_arbiter_group_head_is_scheduled head st2 then Some st2
         else on_links (ucs_list_replace (EList head) (EList e)) st2
       }
   }"

definition ucs_arbiter_group_push_head_elem ::
  "'g \<Rightarrow> ('a, 'g, 'e) ucs_arbiter_elem \<Rightarrow> ('a, 'g, 'e) arb \<Rightarrow> ('a, 'g, 'e) arb option" where
  "ucs_arbiter_group_push_head_elem g e st =
     (if ucs_arbiter_elem_is_scheduled e st then Some st
      else ucs_arbiter_group_push_head_elem_always g e st)"

fun num_elems_from ::
  "nat \<Rightarrow> 'g \<Rightarrow> ('a, 'g, 'e) ucs_arbiter_elem \<Rightarrow> nat \<Rightarrow> ('a, 'g, 'e) arb \<Rightarrow> nat option" where
  "num_elems_from 0 g elem n st = None"
| "num_elems_from (Suc fuel) g elem n st = do {
     elem' \<leftarrow> enext st elem;
     if Some elem' \<noteq> gtail st g then num_elems_from fuel g elem' (Suc n) st else Some (Suc n)
   }"

definition ucs_arbiter_group_num_elems :: "nat \<Rightarrow> 'g \<Rightarrow> ('a, 'g, 'e) arb \<Rightarrow> nat option" where
  "ucs_arbiter_group_num_elems fuel g st =
     (case gtail st g of None \<Rightarrow> Some 0 | Some elem \<Rightarrow> num_elems_from fuel g elem 0 st)"

definition ucs_arbiter_group_is_scheduled :: "'g \<Rightarrow> ('a, 'g, 'e) arb \<Rightarrow> bool option" where
  "ucs_arbiter_group_is_scheduled g st =
     (if ucs_arbiter_group_is_empty g st then Some False
      else do {
        tail \<leftarrow> gtail st g;
        head \<leftarrow> enext st tail;
        Some (ucs_arbiter_group_head_is_scheduled head st)
      })"

definition ucs_arbiter_schedule_head_if_not_scheduled ::
  "'a \<Rightarrow> ('a, 'g, 'e) ucs_arbiter_elem \<Rightarrow> ('a, 'g, 'e) arb \<Rightarrow> ('a, 'g, 'e) arb option" where
  "ucs_arbiter_schedule_head_if_not_scheduled a head st =
     (if \<not> ucs_arbiter_group_head_is_scheduled head st
      then on_links (ucs_list_add_tail (LHead (ArbList a)) (EList head)) st else Some st)"

definition ucs_arbiter_group_schedule_nonempty :: "'a \<Rightarrow> 'g \<Rightarrow> ('a, 'g, 'e) arb \<Rightarrow> ('a, 'g, 'e) arb option" where
  "ucs_arbiter_group_schedule_nonempty a g st = do {
     ucs_assert (\<not> ucs_arbiter_group_is_empty g st);
     tail \<leftarrow> gtail st g;
     head \<leftarrow> enext st tail;
     st1 \<leftarrow> ucs_arbiter_schedule_head_if_not_scheduled a head st;
     Some (set_garbiter g (Some a) st1)
   }"

definition ucs_arbiter_group_schedule :: "'a \<Rightarrow> 'g \<Rightarrow> ('a, 'g, 'e) arb \<Rightarrow> ('a, 'g, 'e) arb option" where
  "ucs_arbiter_group_schedule a g st =
     (if \<not> ucs_arbiter_group_is_empty g st then ucs_arbiter_group_schedule_nonempty a g st else Some st)"

definition ucs_arbiter_group_desched_nonempty :: "'a \<Rightarrow> 'g \<Rightarrow> ('a, 'g, 'e) arb \<Rightarrow> ('a, 'g, 'e) arb option" where
  "ucs_arbiter_group_desched_nonempty a g st = do {
     tail \<leftarrow> gtail st g;
     head \<leftarrow> enext st tail;
     if \<not> ucs_arbiter_group_head_is_scheduled head st then Some st
     else do {
       ucs_assert (garbiter st g = Some a);
       let st1 = set_garbiter g None st;
       st2 \<leftarrow> on_links (ucs_list_del (EList head)) st1;
       Some (ucs_arbiter_group_head_reset head st2)
     }
   }"

definition ucs_arbiter_group_desched :: "'a \<Rightarrow> 'g \<Rightarrow> ('a, 'g, 'e) arb \<Rightarrow> ('a, 'g, 'e) arb option" where
  "ucs_arbiter_group_desched a g st =
     (if \<not> ucs_arbiter_group_is_empty g st then ucs_arbiter_group_desched_nonempty a g st else Some st)"

definition ucs_arbiter_remove_and_reset_if_scheduled ::
  "('a, 'g, 'e) ucs_arbiter_elem \<Rightarrow> ('a, 'g, 'e) arb \<Rightarrow> ('a, 'g, 'e) arb option" where
  "ucs_arbiter_remove_and_reset_if_scheduled e st =
     (if ucs_arbiter_group_head_is_scheduled e st
      then do {
        st1 \<leftarrow> on_links (ucs_list_del (EList e)) st;
        Some (ucs_arbiter_group_head_reset e st1)
      }
      else Some st)"

definition ucs_arbiter_group_head_replace ::
  "'g \<Rightarrow> ('a, 'g, 'e) ucs_arbiter_elem \<Rightarrow> ('a, 'g, 'e) ucs_arbiter_elem \<Rightarrow> ('a, 'g, 'e) arb \<Rightarrow> ('a, 'g, 'e) arb option" where
  "ucs_arbiter_group_head_replace g group_head new_group_head st = do {
     ucs_assert (\<not> ucs_arbiter_group_is_empty g st);
     tail0 \<leftarrow> gtail st g;
     ucs_assert (enext st tail0 = Some group_head);
     let st1 = (if enext st group_head = Some group_head
                then set_gtail g (Some new_group_head) st
                else set_enext new_group_head (enext st group_head) st);
     tail \<leftarrow> gtail st1 g;
     Some (set_enext tail (Some new_group_head) st1)
   }"

subsection \<open>Purge\<close>

text \<open>The loop of \<^verbatim>\<open>ucs_arbiter_group_purge\<close>. It ends with the new head of the group, or with
  \<open>None\<close> in its place when the last element was removed and the function has returned.\<close>

fun purge_loop ::
  "nat \<Rightarrow> ('a, 'g, 'e, 'x) ucs_arbiter_callback \<Rightarrow> 'a \<Rightarrow> 'g \<Rightarrow> bool \<Rightarrow> ('a, 'g, 'e) ucs_arbiter_elem \<Rightarrow>
   ('a, 'g, 'e) ucs_arbiter_elem \<Rightarrow> ('a, 'g, 'e) ucs_arbiter_elem \<Rightarrow> ('a, 'g, 'e) ucs_arbiter_elem \<Rightarrow>
   'x \<times> ('a, 'g, 'e) arb \<Rightarrow> (('a, 'g, 'e) ucs_arbiter_elem option \<times> 'x \<times> ('a, 'g, 'e) arb) option" where
  "purge_loop 0 cb a g sched_group tail head nxt prev s = None"
| "purge_loop (Suc fuel) cb a g sched_group tail head nxt prev (x, st) = do {
     let ptr = nxt;
     next' \<leftarrow> enext st ptr;
     (result, x1, st1) \<leftarrow> cb a g ptr (x, ucs_arbiter_elem_init ptr st);
     if result = UCS_ARBITER_CB_RESULT_REMOVE_ELEM then
       if ptr = head \<and> ptr = tail then do {
         let st2 = set_gtail g None st1;
         st3 \<leftarrow> (if sched_group then on_links (ucs_list_del (EList (PurgeDummy g))) st2 else Some st2);
         Some (None, x1, st3)
       } else do {
         let head1 = (if ptr = head then next' else head);
         let st2 = (if ptr \<noteq> head \<and> ptr = tail then set_gtail g (Some prev) st1 else st1);
         ucs_assert (ptr \<noteq> head \<and> ptr = tail \<longrightarrow> next' = head);
         let st3 = set_enext prev (Some next') st2;
         if ptr \<noteq> tail then purge_loop fuel cb a g sched_group tail head1 next' prev (x1, st3)
         else Some (Some head1, x1, st3)
       }
     else do {
       let st2 = ucs_arbiter_elem_set_scheduled ptr g st1;
       if ptr \<noteq> tail then purge_loop fuel cb a g sched_group tail head next' ptr (x1, st2)
       else Some (Some head, x1, st2)
     }
   }"

definition ucs_arbiter_group_purge ::
  "nat \<Rightarrow> 'a \<Rightarrow> 'g \<Rightarrow> ('a, 'g, 'e, 'x) ucs_arbiter_callback \<Rightarrow> 'x \<times> ('a, 'g, 'e) arb \<Rightarrow>
   ('x \<times> ('a, 'g, 'e) arb) option" where
  "ucs_arbiter_group_purge fuel a g cb s =
     (case s of (x, st) \<Rightarrow>
      case gtail st g of
        None \<Rightarrow> Some (x, st)
      | Some tail \<Rightarrow> do {
          guard_check g st;
          head \<leftarrow> enext st tail;
          let sched_group = ucs_arbiter_group_head_is_scheduled head st;
          st1 \<leftarrow> (if sched_group
                  then on_links (ucs_list_replace (EList head) (EList (PurgeDummy g))) st
                  else Some st);
          (r, x2, st2) \<leftarrow> purge_loop fuel cb a g sched_group tail head head tail (x, st1);
          case r of
            None \<Rightarrow> Some (x2, st2)
          | Some head2 \<Rightarrow> do {
              ucs_assert (gtail st2 g \<noteq> None);
              st3 \<leftarrow> (if sched_group
                      then on_links (ucs_list_replace (EList (PurgeDummy g)) (EList head2)) st2
                      else Some (ucs_arbiter_group_head_reset head2 st2));
              Some (x2, st3)
            }
        })"

subsection \<open>Dispatch\<close>

text \<open>The inner loop of \<^verbatim>\<open>ucs_arbiter_dispatch_nonempty\<close>: dispatch the elements of one group.
  The flag of the result tells whether the callback asked to stop.\<close>

fun dispatch_group ::
  "nat \<Rightarrow> 'a \<Rightarrow> nat \<Rightarrow> ('a, 'g, 'e, 'x) ucs_arbiter_callback \<Rightarrow> 'g \<Rightarrow> ('a, 'g, 'e) ucs_arbiter_elem \<Rightarrow> nat \<Rightarrow>
   'x \<times> ('a, 'g, 'e) arb \<Rightarrow> (bool \<times> 'x \<times> ('a, 'g, 'e) arb) option" where
  "dispatch_group 0 a per_group cb grp group_head cnt s = None"
| "dispatch_group (Suc fuel) a per_group cb grp group_head cnt (x, st) = do {
     ucs_assert (egroup st group_head = Some grp);
     ucs_assert (egroup st (Dummy a) = Some grp);
     ucs_assert (cnt < per_group);
     let st1 = ucs_arbiter_elem_init group_head st;
     ucs_assert (\<not> ucs_arbiter_group_head_is_scheduled group_head st1);
     st2 \<leftarrow> ucs_arbiter_group_head_replace grp group_head (Dummy a) st1;
     let st3 = set_gguard grp (gguard st2 grp + 1) st2;
     (result, x4, st4) \<leftarrow> cb a grp group_head (x, st3);
     let st5 = set_gguard grp (gguard st4 grp - 1) st4;
     let cnt' = Suc cnt;
     tail \<leftarrow> gtail st5 grp;
     ucs_assert (enext st5 tail = Some (Dummy a));
     if result \<noteq> UCS_ARBITER_CB_RESULT_REMOVE_ELEM then do {
       let st6 = ucs_arbiter_elem_set_scheduled group_head grp st5;
       ucs_assert (\<not> ucs_arbiter_group_head_is_scheduled group_head st6);
       st7 \<leftarrow> ucs_arbiter_group_head_replace grp (Dummy a) group_head st6;
       if result = UCS_ARBITER_CB_RESULT_DESCHED_GROUP then
         if ucs_arbiter_group_head_is_scheduled (Dummy a) st7 then do {
           st8 \<leftarrow> on_links (ucs_list_replace (EList (Dummy a)) (EList group_head)) st7;
           dg \<leftarrow> egroup st8 (Dummy a);
           let st9 = set_garbiter grp (garbiter st8 dg) st8;
           Some (False, x4, ucs_arbiter_group_head_reset (Dummy a) st9)
         } else Some (False, x4, set_garbiter grp None st7)
       else do {
         st8 \<leftarrow> ucs_arbiter_remove_and_reset_if_scheduled (Dummy a) st7;
         if result = UCS_ARBITER_CB_RESULT_NEXT_GROUP then do {
           st9 \<leftarrow> on_links (ucs_list_add_tail (LHead (ArbList a)) (EList group_head)) st8;
           Some (False, x4, st9)
         } else if result = UCS_ARBITER_CB_RESULT_RESCHED_GROUP then do {
           st9 \<leftarrow> on_links (ucs_list_add_tail (LHead (ReschedList a)) (EList group_head)) st8;
           Some (False, x4, st9)
         } else do {
           st9 \<leftarrow> on_links (ucs_list_add_head (LHead (ArbList a)) (EList group_head)) st8;
           Some (True, x4, st9)
         }
       }
     } else if enext st5 (Dummy a) = Some (Dummy a) then do {
       let st6 = set_gtail grp None st5;
       st7 \<leftarrow> ucs_arbiter_remove_and_reset_if_scheduled (Dummy a) st6;
       Some (False, x4, set_garbiter grp None st7)
     } else do {
       group_head' \<leftarrow> enext st5 (Dummy a);
       let st6 = set_enext tail (Some group_head') st5;
       if ucs_arbiter_group_head_is_scheduled (Dummy a) st6 then do {
         st7 \<leftarrow> on_links (ucs_list_replace (EList (Dummy a)) (EList group_head')) st6;
         Some (False, x4, ucs_arbiter_group_head_reset (Dummy a) st7)
       } else if per_group \<le> cnt' then do {
         st7 \<leftarrow> on_links (ucs_list_add_tail (LHead (ArbList a)) (EList group_head')) st6;
         Some (False, x4, st7)
       } else
         dispatch_group fuel a per_group cb grp group_head' cnt'
           (x4, ucs_arbiter_group_head_reset group_head' st6)
     }
   }"

text \<open>The outer loop, one group at a time, until the arbiter is empty or the callback stops it.\<close>

fun dispatch_loop ::
  "nat \<Rightarrow> 'a \<Rightarrow> nat \<Rightarrow> ('a, 'g, 'e, 'x) ucs_arbiter_callback \<Rightarrow> 'x \<times> ('a, 'g, 'e) arb \<Rightarrow>
   ('x \<times> ('a, 'g, 'e) arb) option" where
  "dispatch_loop 0 a per_group cb s = None"
| "dispatch_loop (Suc fuel) a per_group cb (x, st) = do {
     (l, links) \<leftarrow> ucs_list_extract_head (LHead (ArbList a)) (alinks st);
     group_head \<leftarrow> (case l of EList e \<Rightarrow> Some e | _ \<Rightarrow> None);
     let st1 = ucs_arbiter_group_head_reset group_head (st\<lparr>alinks := links\<rparr>);
     grp \<leftarrow> egroup st1 group_head;
     let st2 = set_egroup (Dummy a) (Some grp) st1;
     guard_check grp st2;
     (stop, x3, st3) \<leftarrow> dispatch_group (Suc fuel) a per_group cb grp group_head 0 (x, st2);
     if stop \<or> ucs_list_is_empty (LHead (ArbList a)) (alinks st3) then Some (x3, st3)
     else dispatch_loop fuel a per_group cb (x3, st3)
   }"

definition ucs_arbiter_dispatch_nonempty ::
  "nat \<Rightarrow> 'a \<Rightarrow> nat \<Rightarrow> ('a, 'g, 'e, 'x) ucs_arbiter_callback \<Rightarrow> 'x \<times> ('a, 'g, 'e) arb \<Rightarrow>
   ('x \<times> ('a, 'g, 'e) arb) option" where
  "ucs_arbiter_dispatch_nonempty fuel a per_group cb s =
     (case s of (x, st) \<Rightarrow> do {
       let st0 = st\<lparr>alinks := ucs_list_head_init (LHead (ReschedList a)) (alinks st)\<rparr>;
       ucs_assert (\<not> ucs_list_is_empty (LHead (ArbList a)) (alinks st0));
       let st1 = ucs_arbiter_group_head_reset (Dummy a) st0;
       (x2, st2) \<leftarrow> dispatch_loop fuel a per_group cb (x, st1);
       st3 \<leftarrow> on_links (ucs_list_splice_tail (LHead (ArbList a)) (LHead (ReschedList a))) st2;
       Some (x2, st3)
     })"

definition ucs_arbiter_dispatch ::
  "nat \<Rightarrow> 'a \<Rightarrow> nat \<Rightarrow> ('a, 'g, 'e, 'x) ucs_arbiter_callback \<Rightarrow> 'x \<times> ('a, 'g, 'e) arb \<Rightarrow>
   ('x \<times> ('a, 'g, 'e) arb) option" where
  "ucs_arbiter_dispatch fuel a per_group cb s =
     (if \<not> ucs_arbiter_is_empty a (snd s) then ucs_arbiter_dispatch_nonempty fuel a per_group cb s
      else Some s)"

end
