(* ===== verification/Arbiter_Refine.thy ===== *)
theory Arbiter_Refine
  imports Arbiter
begin

text \<open>
  What the arbiter memory represents: a queue of elements per group, and for every initialised list
  head (an arbiter, or the \<open>resched_list\<close> of a running dispatch) the sequence of groups scheduled on
  it. The lemmas show that every operation of \<^verbatim>\<open>arbiter.c\<close> does to these queues what its
  documentation says.
\<close>

section \<open>Rings of elements\<close>

fun echain :: "('a, 'g, 'e) arb \<Rightarrow> ('a, 'g, 'e) ucs_arbiter_elem \<Rightarrow> ('a, 'g, 'e) ucs_arbiter_elem list \<Rightarrow>
    ('a, 'g, 'e) ucs_arbiter_elem \<Rightarrow> bool" where
  "echain st a [] b \<longleftrightarrow> enext st a = Some b"
| "echain st a (x # xs) b \<longleftrightarrow> enext st a = Some x \<and> echain st x xs b"

fun ring :: "('a, 'g, 'e) arb \<Rightarrow> 'g \<Rightarrow> ('a, 'g, 'e) ucs_arbiter_elem list \<Rightarrow> bool" where
  "ring st g [] \<longleftrightarrow> gtail st g = None"
| "ring st g (x # xs) \<longleftrightarrow> gtail st g = Some (last (x # xs)) \<and> echain st x xs x \<and> distinct (x # xs)"

lemma arb_upd_simps [simp]:
  "enext (set_enext e v st) = (enext st)(e := v)" "egroup (set_enext e v st) = egroup st"
  "gtail (set_enext e v st) = gtail st" "gguard (set_enext e v st) = gguard st"
  "garbiter (set_enext e v st) = garbiter st" "alinks (set_enext e v st) = alinks st"
  "enext (set_egroup e w st) = enext st" "egroup (set_egroup e w st) = (egroup st)(e := w)"
  "gtail (set_egroup e w st) = gtail st" "gguard (set_egroup e w st) = gguard st"
  "garbiter (set_egroup e w st) = garbiter st" "alinks (set_egroup e w st) = alinks st"
  "enext (set_gtail g v st) = enext st" "egroup (set_gtail g v st) = egroup st"
  "gtail (set_gtail g v st) = (gtail st)(g := v)" "gguard (set_gtail g v st) = gguard st"
  "garbiter (set_gtail g v st) = garbiter st" "alinks (set_gtail g v st) = alinks st"
  "enext (set_gguard g n st) = enext st" "egroup (set_gguard g n st) = egroup st"
  "gtail (set_gguard g n st) = gtail st" "gguard (set_gguard g n st) = (gguard st)(g := n)"
  "garbiter (set_gguard g n st) = garbiter st" "alinks (set_gguard g n st) = alinks st"
  "enext (set_garbiter g b st) = enext st" "egroup (set_garbiter g b st) = egroup st"
  "gtail (set_garbiter g b st) = gtail st" "gguard (set_garbiter g b st) = gguard st"
  "garbiter (set_garbiter g b st) = (garbiter st)(g := b)" "alinks (set_garbiter g b st) = alinks st"
  by (simp_all add: arb_upd_defs)

lemma echain_append [simp]:
  "echain st a (xs @ y # ys) b \<longleftrightarrow> echain st a xs y \<and> echain st y ys b"
  by (induction xs arbitrary: a) auto

lemma echain_cong:
  "echain st a xs b \<Longrightarrow> (\<And>e. e \<in> insert a (set xs) \<Longrightarrow> enext st' e = enext st e) \<Longrightarrow> echain st' a xs b"
  by (induction xs arbitrary: a) auto

lemma ring_cong:
  assumes "ring st g xs" "gtail st' g = gtail st g" "\<And>e. e \<in> set xs \<Longrightarrow> enext st' e = enext st e"
  shows "ring st' g xs"
  using assms by (cases xs) (auto intro: echain_cong [of st _ _ _ st'])

lemma echain_last: "echain st a xs b \<Longrightarrow> enext st (last (a # xs)) = Some b"
  by (induction xs arbitrary: a) auto

lemma ring_ends:
  assumes "ring st g xs" "xs \<noteq> []"
  shows "gtail st g = Some (last xs) \<and> enext st (last xs) = Some (hd xs)"
  using assms echain_last by (cases xs) fastforce+

lemma ring_empty_iff: "ring st g xs \<Longrightarrow> ucs_arbiter_group_is_empty g st \<longleftrightarrow> xs = []"
  by (cases xs) (auto simp: ucs_arbiter_group_is_empty_def)

lemma ring_distinct: "ring st g xs \<Longrightarrow> distinct xs"
  by (cases xs) auto

text \<open>Relinking the end of a chain to another element, and starting it at another one.\<close>

lemma echain_relink:
  "echain st a xs b \<Longrightarrow> distinct (a # xs) \<Longrightarrow> echain (set_enext (last (a # xs)) (Some c) st) a xs c"
proof (induction xs arbitrary: a)
  case (Cons x xs)
  then show ?case by (cases xs) auto
qed simp

lemma ring_push_tail:
  assumes "ring st g xs" "e \<notin> set xs"
  shows "ring (ucs_arbiter_group_push_elem_always g e st) g (xs @ [e])"
proof (cases xs)
  case Nil
  then show ?thesis using assms
    by (simp add: ucs_arbiter_group_push_elem_always_def ucs_arbiter_elem_set_scheduled_def Let_def
        ucs_arbiter_group_head_reset_def)
next
  case (Cons x ys)
  have r: "gtail st g = Some (last (x # ys))" "echain st x ys x" "distinct (x # ys)"
    using assms(1) Cons by auto
  let ?st1 = "set_enext e (enext st (last (x # ys))) st"
  have "echain ?st1 x ys x"
    using r assms(2) Cons by (auto intro!: echain_cong [OF r(2)])
  then have "echain (set_enext (last (x # ys)) (Some e) ?st1) x ys e"
    using r(3) echain_relink by fast
  moreover have "enext (set_enext (last (x # ys)) (Some e) ?st1) e = Some x"
    using echain_last [OF r(2)] assms(2) Cons last_in_set [of "x # ys"] by (auto split: if_splits)
  ultimately have "echain (set_enext (last (x # ys)) (Some e) ?st1) x (ys @ [e]) x" by simp
  then have "echain (ucs_arbiter_group_push_elem_always g e st) x (ys @ [e]) x"
    by (rule echain_cong) (simp add: ucs_arbiter_group_push_elem_always_def r(1)
        ucs_arbiter_elem_set_scheduled_def)
  then show ?thesis using r assms(2) Cons
    by (auto simp: ucs_arbiter_group_push_elem_always_def ucs_arbiter_elem_set_scheduled_def)
qed

lemma ring_replace_head:
  assumes "ring st g (h # t)" "n \<notin> set (h # t)"
  shows "\<exists>st'. ucs_arbiter_group_head_replace g h n st = Some st' \<and> ring st' g (n # t) \<and>
    (\<forall>e. e \<notin> set (n # t) \<longrightarrow> enext st' e = enext st e) \<and>
    (\<forall>g'. g' \<noteq> g \<longrightarrow> gtail st' g' = gtail st g') \<and>
    alinks st' = alinks st \<and> egroup st' = egroup st \<and> gguard st' = gguard st \<and> garbiter st' = garbiter st"
proof (cases t)
  case Nil
  then show ?thesis using assms
    by (auto simp: ucs_arbiter_group_head_replace_def ucs_arbiter_group_is_empty_def)
next
  case (Cons y ys)
  have r: "gtail st g = Some (last (y # ys))" "enext st h = Some y" "echain st y ys h" "distinct (h # y # ys)"
    using assms(1) Cons by auto
  let ?st1 = "set_enext n (Some y) st"
  have "echain ?st1 y ys h" using assms(2) Cons by (auto intro!: echain_cong [OF r(3)])
  then have "echain (set_enext (last (y # ys)) (Some n) ?st1) y ys n"
    using r(4) echain_relink [of ?st1 y ys h n] by simp
  moreover have "last (y # ys) \<in> set t" using Cons last_in_set [of "y # ys"] by simp
  ultimately show ?thesis using r assms(2) Cons echain_last [OF r(3)]
    by (auto simp: ucs_arbiter_group_head_replace_def ucs_arbiter_group_is_empty_def)
qed

lemma ring_push_head:
  assumes "ring st g (h # t)" "n \<notin> set (h # t)"
  shows "ring (set_enext (last (h # t)) (Some n) (set_enext n (Some h) st)) g (n # h # t)"
proof -
  have r: "gtail st g = Some (last (h # t))" "echain st h t h" "distinct (h # t)"
    using assms(1) by auto
  have "echain (set_enext n (Some h) st) h t h" using assms(2) by (auto intro!: echain_cong [OF r(2)])
  then have "echain (set_enext (last (h # t)) (Some n) (set_enext n (Some h) st)) h t n"
    using r(3) by (rule echain_relink)
  moreover have "last (h # t) \<noteq> n" using assms(2) last_in_set [of "h # t"] by auto
  ultimately show ?thesis using r assms(2) by simp
qed

lemma ring_drop_head:
  assumes "ring st g (h # y # t)"
  shows "ring (set_enext (last (y # t)) (Some y) st) g (y # t)"
  using assms echain_relink [of st y t h y] by auto

section \<open>Lists of scheduled groups\<close>

type_synonym ('a, 'g, 'e) rings = "'g \<Rightarrow> ('a, 'g, 'e) ucs_arbiter_elem list"
type_synonym ('a, 'g) scheds = "'a lhead \<Rightarrow> 'g list option"

definition scheduled :: "('a, 'g) scheds \<Rightarrow> 'g \<Rightarrow> bool" where
  "scheduled Q g \<longleftrightarrow> (\<exists>h S. Q h = Some S \<and> g \<in> set S)"

definition head_links :: "('a, 'g, 'e) rings \<Rightarrow> 'g list \<Rightarrow> ('a, 'g, 'e) alink list" where
  "head_links R S = map (\<lambda>g. EList (hd (R g))) S"

definition rings_disjoint :: "('a, 'g, 'e) rings \<Rightarrow> bool" where
  "rings_disjoint R \<longleftrightarrow> (\<forall>g g'. g \<noteq> g' \<longrightarrow> set (R g) \<inter> set (R g') = {})"

definition links_ok :: "('a, 'g, 'e) alink lstore \<Rightarrow> ('a, 'g, 'e) rings \<Rightarrow> ('a, 'g) scheds \<Rightarrow> bool" where
  "links_ok l R Q \<longleftrightarrow>
     (\<forall>h S. Q h = Some S \<longrightarrow> is_list l (LHead h) (head_links R S) \<and> (\<forall>g \<in> set S. R g \<noteq> [])) \<and>
     (\<forall>h h' S S'. h \<noteq> h' \<longrightarrow> Q h = Some S \<longrightarrow> Q h' = Some S' \<longrightarrow> set S \<inter> set S' = {}) \<and>
     (\<forall>g. R g \<noteq> [] \<longrightarrow> (lnext l (EList (hd (R g))) \<noteq> None \<longleftrightarrow> scheduled Q g))"

lemma head_inj: "rings_disjoint R \<Longrightarrow> R g \<noteq> [] \<Longrightarrow> R g' \<noteq> [] \<Longrightarrow> hd (R g) = hd (R g') \<longleftrightarrow> g = g'"
  unfolding rings_disjoint_def by (metis disjoint_iff hd_in_set)

lemma links_okD:
  assumes "links_ok l R Q"
  shows "Q h = Some S \<Longrightarrow> is_list l (LHead h) (head_links R S)"
    and "Q h = Some S \<Longrightarrow> g \<in> set S \<Longrightarrow> R g \<noteq> []"
    and "Q h = Some S \<Longrightarrow> Q h' = Some S' \<Longrightarrow> h \<noteq> h' \<Longrightarrow> set S \<inter> set S' = {}"
    and "R g \<noteq> [] \<Longrightarrow> lnext l (EList (hd (R g))) \<noteq> None \<longleftrightarrow> scheduled Q g"
  using assms unfolding links_ok_def by blast+

text \<open>How a new list memory is shown to represent new schedules: the changed list, the frame, and
  the scheduling mark of every head.\<close>

lemma links_ok_update:
  assumes ok: "links_ok l R Q" and h: "Q h = Some S"
    and l': "is_list l' (LHead h) (head_links R' S')" "same_links X l l'"
    and X: "X \<subseteq> insert (LHead h) (EList ` E)"
    and fresh: "\<And>h' S''. h' \<noteq> h \<Longrightarrow> Q h' = Some S'' \<Longrightarrow>
        E \<inter> (hd \<circ> R) ` set S'' = {} \<and> set S' \<inter> set S'' = {} \<and> (\<forall>g \<in> set S''. R' g \<noteq> [] \<and> hd (R' g) = hd (R g))"
    and ne: "\<And>g. g \<in> set S' \<Longrightarrow> R' g \<noteq> []"
    and mark: "\<And>g. R' g \<noteq> [] \<Longrightarrow> lnext l' (EList (hd (R' g))) \<noteq> None \<longleftrightarrow> scheduled (Q(h \<mapsto> S')) g"
  shows "links_ok l' R' (Q(h \<mapsto> S'))"
proof -
  have other: "is_list l' (LHead h') (head_links R' S'')" if "h' \<noteq> h" "Q h' = Some S''" for h' S''
  proof -
    have "is_list l (LHead h') (head_links R S'')" using links_okD(1) [OF ok that(2)] .
    moreover have hl: "head_links R' S'' = head_links R S''"
      using fresh [OF that] by (auto simp: head_links_def)
    moreover have "x \<notin> X" if x: "x \<in> set (LHead h' # head_links R S'')" for x
      using x X fresh [OF \<open>h' \<noteq> h\<close> \<open>Q h' = Some S''\<close>] \<open>h' \<noteq> h\<close> by (auto simp: head_links_def)
    ultimately show ?thesis
      using l'(2) is_list_cong [of l "LHead h'" "head_links R S''" l'] by (auto simp: same_links_def)
  qed
  show ?thesis
    unfolding links_ok_def
  proof (intro conjI allI impI)
    fix h' S''
    assume "(Q(h \<mapsto> S')) h' = Some S''"
    then show "is_list l' (LHead h') (head_links R' S'')" using other l'(1) by (auto split: if_splits)
  next
    fix h' S''
    assume "(Q(h \<mapsto> S')) h' = Some S''"
    then show "\<forall>g\<in>set S''. R' g \<noteq> []" using fresh ne by (fastforce split: if_splits)
  next
    fix h1 h2 S1 S2
    assume "h1 \<noteq> h2" "(Q(h \<mapsto> S')) h1 = Some S1" "(Q(h \<mapsto> S')) h2 = Some S2"
    then show "set S1 \<inter> set S2 = {}"
      using fresh links_okD(3) [OF ok] by (fastforce split: if_splits)
  qed (use mark in blast)
qed

lemma is_list_marks:
  assumes "is_list l (LHead h) (head_links R S)" "g \<in> set S"
  shows "lnext l (EList (hd (R g))) \<noteq> None"
  using is_list_next [OF assms(1)] assms(2) by (auto simp: head_links_def)

lemma scheduled_upd:
  "Q h = Some S \<Longrightarrow> scheduled (Q(h \<mapsto> S')) g \<longleftrightarrow>
     g \<in> set S' \<or> (\<exists>h' S''. h' \<noteq> h \<and> Q h' = Some S'' \<and> g \<in> set S'')"
  unfolding scheduled_def by (auto split: if_splits)

lemma scheduled_upd_other:
  assumes "Q h = Some S" "g \<in> set S' \<longleftrightarrow> g \<in> set S"
  shows "scheduled (Q(h \<mapsto> S')) g \<longleftrightarrow> scheduled Q g"
proof -
  have "scheduled Q g \<longleftrightarrow> g \<in> set S \<or> (\<exists>h' S''. h' \<noteq> h \<and> Q h' = Some S'' \<and> g \<in> set S'')"
    using scheduled_upd [of Q h S S g, OF assms(1)] assms(1) by (simp add: fun_upd_idem)
  then show ?thesis using scheduled_upd [of Q h S S' g, OF assms(1)] assms(2) by blast
qed

text \<open>Heads of a list are not heads of another one.\<close>

lemma other_heads:
  assumes "links_ok l R Q" "rings_disjoint R" "Q h = Some S" "Q h' = Some S''" "h' \<noteq> h"
  shows "(hd \<circ> R) ` set S \<inter> (hd \<circ> R) ` set S'' = {}"
  using links_okD(2,3) [OF assms(1)] head_inj [OF assms(2)] assms(3-5) by (fastforce simp: image_iff)

lemma unscheduled_head:
  assumes "links_ok l R Q" "rings_disjoint R" "R g \<noteq> []" "\<not> scheduled Q g" "Q h = Some S"
  shows "hd (R g) \<notin> (hd \<circ> R) ` set S" "EList (hd (R g)) \<notin> set (head_links R S)"
  using links_okD(2) [OF assms(1)] head_inj [OF assms(2)] assms(3-5)
  by (fastforce simp: scheduled_def head_links_def)+

text \<open>Two memories agree on which elements are marked as scheduled, one element apart.\<close>

definition marks_but :: "('a, 'g, 'e) ucs_arbiter_elem \<Rightarrow> ('a, 'g, 'e) alink lstore \<Rightarrow> ('a, 'g, 'e) alink lstore \<Rightarrow> bool" where
  "marks_but x l l' \<longleftrightarrow> (\<forall>e. e \<noteq> x \<longrightarrow> (lnext l' (EList e) = None \<longleftrightarrow> lnext l (EList e) = None))"

lemma marks_but_intro:
  assumes "is_list l h L" "is_list l' h L'" "same_links X l l'" "X - {EList x} \<subseteq> insert h (set L \<inter> set L')"
  shows "marks_but x l l'"
  unfolding marks_but_def
proof (intro allI impI)
  fix e
  assume "e \<noteq> x"
  show "lnext l' (EList e) = None \<longleftrightarrow> lnext l (EList e) = None"
  proof (cases "EList e \<in> X")
    case True
    then have "EList e \<in> insert h (set L)" "EList e \<in> insert h (set L')"
      using assms(4) \<open>e \<noteq> x\<close> by auto
    then show ?thesis using is_list_next [OF assms(1)] is_list_next [OF assms(2)] by blast
  next
    case False
    then show ?thesis using assms(3) by (simp add: same_links_def)
  qed
qed

lemma links_ok_insert:
  assumes ok: "links_ok l R Q" and dis: "rings_disjoint R" and g: "R g \<noteq> []" "\<not> scheduled Q g"
    and h: "Q h = Some S" and S': "set S' = insert g (set S)"
    and l': "is_list l' (LHead h) (head_links R S')" "same_links (set (LHead h # EList (hd (R g)) # head_links R S)) l l'"
  shows "links_ok l' R (Q(h \<mapsto> S')) \<and> marks_but (hd (R g)) l l'"
proof
  show mb: "marks_but (hd (R g)) l l'"
    by (rule marks_but_intro [OF links_okD(1) [OF ok h] l'(1,2)]) (auto simp: S' head_links_def)
  show "links_ok l' R (Q(h \<mapsto> S'))"
  proof (rule links_ok_update [OF ok h l', where E = "insert (hd (R g)) ((hd \<circ> R) ` set S)"])
    fix h' S'' assume h': "h' \<noteq> h" "Q h' = Some S''"
    have "g \<notin> set S''" using g(2) h'(2) by (auto simp: scheduled_def)
    then show "insert (hd (R g)) ((hd \<circ> R) ` set S) \<inter> (hd \<circ> R) ` set S'' = {} \<and>
        set S' \<inter> set S'' = {} \<and> (\<forall>g\<in>set S''. R g \<noteq> [] \<and> hd (R g) = hd (R g))"
      using other_heads [OF ok dis h h'(2,1)] unscheduled_head(1) [OF ok dis g h'(2)]
        links_okD(2) [OF ok h'(2)] links_okD(3) [OF ok h h'(2)] h'(1) unfolding S' by simp
  next
    fix g' assume "R g' \<noteq> []"
    then show "lnext l' (EList (hd (R g'))) \<noteq> None \<longleftrightarrow> scheduled (Q(h \<mapsto> S')) g'"
    proof (cases "g' = g")
      case True
      then show ?thesis using is_list_marks [OF l'(1), of g] S' by (auto simp: scheduled_upd [of Q h, OF h])
    next
      case False
      then have "hd (R g') \<noteq> hd (R g)" using head_inj [OF dis \<open>R g' \<noteq> []\<close> g(1)] by simp
      then have "lnext l' (EList (hd (R g'))) \<noteq> None \<longleftrightarrow> scheduled Q g'"
        using mb links_okD(4) [OF ok \<open>R g' \<noteq> []\<close>] by (simp add: marks_but_def)
      moreover have "scheduled (Q(h \<mapsto> S')) g' \<longleftrightarrow> scheduled Q g'"
        using False S' by (intro scheduled_upd_other [of Q h, OF h]) auto
      ultimately show ?thesis by simp
    qed
  next
    fix g' assume "g' \<in> set S'"
    then show "R g' \<noteq> []" using links_okD(2) [OF ok h] g(1) by (auto simp: S')
  qed (auto simp: head_links_def)
qed

lemma links_add_tail:
  assumes "links_ok l R Q" "rings_disjoint R" "R g \<noteq> []" "\<not> scheduled Q g" "Q h = Some S"
  shows "\<exists>l'. ucs_list_add_tail (LHead h) (EList (hd (R g))) l = Some l' \<and>
    links_ok l' R (Q(h \<mapsto> S @ [g])) \<and> marks_but (hd (R g)) l l'"
proof -
  have "EList (hd (R g)) \<notin> set (LHead h # head_links R S)"
    using unscheduled_head [OF assms] by simp
  then obtain l' where l': "ucs_list_add_tail (LHead h) (EList (hd (R g))) l = Some l'"
    "is_list l' (LHead h) (head_links R S @ [EList (hd (R g))])"
    "same_links (set (LHead h # EList (hd (R g)) # head_links R S)) l l'"
    using add_tail_correct [OF links_okD(1) [OF assms(1,5)]] by metis
  have "links_ok l' R (Q(h \<mapsto> S @ [g])) \<and> marks_but (hd (R g)) l l'"
    by (rule links_ok_insert [OF assms _ _ l'(3)]) (use l'(2) in \<open>auto simp: head_links_def\<close>)
  with l'(1) show ?thesis by blast
qed

lemma links_add_head:
  assumes "links_ok l R Q" "rings_disjoint R" "R g \<noteq> []" "\<not> scheduled Q g" "Q h = Some S"
  shows "\<exists>l'. ucs_list_add_head (LHead h) (EList (hd (R g))) l = Some l' \<and>
    links_ok l' R (Q(h \<mapsto> g # S)) \<and> marks_but (hd (R g)) l l'"
proof -
  have "EList (hd (R g)) \<notin> set (LHead h # head_links R S)"
    using unscheduled_head [OF assms] by simp
  then obtain l' where l': "ucs_list_add_head (LHead h) (EList (hd (R g))) l = Some l'"
    "is_list l' (LHead h) (EList (hd (R g)) # head_links R S)"
    "same_links (set (LHead h # EList (hd (R g)) # head_links R S)) l l'"
    using add_head_correct [OF links_okD(1) [OF assms(1,5)]] by metis
  have "links_ok l' R (Q(h \<mapsto> g # S)) \<and> marks_but (hd (R g)) l l'"
    by (rule links_ok_insert [OF assms _ _ l'(3)]) (use l'(2) in \<open>auto simp: head_links_def\<close>)
  with l'(1) show ?thesis by blast
qed

text \<open>Taking a group off its list, and clearing the mark of its head.\<close>

lemma links_del:
  assumes ok: "links_ok l R Q" and dis: "rings_disjoint R" and h: "Q h = Some (S1 @ g # S2)"
  shows "\<exists>l'. ucs_list_del (EList (hd (R g))) l = Some l' \<and>
    links_ok (set_next (EList (hd (R g))) None l') R (Q(h \<mapsto> S1 @ S2)) \<and>
    marks_but (hd (R g)) l (set_next (EList (hd (R g))) None l')"
proof -
  let ?e = "EList (hd (R g))"
  have il: "is_list l (LHead h) (head_links R S1 @ ?e # head_links R S2)"
    using links_okD(1) [OF ok h] by (simp add: head_links_def)
  then obtain l1 where l1: "ucs_list_del ?e l = Some l1" "is_list l1 (LHead h) (head_links R (S1 @ S2))"
    "same_links (set (LHead h # head_links R (S1 @ S2))) l l1"
    using list_del_correct [OF il] by (auto simp: head_links_def)
  let ?l' = "set_next ?e None l1"
  have e: "?e \<notin> set (LHead h # head_links R (S1 @ S2))"
    using il by (auto simp: is_list_def head_links_def)
  have l': "is_list ?l' (LHead h) (head_links R (S1 @ S2))"
    using is_list_cong [OF l1(2), of ?l'] e by auto
  have sl: "same_links (set (LHead h # ?e # head_links R (S1 @ S2))) l ?l'"
    using l1(3) by (auto simp: same_links_def)
  have gne: "R g \<noteq> []" using links_okD(2) [OF ok h] by simp
  have gS: "g \<notin> set (S1 @ S2)" using e by (auto simp: head_links_def)
  have mb: "marks_but (hd (R g)) l ?l'"
    by (rule marks_but_intro [OF links_okD(1) [OF ok h] l' sl]) (auto simp: head_links_def)
  have "links_ok ?l' R (Q(h \<mapsto> S1 @ S2))"
  proof (rule links_ok_update [OF ok h l' sl, where E = "(hd \<circ> R) ` set (S1 @ g # S2)"])
    fix h' S'' assume h': "h' \<noteq> h" "Q h' = Some S''"
    show "(hd \<circ> R) ` set (S1 @ g # S2) \<inter> (hd \<circ> R) ` set S'' = {} \<and>
        set (S1 @ S2) \<inter> set S'' = {} \<and> (\<forall>g\<in>set S''. R g \<noteq> [] \<and> hd (R g) = hd (R g))"
      using other_heads [OF ok dis h h'(2,1)] links_okD(3) [OF ok h h'(2)] h'(1)
        links_okD(2) [OF ok h'(2)] by auto
  next
    fix g' assume g': "R g' \<noteq> []"
    show "lnext ?l' (EList (hd (R g'))) \<noteq> None \<longleftrightarrow> scheduled (Q(h \<mapsto> S1 @ S2)) g'"
    proof (cases "g' = g")
      case True
      have "\<not> scheduled (Q(h \<mapsto> S1 @ S2)) g"
        using gS links_okD(3) [OF ok h] unfolding scheduled_upd [of Q h, OF h] by fastforce
      then show ?thesis using True by simp
    next
      case False
      then have "hd (R g') \<noteq> hd (R g)" using head_inj [OF dis g' gne] by simp
      then have "lnext ?l' (EList (hd (R g'))) \<noteq> None \<longleftrightarrow> scheduled Q g'"
        using mb links_okD(4) [OF ok g'] by (simp add: marks_but_def)
      moreover have "scheduled (Q(h \<mapsto> S1 @ S2)) g' \<longleftrightarrow> scheduled Q g'"
        using False by (intro scheduled_upd_other [of Q h, OF h]) auto
      ultimately show ?thesis by simp
    qed
  next
    fix g' assume "g' \<in> set (S1 @ S2)"
    then show "R g' \<noteq> []" using links_okD(2) [OF ok h, of g'] by auto
  qed (auto simp: head_links_def)
  with l1(1) mb show ?thesis by blast
qed

lemma links_extract:
  assumes "links_ok l R Q" "rings_disjoint R" "Q h = Some (g # S)"
  shows "\<exists>l'. ucs_list_extract_head (LHead h) l = Some (EList (hd (R g)), l') \<and>
    links_ok (set_next (EList (hd (R g))) None l') R (Q(h \<mapsto> S)) \<and>
    marks_but (hd (R g)) l (set_next (EList (hd (R g))) None l')"
proof -
  have "lnext l (LHead h) = Some (EList (hd (R g)))"
    using links_okD(1) [OF assms(1,3)] by (simp add: is_list_def head_links_def)
  then show ?thesis
    using links_del [OF assms(1,2), of h "[]" g S] assms(3) by (auto simp: ucs_list_extract_head_def)
qed

text \<open>A group keeps its place when another element becomes its head.\<close>

lemma links_replace:
  assumes ok: "links_ok l R Q" and dis: "rings_disjoint R" "rings_disjoint (R(g := ns))"
    and h: "Q h = Some (S1 @ g # S2)" and ns: "ns \<noteq> []" "hd ns \<noteq> hd (R g)"
  shows "\<exists>l'. ucs_list_replace (EList (hd (R g))) (EList (hd ns)) l = Some l' \<and>
    links_ok l' (R(g := ns)) Q \<and> marks_but (hd ns) l l'"
proof -
  let ?S = "S1 @ g # S2" and ?e = "EList (hd (R g))" and ?r = "EList (hd ns)" and ?R = "R(g := ns)"
  have il: "is_list l (LHead h) (head_links R S1 @ ?e # head_links R S2)"
    using links_okD(1) [OF ok h] by (simp add: head_links_def)
  have gS: "g \<notin> set (S1 @ S2)" using il by (auto simp: head_links_def is_list_def)
  have gne: "R g' \<noteq> []" if "g' \<in> set ?S" for g' using links_okD(2) [OF ok h that] .
  have rfresh: "hd ns \<noteq> hd (R g')" if "R g' \<noteq> []" for g'
    using head_inj [OF dis(2), of g g'] ns that by (cases "g' = g") auto
  have "?r \<notin> set (LHead h # head_links R S1 @ ?e # head_links R S2)"
    using rfresh gne by (auto simp: head_links_def)
  then obtain l' where l': "ucs_list_replace ?e ?r l = Some l'"
    "is_list l' (LHead h) (head_links R S1 @ ?r # head_links R S2)"
    "same_links (set (LHead h # ?r # head_links R S1 @ head_links R S2)) l l'"
    using list_replace_correct [OF il] by blast
  have il': "is_list l' (LHead h) (head_links ?R ?S)"
  proof -
    have "head_links ?R ?S = head_links R S1 @ ?r # head_links R S2"
      using gS by (auto simp: head_links_def)
    then show ?thesis using l'(2) by simp
  qed
  have mb: "marks_but (hd ns) l l'"
    by (rule marks_but_intro [OF il l'(2,3)]) auto
  have "links_ok l' ?R (Q(h \<mapsto> ?S))"
  proof (rule links_ok_update [OF ok h il' l'(3), where E = "insert (hd ns) ((hd \<circ> R) ` set ?S)"])
    fix h' S'' assume h': "h' \<noteq> h" "Q h' = Some S''"
    have "g \<notin> set S''" using links_okD(3) [OF ok h h'(2)] h'(1) by auto
    then show "insert (hd ns) ((hd \<circ> R) ` set ?S) \<inter> (hd \<circ> R) ` set S'' = {} \<and>
        set ?S \<inter> set S'' = {} \<and> (\<forall>g'\<in>set S''. ?R g' \<noteq> [] \<and> hd (?R g') = hd (R g'))"
      using other_heads [OF ok dis(1) h h'(2,1)] links_okD(3) [OF ok h h'(2)] h'(1)
        links_okD(2) [OF ok h'(2)] rfresh by auto
  next
    fix g' assume "g' \<in> set ?S"
    then show "?R g' \<noteq> []" using gne [of g'] ns by auto
  next
    fix g' assume g': "?R g' \<noteq> []"
    show "lnext l' (EList (hd (?R g'))) \<noteq> None \<longleftrightarrow> scheduled (Q(h \<mapsto> ?S)) g'"
    proof (cases "g' = g")
      case True
      have "scheduled (Q(h \<mapsto> ?S)) g" unfolding scheduled_def
        by (intro exI [of _ h] exI [of _ ?S]) simp
      moreover have "lnext l' (EList (hd (?R g))) \<noteq> None"
        using is_list_marks [OF il', of g] by simp
      ultimately show ?thesis using True by simp
    next
      case False
      then show ?thesis using mb rfresh [of g'] g' links_okD(4) [OF ok, of g'] h
        by (simp add: marks_but_def fun_upd_idem)
    qed
  qed (auto simp: head_links_def)
  then show ?thesis using l'(1) mb h by (auto simp: fun_upd_idem)
qed

lemma links_reset:
  assumes "links_ok l R Q" "\<And>g. scheduled Q g \<Longrightarrow> hd (R g) \<noteq> e"
  shows "links_ok (set_next (EList e) None l) R Q"
proof -
  have "is_list (set_next (EList e) None l) (LHead h) (head_links R S)" if h: "Q h = Some S" for h S
  proof -
    have "EList e \<notin> set (head_links R S)"
      using assms(2) h by (auto simp: head_links_def scheduled_def)
    then show ?thesis
      using is_list_cong [OF links_okD(1) [OF assms(1) h], of "set_next (EList e) None l"] by auto
  qed
  moreover have "lnext (set_next (EList e) None l) (EList (hd (R g))) \<noteq> None \<longleftrightarrow> scheduled Q g"
    if "R g \<noteq> []" for g
    using assms(2) [of g] links_okD(4) [OF assms(1) that] by auto
  ultimately show ?thesis
    using links_okD(2,3) [OF assms(1)] unfolding links_ok_def by blast
qed

lemma links_ring_unscheduled:
  assumes "links_ok l R Q" "\<not> scheduled Q g" "ns = [] \<or> lnext l (EList (hd ns)) = None"
  shows "links_ok l (R(g := ns)) Q"
proof -
  have gS: "g \<notin> set S" if "Q h = Some S" for h S using assms(2) that by (auto simp: scheduled_def)
  have "head_links (R(g := ns)) S = head_links R S" if "Q h = Some S" for h S
    using gS [OF that] by (auto simp: head_links_def)
  then show ?thesis using assms gS unfolding links_ok_def by auto
qed

lemma links_ring_same_head:
  assumes "links_ok l R Q" "R g \<noteq> []" "ns \<noteq> []" "hd ns = hd (R g)"
  shows "links_ok l (R(g := ns)) Q"
proof -
  have "head_links (R(g := ns)) S = head_links R S" for S
    using assms(4) by (auto simp: head_links_def)
  then show ?thesis using assms unfolding links_ok_def by auto
qed

lemma links_init:
  assumes "links_ok l R Q" "Q h = None"
  shows "links_ok (ucs_list_head_init (LHead h) l) R (Q(h \<mapsto> []))"
proof -
  let ?l = "ucs_list_head_init (LHead h) l"
  have same: "lnext ?l x = lnext l x \<and> lprev ?l x = lprev l x" if "x \<noteq> LHead h" for x
    using that by (simp add: ucs_list_head_init_def)
  have "is_list ?l (LHead h') (head_links R S)" if "Q h' = Some S" "h' \<noteq> h" for h' S
    using is_list_cong [OF links_okD(1) [OF assms(1) that(1)], of ?l] that(2) same
    by (auto simp: head_links_def)
  moreover have "scheduled (Q(h \<mapsto> [])) g = scheduled Q g" for g
  proof
    assume "scheduled Q g"
    then obtain k S where "Q k = Some S" "g \<in> set S" by (auto simp: scheduled_def)
    then show "scheduled (Q(h \<mapsto> [])) g"
      using assms(2) unfolding scheduled_def by (intro exI [of _ k] exI [of _ S]) auto
  qed (auto simp: scheduled_def split: if_splits)
  ultimately show ?thesis
    using assms(1) same is_list_init [of "LHead h" l] unfolding links_ok_def
    by (auto simp: head_links_def split: if_splits)
qed

lemma links_splice:
  assumes ok: "links_ok l R Q" and dis: "rings_disjoint R" and h: "Q h = Some S" and h': "Q h' = Some S'" and ne: "h \<noteq> h'"
  shows "\<exists>l'. ucs_list_splice_tail (LHead h) (LHead h') l = Some l' \<and>
    links_ok l' R (Q(h \<mapsto> S @ S', h' := None))"
proof -
  have "(hd \<circ> R) ` set S \<inter> (hd \<circ> R) ` set S' = {}" using other_heads [OF ok dis h h'] ne by blast
  then have "set (LHead h # head_links R S) \<inter> set (LHead h' # head_links R S') = {}"
    using ne by (auto simp: head_links_def)
  then obtain l' where l': "ucs_list_splice_tail (LHead h) (LHead h') l = Some l'"
    "is_list l' (LHead h) (head_links R S @ head_links R S')"
    "same_links (set (LHead h # head_links R S @ head_links R S')) l l'"
    using splice_tail_correct [OF links_okD(1) [OF ok h] links_okD(1) [OF ok h']] by blast
  have il: "is_list l' (LHead h) (head_links R (S @ S'))" using l'(2) by (simp add: head_links_def)
  let ?Q = "Q(h' := None)"
  have ok': "links_ok l' R (?Q(h \<mapsto> S @ S'))"
  proof -
    have sch: "scheduled (?Q(h \<mapsto> S @ S')) g \<longleftrightarrow> scheduled Q g" for g
    proof
      assume "scheduled Q g"
      then obtain k T where k: "Q k = Some T" "g \<in> set T" by (auto simp: scheduled_def)
      show "scheduled (?Q(h \<mapsto> S @ S')) g"
      proof (cases "k = h \<or> k = h'")
        case True
        then show ?thesis using k h h' unfolding scheduled_def
          by (intro exI [of _ h] exI [of _ "S @ S'"]) auto
      next
        case False
        then show ?thesis using k unfolding scheduled_def
          by (intro exI [of _ k] exI [of _ T]) auto
      qed
    qed (use h h' in \<open>auto simp: scheduled_def split: if_splits\<close>)
    have mark: "lnext l' (EList (hd (R g))) \<noteq> None \<longleftrightarrow> lnext l (EList (hd (R g))) \<noteq> None" if "R g \<noteq> []" for g
    proof (cases "EList (hd (R g)) \<in> set (head_links R (S @ S'))")
      case True
      then show ?thesis
        using is_list_next [OF il] is_list_next [OF links_okD(1) [OF ok h]]
          is_list_next [OF links_okD(1) [OF ok h']] by (auto simp: head_links_def)
    next
      case False
      then show ?thesis using l'(3) by (auto simp: same_links_def head_links_def)
    qed
    have other: "is_list l' (LHead k) (head_links R T)" if k: "Q k = Some T" "k \<noteq> h" "k \<noteq> h'" for k T
    proof -
      have "x \<notin> set (LHead h # head_links R S @ head_links R S')" if "x \<in> set (LHead k # head_links R T)" for x
        using that k other_heads [OF ok dis h k(1)] other_heads [OF ok dis h' k(1)]
        by (auto simp: head_links_def image_iff disjoint_iff)
      then show ?thesis
        using l'(3) is_list_cong [OF links_okD(1) [OF ok k(1)], of l'] by (auto simp: same_links_def)
    qed
    show ?thesis
      unfolding links_ok_def
    proof (intro conjI allI impI)
      fix k T assume "(?Q(h \<mapsto> S @ S')) k = Some T"
      then show "is_list l' (LHead k) (head_links R T)" using il other by (auto split: if_splits)
    next
      fix k T assume "(?Q(h \<mapsto> S @ S')) k = Some T"
      then show "\<forall>g\<in>set T. R g \<noteq> []" using links_okD(2) [OF ok] h h' by (auto split: if_splits)
    next
      fix k k' T T' assume "k \<noteq> k'" "(?Q(h \<mapsto> S @ S')) k = Some T" "(?Q(h \<mapsto> S @ S')) k' = Some T'"
      then show "set T \<inter> set T' = {}"
        using links_okD(3) [OF ok h, of k' T'] links_okD(3) [OF ok h', of k' T']
          links_okD(3) [OF ok h, of k T] links_okD(3) [OF ok h', of k T] links_okD(3) [OF ok, of k T k' T']
        by (auto split: if_splits)
    qed (use sch mark links_okD(4) [OF ok] in simp)
  qed
  have "?Q(h \<mapsto> S @ S') = Q(h \<mapsto> S @ S', h' := None)" using ne by (auto simp: fun_eq_iff)
  with ok' l'(1) show ?thesis by simp
qed

section \<open>The arbiter memory\<close>

definition elems_ok :: "('a, 'g, 'e) arb \<Rightarrow> ('a, 'g, 'e) rings \<Rightarrow> bool" where
  "elems_ok st R \<longleftrightarrow> (\<forall>g. ring st g (R g)) \<and> rings_disjoint R \<and>
     (\<forall>g. \<forall>e \<in> set (R g). egroup st e = Some g) \<and>
     (\<forall>e. (\<forall>g. Elem e \<notin> set (R g)) \<longrightarrow> egroup st (Elem e) = None)"

lemma elems_okD:
  assumes "elems_ok st R"
  shows "ring st g (R g)" "rings_disjoint R" "e \<in> set (R g) \<Longrightarrow> egroup st e = Some g"
    "(\<And>g. Elem x \<notin> set (R g)) \<Longrightarrow> egroup st (Elem x) = None"
  using assms unfolding elems_ok_def by blast+

text \<open>A change of one ring: the ring itself, the frame, and the group pointers.\<close>

lemma elems_ok_update:
  assumes ok: "elems_ok st R" and r: "ring st' g ns"
    and fr: "\<And>e. e \<notin> set (R g) \<union> set ns \<Longrightarrow> enext st' e = enext st e"
      "\<And>g'. g' \<noteq> g \<Longrightarrow> gtail st' g' = gtail st g'"
    and ns: "\<And>g'. g' \<noteq> g \<Longrightarrow> set ns \<inter> set (R g') = {}"
    and eg: "\<And>e. e \<in> set ns \<Longrightarrow> egroup st' e = Some g"
      "\<And>e. e \<in> set (R g) \<Longrightarrow> e \<notin> set ns \<Longrightarrow> (\<exists>x. e = Elem x) \<Longrightarrow> egroup st' e = None"
      "\<And>e. e \<notin> set (R g) \<union> set ns \<Longrightarrow> egroup st' e = egroup st e"
  shows "elems_ok st' (R(g := ns))"
proof -
  have dis: "set (R g) \<inter> set (R g') = {}" if "g' \<noteq> g" for g'
    using elems_okD(2) [OF ok] that unfolding rings_disjoint_def by blast
  have "ring st' g' (R g')" if "g' \<noteq> g" for g'
    using elems_okD(1) [OF ok, of g'] by (rule ring_cong) (use that dis [OF that] ns [OF that] fr in blast)+
  moreover have "rings_disjoint (R(g := ns))"
    using elems_okD(2) [OF ok] ns unfolding rings_disjoint_def by auto
  moreover have "egroup st' e = Some g'" if "g' \<noteq> g" "e \<in> set (R g')" for g' e
  proof -
    have "e \<notin> set (R g) \<union> set ns" using that dis [OF that(1)] ns [OF that(1)] by blast
    then show ?thesis using eg(3) elems_okD(3) [OF ok that(2)] by simp
  qed
  moreover have "egroup st' (Elem x) = None" if "\<And>g'. Elem x \<notin> set ((R(g := ns)) g')" for x
  proof (cases "Elem x \<in> set (R g)")
    case True
    then show ?thesis using eg(2) that [of g] by simp
  next
    case False
    then have "Elem x \<notin> set (R g')" for g' using that [of g'] by (cases "g' = g") simp_all
    then show ?thesis using eg(3) [of "Elem x"] elems_okD(4) [OF ok, of x] that [of g] False by simp
  qed
  ultimately show ?thesis using r eg(1) unfolding elems_ok_def by simp
qed

lemma elems_ok_links [simp]: "elems_ok (st\<lparr>alinks := l\<rparr>) R = elems_ok st R"
proof -
  have ec: "echain (st\<lparr>alinks := l\<rparr>) a xs b = echain st a xs b" for a xs b
    by (induction xs arbitrary: a) simp_all
  have "ring (st\<lparr>alinks := l\<rparr>) g xs = ring st g xs" for g xs by (cases xs) (simp_all add: ec)
  then show ?thesis by (simp add: elems_ok_def)
qed

lemma elems_ok_same:
  "enext st' = enext st \<Longrightarrow> egroup st' = egroup st \<Longrightarrow> gtail st' = gtail st \<Longrightarrow> elems_ok st' R = elems_ok st R"
proof -
  assume a: "enext st' = enext st" "egroup st' = egroup st" "gtail st' = gtail st"
  have ec: "echain st' a xs b = echain st a xs b" for a xs b
    by (induction xs arbitrary: a) (simp_all add: a)
  have "ring st' g xs = ring st g xs" for g xs by (cases xs) (simp_all add: ec a)
  then show ?thesis by (simp add: elems_ok_def a)
qed

text \<open>The debug field \<open>arbiter\<close> of a scheduled group names the arbiter it is scheduled on.\<close>

definition on_arb :: "('a, 'g) scheds \<Rightarrow> 'a \<Rightarrow> 'g \<Rightarrow> bool" where
  "on_arb Q b g \<longleftrightarrow> (\<exists>S. (Q (ArbList b) = Some S \<or> Q (ReschedList b) = Some S) \<and> g \<in> set S)"

definition arbs_ok :: "('g \<Rightarrow> 'a option) \<Rightarrow> ('a, 'g) scheds \<Rightarrow> bool" where
  "arbs_ok ga Q \<longleftrightarrow> (\<forall>b g. on_arb Q b g \<longrightarrow> ga g = Some b)"

definition arb_rep :: "('a, 'g, 'e) arb \<Rightarrow> ('a, 'g, 'e) rings \<Rightarrow> ('a, 'g) scheds \<Rightarrow> bool" where
  "arb_rep st R Q \<longleftrightarrow> elems_ok st R \<and> links_ok (alinks st) R Q \<and> arbs_ok (garbiter st) Q"

lemma scheduled_on_arb: "scheduled Q g \<longleftrightarrow> (\<exists>b. on_arb Q b g)"
proof
  assume "scheduled Q g"
  then obtain h S where "Q h = Some S" "g \<in> set S" by (auto simp: scheduled_def)
  then show "\<exists>b. on_arb Q b g" by (cases h) (auto simp: on_arb_def)
qed (auto simp: on_arb_def scheduled_def)

lemma rings_head:
  assumes "elems_ok st R" "R g \<noteq> []"
  shows "gtail st g = Some (last (R g))" "enext st (last (R g)) = Some (hd (R g))"
  using ring_ends [OF elems_okD(1) [OF assms(1)] assms(2)] by auto

lemma head_scheduled:
  "arb_rep st R Q \<Longrightarrow> R g \<noteq> [] \<Longrightarrow> ucs_arbiter_group_head_is_scheduled (hd (R g)) st = scheduled Q g"
  using links_okD(4) [of "alinks st" R Q g] by (simp add: arb_rep_def ucs_arbiter_group_head_is_scheduled_def)

lemma group_is_scheduled_correct:
  "arb_rep st R Q \<Longrightarrow> ucs_arbiter_group_is_scheduled g st = Some (scheduled Q g)"
proof (cases "R g = []")
  case True
  assume rep: "arb_rep st R Q"
  then have "\<not> scheduled Q g"
    using True links_okD(2) [of "alinks st" R Q] by (auto simp: arb_rep_def scheduled_def)
  then show ?thesis
    using rep True ring_empty_iff elems_okD(1) by (fastforce simp: arb_rep_def ucs_arbiter_group_is_scheduled_def)
next
  case False
  assume rep: "arb_rep st R Q"
  then have "elems_ok st R" by (simp add: arb_rep_def)
  then show ?thesis
    using False rings_head [of st R g] head_scheduled [OF rep False]
    by (simp add: ucs_arbiter_group_is_scheduled_def ucs_arbiter_group_is_empty_def)
qed

end
