(* ===== verification/Arbiter_Dispatch.thy ===== *)
theory Arbiter_Dispatch
  imports Arbiter_Refine
begin

text \<open>
  The operations of the arbiter on what the memory represents, and the dispatch loop: an abstract
  dispatcher over group queues and schedules, and the proof that the memory-level code behaves
  exactly like it for every callback that keeps the representation (locale \<open>arbiter_callback\<close>),
  in particular for callbacks that push elements and schedule groups while being dispatched.
\<close>

section \<open>Push, schedule, deschedule\<close>

lemma set_garbiter_same: "garbiter st g = v \<Longrightarrow> set_garbiter g v st = st"
  by (auto simp: set_garbiter_def)

lemma head_is_scheduled_upd [simp]:
  "ucs_arbiter_group_head_is_scheduled x (set_enext e v st) = ucs_arbiter_group_head_is_scheduled x st"
  "ucs_arbiter_group_head_is_scheduled x (set_gguard g n st) = ucs_arbiter_group_head_is_scheduled x st"
  "ucs_arbiter_group_head_is_scheduled x (set_egroup e w st) = ucs_arbiter_group_head_is_scheduled x st"
  by (simp_all add: ucs_arbiter_group_head_is_scheduled_def)

lemma elems_ok_debug [simp]:
  "elems_ok (set_garbiter g v st) R = elems_ok st R" "elems_ok (set_gguard g n st) R = elems_ok st R"
  by (rule elems_ok_same; simp)+

lemma alinks_inj [simp]: "st\<lparr>alinks := x\<rparr> = st\<lparr>alinks := y\<rparr> \<longleftrightarrow> x = y"
  by (cases st) simp

lemma unqueued_not_head:
  assumes "links_ok l R Q" "scheduled Q g" "\<And>g. e \<notin> set (R g)"
  shows "hd (R g) \<noteq> e"
  using assms links_okD(2) [OF assms(1)] by (metis hd_in_set scheduled_def)

lemma unscheduled_empty: "links_ok l R Q \<Longrightarrow> R g = [] \<Longrightarrow> \<not> scheduled Q g"
  using links_okD(2) by (fastforce simp: scheduled_def)

lemma push_always_fields:
  fixes g e st
  defines "st' \<equiv> ucs_arbiter_group_push_elem_always g e st"
  shows "enext st' = (case gtail st g of None \<Rightarrow> (enext st)(e := Some e)
      | Some t \<Rightarrow> (enext st)(e := enext st t, t := Some e))"
    and "egroup st' = (egroup st)(e := Some g)" and "gtail st' = (gtail st)(g := Some e)"
    and "gguard st' = gguard st" and "garbiter st' = garbiter st"
    and "alinks st' = (if gtail st g = None then set_next (EList e) None (alinks st) else alinks st)"
  unfolding st'_def
  by (simp_all add: ucs_arbiter_group_push_elem_always_def Let_def ucs_arbiter_elem_set_scheduled_def
      ucs_arbiter_group_head_reset_def split: option.splits)

lemma push_elem_always_correct:
  assumes rep: "arb_rep st R Q" and fresh: "\<And>g. Elem x \<notin> set (R g)"
  shows "arb_rep (ucs_arbiter_group_push_elem_always g (Elem x) st) (R(g := R g @ [Elem x])) Q"
proof -
  let ?st = "ucs_arbiter_group_push_elem_always g (Elem x) st"
  note fields = push_always_fields [of g "Elem x" st]
  have ok: "elems_ok st R" "links_ok (alinks st) R Q" using rep by (auto simp: arb_rep_def)
  have tail: "gtail st g = None \<longleftrightarrow> R g = []" "\<And>t. gtail st g = Some t \<Longrightarrow> t \<in> set (R g)"
    using elems_okD(1) [OF ok(1), of g] rings_head(1) [OF ok(1), of g] by (cases "R g"; auto)+
  have "ring ?st g (R g @ [Elem x])" using ring_push_tail [OF elems_okD(1) [OF ok(1)] fresh] .
  then have "elems_ok ?st (R(g := R g @ [Elem x]))"
  proof (rule elems_ok_update [OF ok(1)])
    fix e assume "e \<notin> set (R g) \<union> set (R g @ [Elem x])"
    then show "enext ?st e = enext st e" "egroup ?st e = egroup st e"
      using tail(2) by (auto simp: fields split: option.splits)
  next
    fix e assume "e \<in> set (R g @ [Elem x])"
    then show "egroup ?st e = Some g" using elems_okD(3) [OF ok(1), of e g] by (auto simp: fields)
  next
    fix g' assume "g' \<noteq> g"
    then show "set (R g @ [Elem x]) \<inter> set (R g') = {}"
      using fresh [of g'] elems_okD(2) [OF ok(1)] by (simp add: rings_disjoint_def)
  qed (auto simp: fields)
  moreover have "links_ok (alinks ?st) (R(g := R g @ [Elem x])) Q"
  proof (cases "R g = []")
    case True
    then have al: "alinks ?st = set_next (EList (Elem x)) None (alinks st)"
      using tail(1) by (simp add: fields)
    have "links_ok (alinks ?st) R Q"
      unfolding al using unqueued_not_head [OF ok(2) _ fresh] by (rule links_reset [OF ok(2)])
    then show ?thesis
      by (rule links_ring_unscheduled) (simp_all add: True unscheduled_empty [OF ok(2)] al)
  next
    case False
    then show ?thesis
      using links_ring_same_head [OF ok(2), of g "R g @ [Elem x]"] tail(1) by (auto simp: fields)
  qed
  ultimately show ?thesis using rep by (simp add: arb_rep_def fields)
qed

lemma elem_queued_iff:
  "elems_ok st R \<Longrightarrow> ucs_arbiter_elem_is_scheduled (Elem x) st \<longleftrightarrow> (\<exists>g. Elem x \<in> set (R g))"
  unfolding ucs_arbiter_elem_is_scheduled_def using elems_okD(3,4) by fastforce

lemma push_elem_correct:
  assumes "arb_rep st R Q"
  shows "arb_rep (ucs_arbiter_group_push_elem g (Elem x) st)
    (if \<exists>g'. Elem x \<in> set (R g') then R else R(g := R g @ [Elem x])) Q"
  using assms push_elem_always_correct [OF assms, of x g] elem_queued_iff [of st R x]
  by (auto simp: ucs_arbiter_group_push_elem_def arb_rep_def)

text \<open>Scheduling an unscheduled non-empty group puts it last; otherwise nothing changes.\<close>

definition sched_tail :: "'a lhead \<Rightarrow> 'g \<Rightarrow> ('a, 'g) scheds \<Rightarrow> ('a, 'g) scheds" where
  "sched_tail h g Q = Q(h := map_option (\<lambda>S. S @ [g]) (Q h))"

definition sched_head :: "'a lhead \<Rightarrow> 'g \<Rightarrow> ('a, 'g) scheds \<Rightarrow> ('a, 'g) scheds" where
  "sched_head h g Q = Q(h := map_option (\<lambda>S. g # S) (Q h))"

definition set_sched :: "'a lhead \<Rightarrow> 'g list \<Rightarrow> ('a, 'g) scheds \<Rightarrow> ('a, 'g) scheds" where
  "set_sched h S Q = Q(h \<mapsto> S)"

text \<open>The end of a dispatch: the groups that asked to be rescheduled are put last.\<close>

definition splice_resched :: "'a \<Rightarrow> ('a, 'g) scheds \<Rightarrow> ('a, 'g) scheds" where
  "splice_resched a Q = Q(ArbList a := map_option (\<lambda>S. S @ the (Q (ReschedList a))) (Q (ArbList a)),
     ReschedList a := None)"

lemma set_sched_apply [simp]: "set_sched h S Q h' = (if h' = h then Some S else Q h')"
  by (simp add: set_sched_def)

definition unsched :: "'g \<Rightarrow> ('a, 'g) scheds \<Rightarrow> ('a, 'g) scheds" where
  "unsched g Q = (\<lambda>h. map_option (removeAll g) (Q h))"

lemma sched_None [simp]:
  "sched_tail h g Q h' = None \<longleftrightarrow> Q h' = None" "sched_head h g Q h' = None \<longleftrightarrow> Q h' = None"
  "unsched g Q h' = None \<longleftrightarrow> Q h' = None"
  by (simp_all add: sched_tail_def sched_head_def unsched_def)

fun lhead_arb :: "'a lhead \<Rightarrow> 'a" where
  "lhead_arb (ArbList a) = a"
| "lhead_arb (ReschedList a) = a"

lemma arbs_ok_def2: "arbs_ok ga Q \<longleftrightarrow> (\<forall>h S. Q h = Some S \<longrightarrow> (\<forall>g \<in> set S. ga g = Some (lhead_arb h)))"
  unfolding arbs_ok_def on_arb_def
proof (intro iffI allI impI ballI)
  fix h S g
  assume "\<forall>b g. (\<exists>S. (Q (ArbList b) = Some S \<or> Q (ReschedList b) = Some S) \<and> g \<in> set S) \<longrightarrow> ga g = Some b"
    "Q h = Some S" "g \<in> set S"
  then show "ga g = Some (lhead_arb h)" by (cases h) auto
qed fastforce

lemma arbs_ok_sched_tail:
  "arbs_ok ga Q \<Longrightarrow> ga g = Some (lhead_arb h) \<Longrightarrow> arbs_ok ga (sched_tail h g Q)"
  unfolding arbs_ok_def2 sched_tail_def by (auto split: if_splits)

lemma arbs_ok_sched_head:
  "arbs_ok ga Q \<Longrightarrow> ga g = Some (lhead_arb h) \<Longrightarrow> arbs_ok ga (sched_head h g Q)"
  unfolding arbs_ok_def2 sched_head_def by (auto split: if_splits)

lemma arbs_ok_unsched: "arbs_ok ga Q \<Longrightarrow> arbs_ok (ga(g := v)) (unsched g Q)"
  unfolding arbs_ok_def2 unsched_def by auto

lemma arbs_ok_unsched': "arbs_ok ga Q \<Longrightarrow> arbs_ok ga (unsched g Q)"
  unfolding arbs_ok_def2 unsched_def by auto

lemma arbs_ok_set: "arbs_ok ga Q \<Longrightarrow> \<not> scheduled Q g \<Longrightarrow> arbs_ok (ga(g := v)) Q"
  unfolding arbs_ok_def2 scheduled_def by auto

lemma arbs_ok_splice:
  assumes "arbs_ok ga Q" "Q (ArbList a) = Some S1" "Q (ReschedList a) = Some S2"
  shows "arbs_ok ga (splice_resched a Q)"
proof -
  have ok: "Q h = Some S \<Longrightarrow> g \<in> set S \<Longrightarrow> ga g = Some (lhead_arb h)" for h S g
    using assms(1) by (auto simp: arbs_ok_def2)
  show ?thesis
    unfolding arbs_ok_def2 splice_resched_def
    using ok [OF assms(2)] ok [OF assms(3)] ok assms(2,3) by (auto split: if_splits)
qed

text \<open>All lists belong to one arbiter.\<close>

definition only_arb :: "'a \<Rightarrow> ('a, 'g) scheds \<Rightarrow> bool" where
  "only_arb a Q \<longleftrightarrow> (\<forall>h. Q h \<noteq> None \<longrightarrow> lhead_arb h = a)"

lemma only_arb_simps [simp]:
  "only_arb a (unsched g Q) = only_arb a Q"
  "only_arb a (sched_tail h g Q) = only_arb a Q"
  "only_arb a (sched_head h g Q) = only_arb a Q"
  "lhead_arb h = a \<Longrightarrow> only_arb a Q \<Longrightarrow> only_arb a (set_sched h S Q)"
  "only_arb a Q \<Longrightarrow> only_arb a (splice_resched a Q)"
  by (auto simp: only_arb_def splice_resched_def split: if_splits)

lemma unsched_split:
  assumes "links_ok l R Q" "Q h = Some (S1 @ g # S2)"
  shows "unsched g Q = Q(h \<mapsto> S1 @ S2)"
proof
  fix h'
  have "distinct (head_links R (S1 @ g # S2))"
    using links_okD(1) [OF assms] by (simp add: is_list_def)
  then have g: "g \<notin> set S1" "g \<notin> set S2" by (auto simp: head_links_def)
  show "unsched g Q h' = (Q(h \<mapsto> S1 @ S2)) h'"
  proof (cases "h' = h")
    case True
    then show ?thesis using assms(2) g by (simp add: unsched_def)
  next
    case False
    then show ?thesis using links_okD(3) [OF assms, of h'] by (cases "Q h'") (auto simp: unsched_def)
  qed
qed

lemma unsched_id: "\<not> scheduled Q g \<Longrightarrow> unsched g Q = Q"
proof
  fix h
  assume "\<not> scheduled Q g"
  then show "unsched g Q h = Q h" by (cases "Q h") (auto simp: unsched_def scheduled_def)
qed

lemma unsched_not_scheduled: "\<not> scheduled (unsched g Q) g"
  by (auto simp: scheduled_def unsched_def)

lemma scheduledE:
  assumes "scheduled Q g"
  obtains h S1 S2 where "Q h = Some (S1 @ g # S2)"
  using assms unfolding scheduled_def by (metis split_list)

text \<open>Taking a scheduled head off its list, as dispatch and deschedule do.\<close>

lemma remove_and_reset_correct:
  assumes ok: "links_ok (alinks st) R Q" "rings_disjoint R" "R g \<noteq> []"
  shows "\<exists>l'. ucs_arbiter_remove_and_reset_if_scheduled (hd (R g)) st = Some (st\<lparr>alinks := l'\<rparr>) \<and>
    links_ok l' R (unsched g Q) \<and> marks_but (hd (R g)) (alinks st) l'"
proof (cases "scheduled Q g")
  case True
  then obtain h S1 S2 where h: "Q h = Some (S1 @ g # S2)" by (rule scheduledE)
  obtain l' where l': "ucs_list_del (EList (hd (R g))) (alinks st) = Some l'"
    "links_ok (set_next (EList (hd (R g))) None l') R (Q(h \<mapsto> S1 @ S2))"
    "marks_but (hd (R g)) (alinks st) (set_next (EList (hd (R g))) None l')"
    using links_del [OF ok(1,2) h] by blast
  show ?thesis
    using True l' links_okD(4) [OF ok(1,3)] unsched_split [OF ok(1) h]
    by (auto simp: ucs_arbiter_remove_and_reset_if_scheduled_def ucs_arbiter_group_head_is_scheduled_def
        on_links_def ucs_arbiter_group_head_reset_def)
next
  case False
  then show ?thesis
    using ok unsched_id [OF False] links_okD(4) [OF ok(1,3)]
    by (intro exI [of _ "alinks st"])
      (simp add: ucs_arbiter_remove_and_reset_if_scheduled_def ucs_arbiter_group_head_is_scheduled_def
        marks_but_def)
qed

lemma schedule_correct:
  assumes rep: "arb_rep st R Q" and a: "Q (ArbList a) \<noteq> None" and on: "scheduled Q g \<Longrightarrow> on_arb Q a g"
  shows "\<exists>st'. ucs_arbiter_group_schedule a g st = Some st' \<and>
    arb_rep st' R (if R g = [] \<or> scheduled Q g then Q else sched_tail (ArbList a) g Q) \<and>
    gguard st' = gguard st \<and> garbiter st' = (if R g = [] then garbiter st else (garbiter st)(g \<mapsto> a)) \<and>
    (R g \<noteq> [] \<longrightarrow> marks_but (hd (R g)) (alinks st) (alinks st')) \<and> (R g = [] \<longrightarrow> alinks st' = alinks st)"
proof (cases "R g = []")
  case True
  then show ?thesis using rep elems_okD(1) [of st R g]
    by (simp add: ucs_arbiter_group_schedule_def ucs_arbiter_group_is_empty_def arb_rep_def)
next
  case False
  have ok: "elems_ok st R" "links_ok (alinks st) R Q" "arbs_ok (garbiter st) Q" "rings_disjoint R"
    using rep elems_okD(2) by (auto simp: arb_rep_def)
  note hd = rings_head [OF ok(1) False]
  note def = ucs_arbiter_group_schedule_def ucs_arbiter_group_is_empty_def
    ucs_arbiter_group_schedule_nonempty_def ucs_arbiter_schedule_head_if_not_scheduled_def
  show ?thesis
  proof (cases "scheduled Q g")
    case True
    then have "(garbiter st)(g \<mapsto> a) = garbiter st"
      using on ok(3) by (simp add: arbs_ok_def fun_upd_idem)
    then show ?thesis using True False hd head_scheduled [OF rep False] ok
      by (simp add: def arb_rep_def marks_but_def)
  next
    case ns: False
    obtain S where S: "Q (ArbList a) = Some S" using a by blast
    obtain l' where l': "ucs_list_add_tail (LHead (ArbList a)) (EList (hd (R g))) (alinks st) = Some l'"
      "links_ok l' R (Q(ArbList a \<mapsto> S @ [g]))" "marks_but (hd (R g)) (alinks st) l'"
      using links_add_tail [OF ok(2,4) False ns S] by blast
    have "arbs_ok ((garbiter st)(g \<mapsto> a)) (sched_tail (ArbList a) g Q)"
      using arbs_ok_set [OF ok(3) ns] by (intro arbs_ok_sched_tail) simp_all
    moreover have "Q(ArbList a \<mapsto> S @ [g]) = sched_tail (ArbList a) g Q" using S by (simp add: sched_tail_def)
    ultimately show ?thesis
      using ns False hd head_scheduled [OF rep False] ok(1) l'
      by (simp add: def arb_rep_def on_links_def)
  qed
qed

lemma desched_correct:
  assumes rep: "arb_rep st R Q" and on: "scheduled Q g \<Longrightarrow> on_arb Q a g"
  shows "\<exists>st'. ucs_arbiter_group_desched a g st = Some st' \<and> arb_rep st' R (unsched g Q) \<and>
    gguard st' = gguard st"
proof (cases "R g = []")
  case True
  then have "\<not> scheduled Q g" using rep True unscheduled_empty [of "alinks st" R Q g] by (simp add: arb_rep_def)
  then show ?thesis using True rep elems_okD(1) [of st R g] unsched_id [of Q g]
    by (simp add: ucs_arbiter_group_desched_def ucs_arbiter_group_is_empty_def arb_rep_def)
next
  case False
  have ok: "elems_ok st R" "links_ok (alinks st) R Q" "arbs_ok (garbiter st) Q" "rings_disjoint R"
    using rep elems_okD(2) by (auto simp: arb_rep_def)
  note hd = rings_head [OF ok(1) False]
  note def = ucs_arbiter_group_desched_def ucs_arbiter_group_is_empty_def ucs_arbiter_group_desched_nonempty_def
  show ?thesis
  proof (cases "scheduled Q g")
    case True
    obtain l' where l': "ucs_arbiter_remove_and_reset_if_scheduled (hd (R g)) st = Some (st\<lparr>alinks := l'\<rparr>)"
      "links_ok l' R (unsched g Q)"
      using remove_and_reset_correct [OF ok(2,4) False] by blast
    have sch: "ucs_arbiter_group_head_is_scheduled (hd (R g)) st" using head_scheduled [OF rep False] True by simp
    have ga: "garbiter st g = Some a" using on [OF True] ok(3) by (simp add: arbs_ok_def)
    have "ucs_arbiter_group_desched a g st = Some ((set_garbiter g None st)\<lparr>alinks := l'\<rparr>)"
      using l'(1) sch hd ga
      by (auto simp: def ucs_arbiter_remove_and_reset_if_scheduled_def on_links_def
          ucs_arbiter_group_head_reset_def set_garbiter_def bind_eq_Some_conv)
    then show ?thesis
      using l'(2) ok arbs_ok_unsched [OF ok(3)]
      by (simp add: arb_rep_def)
  next
    case ns: False
    then show ?thesis using False hd head_scheduled [OF rep False] rep unsched_id [OF ns]
      by (simp add: def)
  qed
qed

section \<open>Replacing the head of a group\<close>

lemma replace_head_elems:
  assumes ok: "elems_ok st R" and R: "R g = h # t" and n: "\<And>g'. n \<notin> set (R g')"
    and st1: "enext st1 = enext st" "gtail st1 = gtail st" "egroup st1 n = Some g"
      "(\<exists>x. h = Elem x) \<Longrightarrow> egroup st1 h = None" "\<And>e. e \<noteq> h \<Longrightarrow> e \<noteq> n \<Longrightarrow> egroup st1 e = egroup st e"
  shows "\<exists>st'. ucs_arbiter_group_head_replace g h n st1 = Some st' \<and> elems_ok st' (R(g := n # t)) \<and>
    alinks st' = alinks st1 \<and> egroup st' = egroup st1 \<and> gguard st' = gguard st1 \<and> garbiter st' = garbiter st1"
proof -
  have ring: "ring st g (h # t)" using elems_okD(1) [OF ok, of g] R by simp
  then have "ring st1 g (h # t)" by (rule ring_cong) (simp_all add: st1)
  then obtain st' where st': "ucs_arbiter_group_head_replace g h n st1 = Some st'" "ring st' g (n # t)"
    "\<forall>e. e \<notin> set (n # t) \<longrightarrow> enext st' e = enext st1 e" "\<forall>g'. g' \<noteq> g \<longrightarrow> gtail st' g' = gtail st1 g'"
    "alinks st' = alinks st1" "egroup st' = egroup st1" "gguard st' = gguard st1" "garbiter st' = garbiter st1"
    using ring_replace_head [of st1 g h t n] n [of g] R by auto
  have dt: "h \<notin> set t" using ring_distinct [OF ring] by simp
  have "elems_ok st' (R(g := n # t))"
  proof (rule elems_ok_update [OF ok st'(2)])
    fix g' assume "g' \<noteq> g"
    then show "set (n # t) \<inter> set (R g') = {}"
      using n [of g'] elems_okD(2) [OF ok] R unfolding rings_disjoint_def by fastforce
  next
    fix e assume "e \<in> set (n # t)"
    then show "egroup st' e = Some g"
      using elems_okD(3) [OF ok, of e g] R dt st1(3) st1(5) [of e] st'(6) by (cases "e = n"; cases "e = h") auto
  next
    fix e assume "e \<in> set (R g)" "e \<notin> set (n # t)" "\<exists>x. e = Elem x"
    then show "egroup st' e = None" using R st1(4) st'(6) by auto
  qed (use st' st1 R in auto)
  with st' show ?thesis by blast
qed

lemma drop_head_elems:
  assumes ok: "elems_ok st R" and R: "R g = Dummy a # y # t"
  shows "elems_ok (set_enext (last (R g)) (Some y) st) (R(g := y # t))"
proof (rule elems_ok_update [OF ok])
  show "ring (set_enext (last (R g)) (Some y) st) g (y # t)"
    using ring_drop_head [of st g "Dummy a" y t] elems_okD(1) [OF ok, of g] R by simp
  fix g' assume "g' \<noteq> g"
  then show "set (y # t) \<inter> set (R g') = {}"
    using elems_okD(2) [OF ok] R unfolding rings_disjoint_def by fastforce
next
  fix e assume "e \<notin> set (R g) \<union> set (y # t)"
  then show "enext (set_enext (last (R g)) (Some y) st) e = enext st e"
    using R last_in_set [of "R g"] by auto
qed (use R elems_okD(3) [OF ok, of _ g] in auto)

lemma drop_last_elems:
  assumes ok: "elems_ok st R" and R: "R g = [Dummy a]"
  shows "elems_ok (set_gtail g None st) (R(g := []))"
  by (rule elems_ok_update [OF ok]) (use R in auto)

section \<open>Abstract dispatcher\<close>

text \<open>The queues of the groups, the schedules, and for each group the arbiter whose dispatch is
  running its callback.\<close>

record ('a, 'g, 'e) aarb =
  aq :: "'g \<Rightarrow> 'e list"
  asched :: "('a, 'g) scheds"
  acur :: "'g \<Rightarrow> 'a option"

type_synonym ('a, 'g, 'e, 'x) acallback =
  "'g \<Rightarrow> 'e \<Rightarrow> 'x \<times> ('a, 'g, 'e) aarb \<Rightarrow> ucs_arbiter_cb_result \<times> 'x \<times> ('a, 'g, 'e) aarb"

definition set_aq :: "'g \<Rightarrow> 'e list \<Rightarrow> ('a, 'g, 'e) aarb \<Rightarrow> ('a, 'g, 'e) aarb" where
  "set_aq g xs A = A\<lparr>aq := (aq A)(g := xs)\<rparr>"

definition set_acur :: "'g \<Rightarrow> 'a option \<Rightarrow> ('a, 'g, 'e) aarb \<Rightarrow> ('a, 'g, 'e) aarb" where
  "set_acur g v A = A\<lparr>acur := (acur A)(g := v)\<rparr>"

definition on_sched :: "(('a, 'g) scheds \<Rightarrow> ('a, 'g) scheds) \<Rightarrow> ('a, 'g, 'e) aarb \<Rightarrow> ('a, 'g, 'e) aarb" where
  "on_sched f A = A\<lparr>asched := f (asched A)\<rparr>"

lemma aarb_simps [simp]:
  "aq (set_aq g xs A) = (aq A)(g := xs)" "asched (set_aq g xs A) = asched A" "acur (set_aq g xs A) = acur A"
  "aq (set_acur g v A) = aq A" "asched (set_acur g v A) = asched A" "acur (set_acur g v A) = (acur A)(g := v)"
  "aq (on_sched f A) = aq A" "asched (on_sched f A) = f (asched A)" "acur (on_sched f A) = acur A"
  by (simp_all add: set_aq_def set_acur_def on_sched_def)

fun adispatch_group ::
  "nat \<Rightarrow> 'a \<Rightarrow> nat \<Rightarrow> ('a, 'g, 'e, 'x) acallback \<Rightarrow> 'g \<Rightarrow> nat \<Rightarrow> 'x \<times> ('a, 'g, 'e) aarb \<Rightarrow>
   (bool \<times> 'x \<times> ('a, 'g, 'e) aarb) option" where
  "adispatch_group 0 a per_group acb g cnt s = None"
| "adispatch_group (Suc fuel) a per_group acb g cnt (x, A) =
     (case aq A g of
        [] \<Rightarrow> None
      | e # t \<Rightarrow>
          if \<not> cnt < per_group then None
          else
            (case acb g e (x, set_acur g (Some a) (set_aq g t A)) of (r, x1, A1) \<Rightarrow>
             let A2 = set_acur g None A1;
                 A3 = set_aq g (e # aq A2 g) A2
             in case r of
                UCS_ARBITER_CB_RESULT_DESCHED_GROUP \<Rightarrow> Some (False, x1, A3)
              | UCS_ARBITER_CB_RESULT_NEXT_GROUP \<Rightarrow>
                  Some (False, x1, on_sched (sched_tail (ArbList a) g \<circ> unsched g) A3)
              | UCS_ARBITER_CB_RESULT_RESCHED_GROUP \<Rightarrow>
                  Some (False, x1, on_sched (sched_tail (ReschedList a) g \<circ> unsched g) A3)
              | UCS_ARBITER_CB_RESULT_STOP \<Rightarrow>
                  Some (True, x1, on_sched (sched_head (ArbList a) g \<circ> unsched g) A3)
              | UCS_ARBITER_CB_RESULT_REMOVE_ELEM \<Rightarrow>
                  if aq A2 g = [] then Some (False, x1, on_sched (unsched g) A2)
                  else if scheduled (asched A2) g then Some (False, x1, A2)
                  else if per_group \<le> Suc cnt then Some (False, x1, on_sched (sched_tail (ArbList a) g) A2)
                  else adispatch_group fuel a per_group acb g (Suc cnt) (x1, A2)))"

fun adispatch_loop ::
  "nat \<Rightarrow> 'a \<Rightarrow> nat \<Rightarrow> ('a, 'g, 'e, 'x) acallback \<Rightarrow> 'x \<times> ('a, 'g, 'e) aarb \<Rightarrow> ('x \<times> ('a, 'g, 'e) aarb) option" where
  "adispatch_loop 0 a per_group acb s = None"
| "adispatch_loop (Suc fuel) a per_group acb (x, A) =
     (case asched A (ArbList a) of
        Some (g # S) \<Rightarrow>
          (case adispatch_group (Suc fuel) a per_group acb g 0
                  (x, on_sched (set_sched (ArbList a) S) A) of
             None \<Rightarrow> None
           | Some (stop, x1, A1) \<Rightarrow>
               if stop \<or> asched A1 (ArbList a) = Some [] then Some (x1, A1)
               else adispatch_loop fuel a per_group acb (x1, A1))
      | _ \<Rightarrow> None)"

definition adispatch ::
  "nat \<Rightarrow> 'a \<Rightarrow> nat \<Rightarrow> ('a, 'g, 'e, 'x) acallback \<Rightarrow> 'x \<times> ('a, 'g, 'e) aarb \<Rightarrow> ('x \<times> ('a, 'g, 'e) aarb) option" where
  "adispatch fuel a per_group acb s =
     (case s of (x, A) \<Rightarrow>
      if asched A (ArbList a) = Some [] then Some (x, A)
      else map_option (\<lambda>(x1, A1). (x1, on_sched (splice_resched a) A1))
             (adispatch_loop fuel a per_group acb (x, on_sched (set_sched (ReschedList a) []) A)))"

definition rings_of :: "('a, 'g, 'e) aarb \<Rightarrow> ('a, 'g, 'e) rings" where
  "rings_of A = (\<lambda>g. (case acur A g of None \<Rightarrow> [] | Some a \<Rightarrow> [Dummy a]) @ map Elem (aq A g))"

definition arep :: "('a, 'g, 'e) arb \<Rightarrow> ('a, 'g, 'e) aarb \<Rightarrow> bool" where
  "arep st A \<longleftrightarrow> arb_rep st (rings_of A) (asched A) \<and>
     (\<forall>g. gguard st g = (if acur A g = None then 0 else 1))"

lemma rings_of_on_sched [simp]: "rings_of (on_sched f A) = rings_of A"
  by (simp add: rings_of_def)

lemma rings_of_set_aq: "rings_of (set_aq g xs A) =
    (rings_of A)(g := (case acur A g of None \<Rightarrow> [] | Some a \<Rightarrow> [Dummy a]) @ map Elem xs)"
  by (auto simp: rings_of_def fun_eq_iff)

lemma rings_of_set_acur: "rings_of (set_acur g v A) =
    (rings_of A)(g := (case v of None \<Rightarrow> [] | Some a \<Rightarrow> [Dummy a]) @ map Elem (aq A g))"
  by (auto simp: rings_of_def fun_eq_iff)

lemma Elem_in_rings_of [simp]: "Elem e \<in> set (rings_of A g) \<longleftrightarrow> e \<in> set (aq A g)"
  by (auto simp: rings_of_def split: option.splits)

lemma Dummy_in_rings_of [simp]: "Dummy a \<in> set (rings_of A g) \<longleftrightarrow> acur A g = Some a"
  by (auto simp: rings_of_def split: option.splits)

section \<open>One callback, and what follows it\<close>

text \<open>The state in which the inner loop runs: group \<open>g\<close> has been taken off the arbiter and its
  head is about to be dispatched.\<close>

definition ready :: "'a \<Rightarrow> 'g \<Rightarrow> ('a, 'g, 'e) arb \<Rightarrow> ('a, 'g, 'e) aarb \<Rightarrow> bool" where
  "ready a g st A \<longleftrightarrow> arep st A \<and> acur A = (\<lambda>_. None) \<and>
     lnext (alinks st) (EList (Dummy a)) = None \<and> egroup st (Dummy a) = Some g \<and>
     garbiter st g = Some a \<and> \<not> scheduled (asched A) g \<and>
     asched A (ArbList a) \<noteq> None \<and> asched A (ReschedList a) \<noteq> None \<and> only_arb a (asched A)"

lemma elems_ok_dummy:
  assumes "\<And>g. Dummy a \<notin> set (R g)"
  shows "elems_ok (set_egroup (Dummy a) v st) R = elems_ok st R"
proof -
  have ec: "echain (set_egroup (Dummy a) v st) x xs y = echain st x xs y" for x xs y
    by (induction xs arbitrary: x) simp_all
  have "ring (set_egroup (Dummy a) v st) g xs = ring st g xs" for g xs by (cases xs) (simp_all add: ec)
  moreover have "(\<forall>e\<in>set (R g). egroup (set_egroup (Dummy a) v st) e = Some g) = (\<forall>e\<in>set (R g). egroup st e = Some g)" for g
    using assms by (intro ball_cong refl) auto
  ultimately show ?thesis by (simp add: elems_ok_def del: arb_upd_simps(8)) simp
qed

text \<open>Between two groups: no callback is running.\<close>

definition idle :: "'a \<Rightarrow> ('a, 'g, 'e) arb \<Rightarrow> ('a, 'g, 'e) aarb \<Rightarrow> bool" where
  "idle a st A \<longleftrightarrow> arep st A \<and> acur A = (\<lambda>_. None) \<and>
     lnext (alinks st) (EList (Dummy a)) = None \<and>
     asched A (ArbList a) \<noteq> None \<and> asched A (ReschedList a) \<noteq> None \<and> only_arb a (asched A)"

text \<open>After the callback, with the guard released.\<close>

definition called :: "'a \<Rightarrow> 'g \<Rightarrow> ('a, 'g, 'e) arb \<Rightarrow> ('a, 'g, 'e) aarb \<Rightarrow> bool" where
  "called a g st A \<longleftrightarrow> arb_rep st (rings_of A) (asched A) \<and> acur A = (\<lambda>_. None)(g := Some a) \<and>
     (\<forall>g'. gguard st g' = (if acur A g' = None \<or> g' = g then 0 else 1)) \<and> garbiter st g = Some a \<and>
     asched A (ArbList a) \<noteq> None \<and> asched A (ReschedList a) \<noteq> None \<and> only_arb a (asched A)"

lemma ready_take_head:
  assumes r: "ready a g st A" and q: "aq A g = e # t"
  defines "A' \<equiv> set_acur g (Some a) (set_aq g t A)"
  shows "egroup st (Elem e) = Some g" and "\<not> ucs_arbiter_group_head_is_scheduled (Elem e) st"
    and "\<exists>st'. ucs_arbiter_group_head_replace g (Elem e) (Dummy a) (ucs_arbiter_elem_init (Elem e) st) = Some st' \<and>
      arep (set_gguard g (gguard st' g + 1) st') A' \<and> alinks st' = alinks st \<and> garbiter st' = garbiter st"
proof -
  have rep: "elems_ok st (rings_of A)" "links_ok (alinks st) (rings_of A) (asched A)" "arbs_ok (garbiter st) (asched A)"
    and ga: "\<And>g. gguard st g = (if acur A g = None then 0 else 1)" and cur: "acur A g = None" "\<And>g'. acur A g' \<noteq> Some a"
    and ns: "\<not> scheduled (asched A) g" and dm: "lnext (alinks st) (EList (Dummy a)) = None" "egroup st (Dummy a) = Some g"
    using r unfolding ready_def arep_def arb_rep_def by auto
  have R: "rings_of A g = Elem e # map Elem t" using cur q by (simp add: rings_of_def)
  show "egroup st (Elem e) = Some g" using elems_okD(3) [OF rep(1), of "Elem e" g] R by simp
  show "\<not> ucs_arbiter_group_head_is_scheduled (Elem e) st"
    using links_okD(4) [OF rep(2), of g] ns R by (simp add: ucs_arbiter_group_head_is_scheduled_def)
  have R': "rings_of A' = (rings_of A)(g := Dummy a # map Elem t)"
    by (simp add: A'_def rings_of_set_acur rings_of_set_aq)
  obtain st' where st': "ucs_arbiter_group_head_replace g (Elem e) (Dummy a) (ucs_arbiter_elem_init (Elem e) st) = Some st'"
    "elems_ok st' (rings_of A')" "alinks st' = alinks st" "gguard st' = gguard st" "garbiter st' = garbiter st"
    using replace_head_elems [OF rep(1) R, of "Dummy a" "ucs_arbiter_elem_init (Elem e) st"] cur(2) dm(2)
    by (auto simp: R' ucs_arbiter_elem_init_def)
  have "links_ok (alinks st) (rings_of A') (asched A')"
    unfolding R' using links_ring_unscheduled [OF rep(2) ns, of "Dummy a # map Elem t"] dm(1) by (simp add: A'_def)
  then have "arep (set_gguard g (gguard st' g + 1) st') A'"
    using st' rep ga cur
    by (auto simp: arep_def arb_rep_def A'_def)
  with st' show "\<exists>st'. ucs_arbiter_group_head_replace g (Elem e) (Dummy a) (ucs_arbiter_elem_init (Elem e) st) = Some st' \<and>
      arep (set_gguard g (gguard st' g + 1) st') A' \<and> alinks st' = alinks st \<and> garbiter st' = garbiter st"
    by blast
qed

lemma calledD:
  assumes "called a g st A"
  shows "elems_ok st (rings_of A)" "links_ok (alinks st) (rings_of A) (asched A)"
    "arbs_ok (garbiter st) (asched A)" "rings_disjoint (rings_of A)"
    "rings_of A g = Dummy a # map Elem (aq A g)" "acur A g' = Some a \<Longrightarrow> g' = g"
    "gtail st g = Some (last (rings_of A g))" "enext st (last (rings_of A g)) = Some (Dummy a)"
    "ucs_arbiter_group_head_is_scheduled (Dummy a) st \<longleftrightarrow> scheduled (asched A) g"
proof -
  show ok: "elems_ok st (rings_of A)" and lk: "links_ok (alinks st) (rings_of A) (asched A)"
    and "arbs_ok (garbiter st) (asched A)"
    using assms by (auto simp: called_def arb_rep_def)
  show dis: "rings_disjoint (rings_of A)" using elems_okD(2) [OF ok] .
  show R: "rings_of A g = Dummy a # map Elem (aq A g)" using assms by (simp add: called_def rings_of_def)
  show "g' = g" if "acur A g' = Some a"
  proof (rule ccontr)
    assume "g' \<noteq> g"
    then have "set (rings_of A g') \<inter> set (rings_of A g) = {}" using dis by (simp add: rings_disjoint_def)
    moreover have "Dummy a \<in> set (rings_of A g')" using that by simp
    ultimately show False using R by auto
  qed
  show "gtail st g = Some (last (rings_of A g))" "enext st (last (rings_of A g)) = Some (Dummy a)"
    using rings_head [OF ok, of g] R by simp_all
  show "ucs_arbiter_group_head_is_scheduled (Dummy a) st \<longleftrightarrow> scheduled (asched A) g"
    using links_okD(4) [OF lk, of g] R by (simp add: ucs_arbiter_group_head_is_scheduled_def)
qed

text \<open>The element goes back to the head of its group, and the dummy leaves the ring.\<close>

lemma called_put_back:
  assumes c: "called a g st A" and e: "\<And>g'. e \<notin> set (aq A g')"
  defines "A' \<equiv> set_aq g (e # aq A g) (set_acur g None A)"
  shows "\<exists>st'. ucs_arbiter_group_head_replace g (Dummy a) (Elem e) (ucs_arbiter_elem_set_scheduled (Elem e) g st) = Some st' \<and>
      elems_ok st' (rings_of A') \<and> alinks st' = alinks st \<and> garbiter st' = garbiter st \<and> gguard st' = gguard st \<and>
      egroup st' (Dummy a) = Some g"
    and "rings_of A' = (rings_of A)(g := Elem e # map Elem (aq A g))"
proof -
  show R': "rings_of A' = (rings_of A)(g := Elem e # map Elem (aq A g))"
    by (simp add: A'_def rings_of_set_acur rings_of_set_aq)
  note cd = calledD [OF c]
  have "egroup st (Dummy a) = Some g" using elems_okD(3) [OF cd(1), of "Dummy a" g] cd(5) by simp
  then show "\<exists>st'. ucs_arbiter_group_head_replace g (Dummy a) (Elem e) (ucs_arbiter_elem_set_scheduled (Elem e) g st) = Some st' \<and>
      elems_ok st' (rings_of A') \<and> alinks st' = alinks st \<and> garbiter st' = garbiter st \<and> gguard st' = gguard st \<and>
      egroup st' (Dummy a) = Some g"
    using replace_head_elems [OF cd(1,5), of "Elem e" "ucs_arbiter_elem_set_scheduled (Elem e) g st"] e
    by (auto simp: R' ucs_arbiter_elem_set_scheduled_def)
qed

lemma dispatch_no_dummy: "called a g st A \<Longrightarrow> acur (set_acur g None A) = (\<lambda>_. None)"
  by (simp add: called_def)

lemma guard_released:
  "called a g st A \<Longrightarrow> gguard st g' = (if acur (set_acur g None A) g' = None then 0 else 1)"
  by (auto simp: called_def)

lemma idleI:
  assumes "elems_ok st (rings_of A)" "links_ok (alinks st) (rings_of A) (asched A)" "arbs_ok (garbiter st) (asched A)"
    "\<And>g. gguard st g = (if acur A g = None then 0 else 1)" "acur A = (\<lambda>_. None)"
    "lnext (alinks st) (EList (Dummy a)) = None" "asched A (ArbList a) \<noteq> None" "asched A (ReschedList a) \<noteq> None"
    "only_arb a (asched A)"
  shows "idle a st A"
  using assms by (simp add: idle_def arep_def arb_rep_def)

lemma keep_desched:
  assumes c: "called a g st A" and e: "\<And>g'. e \<notin> set (aq A g')" "lnext (alinks st) (EList (Elem e)) = None"
  defines "A' \<equiv> set_aq g (e # aq A g) (set_acur g None A)"
  assumes st': "elems_ok st' (rings_of A')" "alinks st' = alinks st" "garbiter st' = garbiter st"
    "gguard st' = gguard st" "egroup st' (Dummy a) = Some g"
  shows "scheduled (asched A) g \<Longrightarrow>
      \<exists>l. on_links (ucs_list_replace (EList (Dummy a)) (EList (Elem e))) st' = Some (st'\<lparr>alinks := l\<rparr>) \<and>
        idle a (ucs_arbiter_group_head_reset (Dummy a) (st'\<lparr>alinks := l\<rparr>)) A'"
    and "\<not> scheduled (asched A) g \<Longrightarrow> idle a (set_garbiter g None st') A'"
proof -
  note cd = calledD [OF c]
  have R': "rings_of A' = (rings_of A)(g := Elem e # map Elem (aq A g))"
    using called_put_back(2) [OF c e(1)] by (simp add: A'_def)
  have hd: "hd (rings_of A g) = Dummy a" using cd(5) by simp
  have fin: "\<And>g. gguard st g = (if acur A' g = None then 0 else 1)" "acur A' = (\<lambda>_. None)"
    "asched A' = asched A" "asched A (ArbList a) \<noteq> None" "asched A (ReschedList a) \<noteq> None" "only_arb a (asched A)"
    using guard_released [OF c] dispatch_no_dummy [OF c] c by (simp_all add: A'_def called_def)
  { assume "scheduled (asched A) g"
    then obtain h S1 S2 where h: "asched A h = Some (S1 @ g # S2)" by (rule scheduledE)
    obtain l where l: "ucs_list_replace (EList (Dummy a)) (EList (Elem e)) (alinks st) = Some l"
      "links_ok l (rings_of A') (asched A)"
      using links_replace [OF cd(2,4) _ h, of "Elem e # map Elem (aq A g)"] elems_okD(2) [OF st'(1)] hd
      by (auto simp: R')
    have "links_ok (set_next (EList (Dummy a)) None l) (rings_of A') (asched A)"
    proof (rule links_reset [OF l(2)])
      fix g' assume "scheduled (asched A) g'"
      then show "hd (rings_of A' g') \<noteq> Dummy a"
        by (rule unqueued_not_head [OF l(2)]) (use fin(2) in simp)
    qed
    then have "idle a (ucs_arbiter_group_head_reset (Dummy a) (st'\<lparr>alinks := l\<rparr>)) A'"
      using st' fin cd(3) by (intro idleI) (simp_all add: ucs_arbiter_group_head_reset_def)
    then show "\<exists>l. on_links (ucs_list_replace (EList (Dummy a)) (EList (Elem e))) st' = Some (st'\<lparr>alinks := l\<rparr>) \<and>
        idle a (ucs_arbiter_group_head_reset (Dummy a) (st'\<lparr>alinks := l\<rparr>)) A'"
      using l(1) st'(2) by (auto simp: on_links_def) }
  { assume ns: "\<not> scheduled (asched A) g"
    have "links_ok (alinks st) (rings_of A') (asched A)"
      unfolding R' using links_ring_unscheduled [OF cd(2) ns, of "Elem e # map Elem (aq A g)"] e(2) by simp
    moreover have "lnext (alinks st) (EList (Dummy a)) = None"
      using cd(9) ns by (simp add: ucs_arbiter_group_head_is_scheduled_def)
    moreover have "elems_ok (set_garbiter g None st') (rings_of A')" using st'(1) by simp
    ultimately show "idle a (set_garbiter g None st') A'"
      using st' fin arbs_ok_set [OF cd(3) ns] by (intro idleI) simp_all }
qed

lemma keep_unsched:
  assumes c: "called a g st A" and e: "\<And>g'. e \<notin> set (aq A g')" "lnext (alinks st) (EList (Elem e)) = None"
  defines "A' \<equiv> set_aq g (e # aq A g) (set_acur g None A)"
  assumes st': "elems_ok st' (rings_of A')" "alinks st' = alinks st" "garbiter st' = garbiter st"
    "gguard st' = gguard st"
  shows "\<exists>l. ucs_arbiter_remove_and_reset_if_scheduled (Dummy a) st' = Some (st'\<lparr>alinks := l\<rparr>) \<and>
    idle a (st'\<lparr>alinks := l\<rparr>) (on_sched (unsched g) A')"
proof -
  note cd = calledD [OF c]
  have R': "rings_of A' = (rings_of A)(g := Elem e # map Elem (aq A g))"
    using called_put_back(2) [OF c e(1)] by (simp add: A'_def)
  have hd: "hd (rings_of A g) = Dummy a" "rings_of A g \<noteq> []" using cd(5) by simp_all
  obtain l where l: "ucs_arbiter_remove_and_reset_if_scheduled (Dummy a) st' = Some (st'\<lparr>alinks := l\<rparr>)"
    "links_ok l (rings_of A) (unsched g (asched A))" "marks_but (Dummy a) (alinks st) l"
    using remove_and_reset_correct [of st' "rings_of A" "asched A" g] cd(2,4) hd st'(2) by auto
  have "lnext l (EList (Elem e)) = None" using l(3) e(2) by (simp add: marks_but_def)
  then have "links_ok l (rings_of A') (unsched g (asched A))"
    unfolding R' using links_ring_unscheduled [OF l(2) unsched_not_scheduled, of "Elem e # map Elem (aq A g)"] by simp
  moreover have "lnext l (EList (Dummy a)) = None"
    using links_okD(4) [OF l(2) hd(2)] hd(1) unsched_not_scheduled [of g "asched A"] by simp
  ultimately have "idle a (st'\<lparr>alinks := l\<rparr>) (on_sched (unsched g) A')"
    using st' guard_released [OF c] dispatch_no_dummy [OF c] arbs_ok_unsched' [OF cd(3)] c
    by (intro idleI) (simp_all add: A'_def called_def)
  with l(1) show ?thesis by blast
qed

text \<open>Putting the group on a list again.\<close>

lemma idle_schedule:
  assumes i: "idle a st A" and g: "aq A g \<noteq> []" "acur A g = None" "\<not> scheduled (asched A) g" "garbiter st g = Some a"
    and h: "lhead_arb h = a"
  shows "\<exists>l. on_links (ucs_list_add_tail (LHead h) (EList (Elem (hd (aq A g))))) st = Some (st\<lparr>alinks := l\<rparr>) \<and>
      idle a (st\<lparr>alinks := l\<rparr>) (on_sched (sched_tail h g) A)"
    and "\<exists>l. on_links (ucs_list_add_head (LHead h) (EList (Elem (hd (aq A g))))) st = Some (st\<lparr>alinks := l\<rparr>) \<and>
      idle a (st\<lparr>alinks := l\<rparr>) (on_sched (sched_head h g) A)"
proof -
  have rep: "elems_ok st (rings_of A)" "links_ok (alinks st) (rings_of A) (asched A)" "arbs_ok (garbiter st) (asched A)"
    "\<And>g. gguard st g = (if acur A g = None then 0 else 1)" "acur A = (\<lambda>_. None)"
    "lnext (alinks st) (EList (Dummy a)) = None"  "asched A (ArbList a) \<noteq> None" "asched A (ReschedList a) \<noteq> None" "only_arb a (asched A)"
    using i unfolding idle_def arep_def arb_rep_def by auto
  have R: "rings_of A g = map Elem (aq A g)" using g by (simp add: rings_of_def)
  then have ne: "rings_of A g \<noteq> []" and hd: "hd (rings_of A g) = Elem (hd (aq A g))" using g by (simp_all add: hd_map)
  obtain S where S: "asched A h = Some S" using rep(7,8) h by (cases h) auto
  obtain l where l: "ucs_list_add_tail (LHead h) (EList (Elem (hd (aq A g)))) (alinks st) = Some l"
    "links_ok l (rings_of A) (sched_tail h g (asched A))" "marks_but (Elem (hd (aq A g))) (alinks st) l"
    using links_add_tail [OF rep(2) elems_okD(2) [OF rep(1)] ne g(3) S] S hd by (auto simp: sched_tail_def)
  have "idle a (st\<lparr>alinks := l\<rparr>) (on_sched (sched_tail h g) A)"
    using l rep arbs_ok_sched_tail [OF rep(3), of g h] g(4) h
    by (intro idleI) (simp_all add: marks_but_def)
  then show "\<exists>l. on_links (ucs_list_add_tail (LHead h) (EList (Elem (hd (aq A g))))) st = Some (st\<lparr>alinks := l\<rparr>) \<and>
      idle a (st\<lparr>alinks := l\<rparr>) (on_sched (sched_tail h g) A)"
    using l(1) by (auto simp: on_links_def)
  obtain l where l: "ucs_list_add_head (LHead h) (EList (Elem (hd (aq A g)))) (alinks st) = Some l"
    "links_ok l (rings_of A) (sched_head h g (asched A))" "marks_but (Elem (hd (aq A g))) (alinks st) l"
    using links_add_head [OF rep(2) elems_okD(2) [OF rep(1)] ne g(3) S] S hd by (auto simp: sched_head_def)
  have "idle a (st\<lparr>alinks := l\<rparr>) (on_sched (sched_head h g) A)"
    using l rep arbs_ok_sched_head [OF rep(3), of g h] g(4) h
    by (intro idleI) (simp_all add: marks_but_def)
  then show "\<exists>l. on_links (ucs_list_add_head (LHead h) (EList (Elem (hd (aq A g))))) st = Some (st\<lparr>alinks := l\<rparr>) \<and>
      idle a (st\<lparr>alinks := l\<rparr>) (on_sched (sched_head h g) A)"
    using l(1) by (auto simp: on_links_def)
qed

lemma removed_last:
  assumes c: "called a g st A" and q: "aq A g = []"
  defines "A' \<equiv> set_acur g None A"
  shows "enext st (Dummy a) = Some (Dummy a)"
    and "\<exists>l. ucs_arbiter_remove_and_reset_if_scheduled (Dummy a) (set_gtail g None st) = Some ((set_gtail g None st)\<lparr>alinks := l\<rparr>) \<and>
      idle a (set_garbiter g None ((set_gtail g None st)\<lparr>alinks := l\<rparr>)) (on_sched (unsched g) A')"
proof -
  note cd = calledD [OF c]
  have R: "rings_of A g = [Dummy a]" using cd(5) q by simp
  show "enext st (Dummy a) = Some (Dummy a)" using cd(8) R by simp
  have R': "rings_of A' = (rings_of A)(g := [])" using q by (simp add: A'_def rings_of_set_acur)
  have hd: "hd (rings_of A g) = Dummy a" "rings_of A g \<noteq> []" using R by simp_all
  let ?st = "set_gtail g None st"
  have el: "elems_ok ?st (rings_of A')" using drop_last_elems [OF cd(1) R] by (simp add: R')
  obtain l where l: "ucs_arbiter_remove_and_reset_if_scheduled (Dummy a) ?st = Some (?st\<lparr>alinks := l\<rparr>)"
    "links_ok l (rings_of A) (unsched g (asched A))"
    using remove_and_reset_correct [of ?st "rings_of A" "asched A" g] cd(2,4) hd by auto
  have "links_ok l (rings_of A') (unsched g (asched A))"
    unfolding R' using links_ring_unscheduled [OF l(2) unsched_not_scheduled, of "[]"] by simp
  moreover have "lnext l (EList (Dummy a)) = None"
    using links_okD(4) [OF l(2) hd(2)] hd(1) unsched_not_scheduled [of g "asched A"] by simp
  moreover have "elems_ok (set_garbiter g None (?st\<lparr>alinks := l\<rparr>)) (rings_of A')"
    using el by simp
  ultimately have "idle a (set_garbiter g None (?st\<lparr>alinks := l\<rparr>)) (on_sched (unsched g) A')"
    using guard_released [OF c] dispatch_no_dummy [OF c] arbs_ok_unsched [OF cd(3)] c
    by (intro idleI) (simp_all add: A'_def called_def)
  with l(1) show "\<exists>l. ucs_arbiter_remove_and_reset_if_scheduled (Dummy a) (set_gtail g None st) = Some ((set_gtail g None st)\<lparr>alinks := l\<rparr>) \<and>
      idle a (set_garbiter g None ((set_gtail g None st)\<lparr>alinks := l\<rparr>)) (on_sched (unsched g) A')"
    by blast
qed

lemma set_next_set_next [simp]: "set_next x p (set_next x q s) = set_next x p s"
  by (simp add: set_next_def)

lemma set_prev_set_next: "set_prev y p (set_next x q s) = set_next x q (set_prev y p s)"
  by (simp add: set_prev_def set_next_def)

lemma add_tail_reset: "ucs_list_add_tail h x (set_next x None s) = ucs_list_add_tail h x s"
  by (simp add: ucs_list_insert_before_def ucs_list_insert_replace_def set_prev_set_next)

lemma removed_next:
  assumes c: "called a g st A" and q: "aq A g = e # t"
  defines "A' \<equiv> set_acur g None A" and "st' \<equiv> set_enext (last (rings_of A g)) (Some (Elem e)) st"
  shows "enext st (Dummy a) = Some (Elem e)"
    and "scheduled (asched A) g \<Longrightarrow>
      \<exists>l. on_links (ucs_list_replace (EList (Dummy a)) (EList (Elem e))) st' = Some (st'\<lparr>alinks := l\<rparr>) \<and>
        idle a (ucs_arbiter_group_head_reset (Dummy a) (st'\<lparr>alinks := l\<rparr>)) A'"
    and "\<not> scheduled (asched A) g \<Longrightarrow> ready a g (ucs_arbiter_group_head_reset (Elem e) st') A'"
    and "\<not> scheduled (asched A) g \<Longrightarrow>
      \<exists>l. on_links (ucs_list_add_tail (LHead (ArbList a)) (EList (Elem e))) st' = Some (st'\<lparr>alinks := l\<rparr>) \<and>
        idle a (st'\<lparr>alinks := l\<rparr>) (on_sched (sched_tail (ArbList a) g) A')"
proof -
  note cd = calledD [OF c]
  have R: "rings_of A g = Dummy a # Elem e # map Elem t" using cd(5) q by simp
  show "enext st (Dummy a) = Some (Elem e)" using elems_okD(1) [OF cd(1), of g] R by simp
  have R': "rings_of A' = (rings_of A)(g := Elem e # map Elem t)" using q by (simp add: A'_def rings_of_set_acur)
  have hd: "hd (rings_of A g) = Dummy a" "rings_of A g \<noteq> []" using R by simp_all
  have el: "elems_ok st' (rings_of A')" using drop_head_elems [OF cd(1) R] by (simp add: R' st'_def)
  have fin: "\<And>g. gguard st g = (if acur A' g = None then 0 else 1)" "acur A' = (\<lambda>_. None)"
    "asched A' = asched A" "asched A (ArbList a) \<noteq> None" "asched A (ReschedList a) \<noteq> None" "garbiter st g = Some a"
    "alinks st' = alinks st" "gguard st' = gguard st" "garbiter st' = garbiter st" "egroup st' = egroup st" "only_arb a (asched A)"
    using guard_released [OF c] dispatch_no_dummy [OF c] c by (simp_all add: A'_def st'_def called_def)
  { assume "scheduled (asched A) g"
    then obtain h S1 S2 where h: "asched A h = Some (S1 @ g # S2)" by (rule scheduledE)
    obtain l where l: "ucs_list_replace (EList (Dummy a)) (EList (Elem e)) (alinks st) = Some l"
      "links_ok l (rings_of A') (asched A)"
      using links_replace [OF cd(2,4) _ h, of "Elem e # map Elem t"] elems_okD(2) [OF el] hd
      by (auto simp: R')
    have "links_ok (set_next (EList (Dummy a)) None l) (rings_of A') (asched A)"
    proof (rule links_reset [OF l(2)])
      fix g' assume "scheduled (asched A) g'"
      then show "hd (rings_of A' g') \<noteq> Dummy a"
        by (rule unqueued_not_head [OF l(2)]) (use fin(2) in simp)
    qed
    then have "idle a (ucs_arbiter_group_head_reset (Dummy a) (st'\<lparr>alinks := l\<rparr>)) A'"
      using el fin cd(3) by (intro idleI) (simp_all add: ucs_arbiter_group_head_reset_def)
    then show "\<exists>l. on_links (ucs_list_replace (EList (Dummy a)) (EList (Elem e))) st' = Some (st'\<lparr>alinks := l\<rparr>) \<and>
        idle a (ucs_arbiter_group_head_reset (Dummy a) (st'\<lparr>alinks := l\<rparr>)) A'"
      using l(1) fin(7) by (auto simp: on_links_def) }
  assume ns: "\<not> scheduled (asched A) g"
  let ?l = "set_next (EList (Elem e)) None (alinks st)"
  have "links_ok ?l (rings_of A) (asched A)"
  proof (rule links_reset [OF cd(2)])
    fix g' assume g': "scheduled (asched A) g'"
    then have "g' \<noteq> g" "rings_of A g' \<noteq> []" using ns links_okD(2) [OF cd(2)] by (auto simp: scheduled_def)
    then have "hd (rings_of A g') \<notin> set (rings_of A g)"
      using cd(4) unfolding rings_disjoint_def by (metis disjoint_iff hd_in_set)
    then show "hd (rings_of A g') \<noteq> Elem e" using R by auto
  qed
  then have lk: "links_ok ?l (rings_of A') (asched A)"
    unfolding R' using ns by (rule links_ring_unscheduled) simp
  have dm: "lnext (alinks st) (EList (Dummy a)) = None"
    using cd(9) ns by (simp add: ucs_arbiter_group_head_is_scheduled_def)
  have idle: "idle a (ucs_arbiter_group_head_reset (Elem e) st') A'"
    using el lk dm fin cd(3) by (intro idleI) (simp_all add: ucs_arbiter_group_head_reset_def)
  have eg: "egroup st (Dummy a) = Some g" using elems_okD(3) [OF cd(1), of "Dummy a" g] R by simp
  show "ready a g (ucs_arbiter_group_head_reset (Elem e) st') A'"
    using idle fin ns eg by (simp add: ready_def idle_def ucs_arbiter_group_head_reset_def A'_def)
  have "garbiter (ucs_arbiter_group_head_reset (Elem e) st') g = Some a"
    using fin by (simp add: ucs_arbiter_group_head_reset_def)
  from idle_schedule(1) [OF idle _ _ _ this, of "ArbList a"] q ns fin(3)
  obtain l where l: "on_links (ucs_list_add_tail (LHead (ArbList a)) (EList (Elem e))) (ucs_arbiter_group_head_reset (Elem e) st')
      = Some ((ucs_arbiter_group_head_reset (Elem e) st')\<lparr>alinks := l\<rparr>)"
    "idle a ((ucs_arbiter_group_head_reset (Elem e) st')\<lparr>alinks := l\<rparr>) (on_sched (sched_tail (ArbList a) g) A')"
    by (auto simp: A'_def)
  have eq: "(ucs_arbiter_group_head_reset (Elem e) st')\<lparr>alinks := l\<rparr> = st'\<lparr>alinks := l\<rparr>"
    by (simp add: ucs_arbiter_group_head_reset_def)
  show "\<exists>l. on_links (ucs_list_add_tail (LHead (ArbList a)) (EList (Elem e))) st' = Some (st'\<lparr>alinks := l\<rparr>) \<and>
        idle a (st'\<lparr>alinks := l\<rparr>) (on_sched (sched_tail (ArbList a) g) A')"
    using l unfolding eq by (auto simp: on_links_def ucs_arbiter_group_head_reset_def add_tail_reset)
qed

section \<open>Dispatch refines the abstract dispatcher\<close>

text \<open>What the dispatcher relies on: the callback, called with its group guarded and the dummy in
  place of the dispatched element, keeps the representation, does to it what its abstract
  counterpart does, and unless it gives the element up leaves it unqueued.\<close>

definition cb_sim :: "'a \<Rightarrow> ('a, 'g, 'e, 'x) ucs_arbiter_callback \<Rightarrow> ('a, 'g, 'e, 'x) acallback \<Rightarrow> bool" where
  "cb_sim a cb acb \<longleftrightarrow> (\<forall>g e x st A r x' A'.
     arep st A \<and> acur A g = Some a \<and> (\<forall>g'. e \<notin> set (aq A g')) \<and>
     lnext (alinks st) (EList (Elem e)) = None \<and> garbiter st g = Some a \<and>
     asched A (ArbList a) \<noteq> None \<and> asched A (ReschedList a) \<noteq> None \<and> only_arb a (asched A) \<and> acb g e (x, A) = (r, x', A') \<longrightarrow>
     (\<exists>st'. cb a g (Elem e) (x, st) = Some (r, x', st') \<and> arep st' A' \<and> acur A' = acur A \<and>
       asched A' (ArbList a) \<noteq> None \<and> asched A' (ReschedList a) \<noteq> None \<and> only_arb a (asched A') \<and> garbiter st' g = Some a \<and>
       (r \<noteq> UCS_ARBITER_CB_RESULT_REMOVE_ELEM \<longrightarrow>
          (\<forall>g'. e \<notin> set (aq A' g')) \<and> lnext (alinks st') (EList (Elem e)) = None)))"

locale arbiter_callback =
  fixes a :: 'a and cb :: "('a, 'g, 'e, 'x) ucs_arbiter_callback" and acb :: "('a, 'g, 'e, 'x) acallback"
  assumes cb_sim: "cb_sim a cb acb"
begin

lemma call:
  assumes r: "ready a g st A" and q: "aq A g = e # t" and n: "cnt < per_group"
    and acb: "acb g e (x, set_acur g (Some a) (set_aq g t A)) = (r, x1, A1)"
  shows "\<exists>st2 st4. ucs_arbiter_group_head_replace g (Elem e) (Dummy a) (ucs_arbiter_elem_init (Elem e) st) = Some st2 \<and>
    cb a g (Elem e) (x, set_gguard g (gguard st2 g + 1) st2) = Some (r, x1, st4) \<and>
    called a g (set_gguard g (gguard st4 g - 1) st4) A1 \<and>
    (r \<noteq> UCS_ARBITER_CB_RESULT_REMOVE_ELEM \<longrightarrow>
      (\<forall>g'. e \<notin> set (aq A1 g')) \<and> lnext (alinks st4) (EList (Elem e)) = None)"
proof -
  let ?A = "set_acur g (Some a) (set_aq g t A)"
  note th = ready_take_head [OF r q]
  obtain st2 where st2: "ucs_arbiter_group_head_replace g (Elem e) (Dummy a) (ucs_arbiter_elem_init (Elem e) st) = Some st2"
    "arep (set_gguard g (gguard st2 g + 1) st2) ?A" "alinks st2 = alinks st" "garbiter st2 = garbiter st"
    using th(3) by blast
  have el: "elems_ok st (rings_of A)" using r by (simp add: ready_def arep_def arb_rep_def)
  have "rings_of A g = Elem e # map Elem t" using r q by (simp add: ready_def rings_of_def)
  then have et: "e \<notin> set t" using ring_distinct [OF elems_okD(1) [OF el, of g]] by auto
  have fresh: "e \<notin> set (aq ?A g')" for g'
  proof (cases "g' = g")
    case False
    then have "set (rings_of A g) \<inter> set (rings_of A g') = {}" using elems_okD(2) [OF el] by (simp add: rings_disjoint_def)
    moreover have "Elem e \<in> set (rings_of A g)" using q by simp
    ultimately have "Elem e \<notin> set (rings_of A g')" by blast
    then show ?thesis using False by simp
  qed (simp add: et)
  have "lnext (alinks st2) (EList (Elem e)) = None"
    using th(2) st2(3) by (simp add: ucs_arbiter_group_head_is_scheduled_def)
  with r st2 fresh acb obtain st4 where st4: "cb a g (Elem e) (x, set_gguard g (gguard st2 g + 1) st2) = Some (r, x1, st4)"
    "arep st4 A1" "acur A1 = acur ?A" "asched A1 (ArbList a) \<noteq> None" "asched A1 (ReschedList a) \<noteq> None" "only_arb a (asched A1)"
    "garbiter st4 g = Some a"
    "r \<noteq> UCS_ARBITER_CB_RESULT_REMOVE_ELEM \<longrightarrow>
      (\<forall>g'. e \<notin> set (aq A1 g')) \<and> lnext (alinks st4) (EList (Elem e)) = None"
    using cb_sim [unfolded cb_sim_def, rule_format, of "set_gguard g (gguard st2 g + 1) st2" ?A g e x r x1 A1]
    by (auto simp: ready_def)
  have "called a g (set_gguard g (gguard st4 g - 1) st4) A1"
    using st4 r by (auto simp: called_def arep_def arb_rep_def ready_def)
  with st2(1) st4 show ?thesis by blast
qed

lemma dispatch_group_refines:
  assumes "ready a g st A" "aq A g = e # t"
  shows "case adispatch_group fuel a per_group acb g cnt (x, A) of
      None \<Rightarrow> dispatch_group fuel a per_group cb g (Elem e) cnt (x, st) = None
    | Some (stop, x', A') \<Rightarrow>
        \<exists>st'. dispatch_group fuel a per_group cb g (Elem e) cnt (x, st) = Some (stop, x', st') \<and> idle a st' A'"
  using assms
proof (induction fuel arbitrary: cnt x st A e t)
  case 0
  then show ?case by simp
next
  case (Suc fuel)
  show ?case
  proof (cases "cnt < per_group")
    case False
    then show ?thesis using Suc.prems(2) by (cases "acb g e (x, set_acur g (Some a) (set_aq g t A))") (auto simp: bind_eq_None_conv)
  next
    case n: True
    obtain r x1 A1 where acb: "acb g e (x, set_acur g (Some a) (set_aq g t A)) = (r, x1, A1)" by (metis prod_cases3)
    obtain st2 st4 where st: "ucs_arbiter_group_head_replace g (Elem e) (Dummy a) (ucs_arbiter_elem_init (Elem e) st) = Some st2"
      "cb a g (Elem e) (x, set_gguard g (gguard st2 g + 1) st2) = Some (r, x1, st4)"
      and c: "called a g (set_gguard g (gguard st4 g - 1) st4) A1"
      and keep: "r \<noteq> UCS_ARBITER_CB_RESULT_REMOVE_ELEM \<Longrightarrow> (\<forall>g'. e \<notin> set (aq A1 g')) \<and> lnext (alinks st4) (EList (Elem e)) = None"
      using call [OF Suc.prems n acb] by blast
    let ?st5 = "set_gguard g (gguard st4 g - 1) st4"
    note th = ready_take_head(1,2) [OF Suc.prems]
    note cd = calledD [OF c]
    have dm: "egroup st (Dummy a) = Some g" using Suc.prems(1) by (simp add: ready_def)
    have unsched': "\<not> ucs_arbiter_group_head_is_scheduled (Elem e) (ucs_arbiter_elem_init (Elem e) st)"
      using th(2) by (simp add: ucs_arbiter_group_head_is_scheduled_def ucs_arbiter_elem_init_def)
    have tl: "gtail st4 g = Some (last (rings_of A1 g))" "enext st4 (last (rings_of A1 g)) = Some (Dummy a)"
      using cd(7,8) by simp_all
    note run = n th dm unsched' st tl Let_def
    show ?thesis
    proof (cases "r = UCS_ARBITER_CB_RESULT_REMOVE_ELEM")
      case True
      show ?thesis
      proof (cases "aq A1 g")
        case Nil
        then show ?thesis using removed_last [OF c Nil] Suc.prems(2) acb True n
          by (auto simp: run)
      next
        case (Cons e' t')
        note rn = removed_next [OF c Cons]
        show ?thesis
        proof (cases "scheduled (asched A1) g")
          case sc: True
          then show ?thesis using rn(1,2) Cons Suc.prems(2) acb True n cd(9)
            by (auto simp: run)
        next
          case ns: False
          show ?thesis
          proof (cases "per_group \<le> Suc cnt")
            case last: True
            then show ?thesis using rn(1,4) ns Cons Suc.prems(2) acb True n cd(9)
              by (auto simp: run)
          next
            case False
            have "aq (set_acur g None A1) g = e' # t'" using Cons by simp
            note ih = Suc.IH [OF rn(3) [OF ns] this, of "Suc cnt" x1]
            have "dispatch_group (Suc fuel) a per_group cb g (Elem e) cnt (x, st) =
              dispatch_group fuel a per_group cb g (Elem e') (Suc cnt) (x1, ucs_arbiter_group_head_reset (Elem e')
                (set_enext (last (rings_of A1 g)) (Some (Elem e')) ?st5))"
              using rn(1) ns cd(9) True False by (auto simp: run)
            moreover have "adispatch_group (Suc fuel) a per_group acb g cnt (x, A) =
              adispatch_group fuel a per_group acb g (Suc cnt) (x1, set_acur g None A1)"
              using ns Cons Suc.prems(2) acb True n False by auto
            ultimately show ?thesis using ih by presburger
          qed
        qed
      qed
    next
      case kr: False
      note kp = keep [OF kr]
      let ?A = "set_aq g (e # aq A1 g) (set_acur g None A1)"
      obtain st7 where st7: "ucs_arbiter_group_head_replace g (Dummy a) (Elem e) (ucs_arbiter_elem_set_scheduled (Elem e) g ?st5) = Some st7"
        "elems_ok st7 (rings_of ?A)" "alinks st7 = alinks ?st5" "garbiter st7 = garbiter ?st5" "gguard st7 = gguard ?st5"
        "egroup st7 (Dummy a) = Some g"
        using called_put_back(1) [OF c] kp by blast
      have un: "\<not> ucs_arbiter_group_head_is_scheduled (Elem e) (ucs_arbiter_elem_set_scheduled (Elem e) g ?st5)"
        using kp by (simp add: ucs_arbiter_group_head_is_scheduled_def ucs_arbiter_elem_set_scheduled_def)
      have e5: "\<And>g'. e \<notin> set (aq A1 g')" "lnext (alinks ?st5) (EList (Elem e)) = None" using kp by simp_all
      show ?thesis
      proof (cases "r = UCS_ARBITER_CB_RESULT_DESCHED_GROUP")
        case True
        have sch: "ucs_arbiter_group_head_is_scheduled (Dummy a) st7 \<longleftrightarrow> scheduled (asched A1) g"
          using cd(9) st7(3) by (simp add: ucs_arbiter_group_head_is_scheduled_def)
        note kd = keep_desched [OF c e5 st7(2-6)]
        have ga: "garbiter st7 g = Some a" using st7(4) c by (simp add: called_def)
        show ?thesis
        proof (cases "scheduled (asched A1) g")
          case sc: True
          then obtain l where "on_links (ucs_list_replace (EList (Dummy a)) (EList (Elem e))) st7 = Some (st7\<lparr>alinks := l\<rparr>)"
            "idle a (ucs_arbiter_group_head_reset (Dummy a) (st7\<lparr>alinks := l\<rparr>)) ?A" using kd(1) by blast
          then show ?thesis using True Suc.prems(2) acb n sch sc st7(1,6) un
            by (simp add: run set_garbiter_same)
        next
          case False
          then show ?thesis using True Suc.prems(2) acb n sch kd(2) st7(1) un
            by (simp add: run)
        qed
      next
        case nd: False
        obtain l where l: "ucs_arbiter_remove_and_reset_if_scheduled (Dummy a) st7 = Some (st7\<lparr>alinks := l\<rparr>)"
          "idle a (st7\<lparr>alinks := l\<rparr>) (on_sched (unsched g) ?A)"
          using keep_unsched [OF c e5 st7(2-5)] by blast
        have ga: "garbiter (st7\<lparr>alinks := l\<rparr>) g = Some a" using st7(4) c by (simp add: called_def)
        have isch: "\<And>h. lhead_arb h = a \<Longrightarrow>
          (\<exists>l'. on_links (ucs_list_add_tail (LHead h) (EList (Elem e))) (st7\<lparr>alinks := l\<rparr>) = Some (st7\<lparr>alinks := l'\<rparr>) \<and>
            idle a (st7\<lparr>alinks := l'\<rparr>) (on_sched (sched_tail h g \<circ> unsched g) ?A)) \<and>
          (\<exists>l'. on_links (ucs_list_add_head (LHead h) (EList (Elem e))) (st7\<lparr>alinks := l\<rparr>) = Some (st7\<lparr>alinks := l'\<rparr>) \<and>
            idle a (st7\<lparr>alinks := l'\<rparr>) (on_sched (sched_head h g \<circ> unsched g) ?A))"
          using idle_schedule [OF l(2) _ _ _ ga] unsched_not_scheduled [of g "asched A1"] by (simp add: on_sched_def)
        show ?thesis
          using isch [of "ArbList a"] isch [of "ReschedList a"] Suc.prems(2) acb n nd kr st7(1) un l(1)
          by (cases r) (auto simp: run)
      qed
    qed
  qed
qed

lemma idle_next_group:
  assumes i: "idle a st A" and S: "asched A (ArbList a) = Some (g # S)"
  shows "\<exists>e t l. aq A g = e # t \<and> ucs_list_extract_head (LHead (ArbList a)) (alinks st) = Some (EList (Elem e), l) \<and>
    egroup st (Elem e) = Some g \<and> gguard st g = 0 \<and>
    ready a g (set_egroup (Dummy a) (Some g) (ucs_arbiter_group_head_reset (Elem e) (st\<lparr>alinks := l\<rparr>)))
      (on_sched (set_sched (ArbList a) S) A)"
proof -
  have rep: "elems_ok st (rings_of A)" "links_ok (alinks st) (rings_of A) (asched A)" "arbs_ok (garbiter st) (asched A)"
    "\<And>g. gguard st g = 0" "acur A = (\<lambda>_. None)"
    "lnext (alinks st) (EList (Dummy a)) = None" "asched A (ReschedList a) \<noteq> None" "only_arb a (asched A)"
    using i unfolding idle_def arep_def arb_rep_def by auto
  have R: "rings_of A g' = map Elem (aq A g')" for g' using rep(5) by (simp add: rings_of_def)
  have "aq A g \<noteq> []" using links_okD(2) [OF rep(2) S, of g] R by simp
  then obtain e t where q: "aq A g = e # t" by (cases "aq A g") auto
  then have hd: "hd (rings_of A g) = Elem e" using R by simp
  obtain l where l: "ucs_list_extract_head (LHead (ArbList a)) (alinks st) = Some (EList (Elem e), l)"
    "links_ok (set_next (EList (Elem e)) None l) (rings_of A) (set_sched (ArbList a) S (asched A))"
    "marks_but (Elem e) (alinks st) (set_next (EList (Elem e)) None l)"
    using links_extract [OF rep(2) elems_okD(2) [OF rep(1)] S] hd by (auto simp: set_sched_def)
  let ?st = "set_egroup (Dummy a) (Some g) (ucs_arbiter_group_head_reset (Elem e) (st\<lparr>alinks := l\<rparr>))"
  have eg: "egroup st (Elem e) = Some g" using elems_okD(3) [OF rep(1), of "Elem e" g] q by simp
  have "elems_ok ?st (rings_of A)"
    using rep(1,5) by (simp add: elems_ok_dummy ucs_arbiter_group_head_reset_def)
  moreover have "\<not> scheduled (set_sched (ArbList a) S (asched A)) g"
    using links_okD(4) [OF l(2), of g] hd q R by simp
  moreover have "garbiter st g = Some a" using rep(3) S unfolding arbs_ok_def2 by fastforce
  moreover have "arbs_ok (garbiter st) (set_sched (ArbList a) S (asched A))"
    using rep(3) S unfolding arbs_ok_def2 by (fastforce split: if_splits)
  ultimately have "ready a g ?st (on_sched (set_sched (ArbList a) S) A)"
    using rep l(2,3) unfolding ready_def arep_def arb_rep_def aarb_simps rings_of_on_sched
    by (simp add: ucs_arbiter_group_head_reset_def marks_but_def)
  with q l(1) eg rep(4) show ?thesis by blast
qed

lemma idle_arb_empty:
  "idle a st A \<Longrightarrow> ucs_list_is_empty (LHead (ArbList a)) (alinks st) \<longleftrightarrow> asched A (ArbList a) = Some []"
  using links_okD(1) [of "alinks st" "rings_of A" "asched A" "ArbList a"]
  by (fastforce simp: idle_def arep_def arb_rep_def head_links_def)

lemma dispatch_loop_refines:
  assumes "idle a st A" "asched A (ArbList a) \<noteq> Some []"
  shows "case adispatch_loop fuel a per_group acb (x, A) of
      None \<Rightarrow> dispatch_loop fuel a per_group cb (x, st) = None
    | Some (x', A') \<Rightarrow> \<exists>st'. dispatch_loop fuel a per_group cb (x, st) = Some (x', st') \<and> idle a st' A'"
  using assms
proof (induction fuel arbitrary: x st A)
  case 0
  then show ?case by simp
next
  case (Suc fuel)
  obtain g S where S: "asched A (ArbList a) = Some (g # S)"
    using Suc.prems by (cases "asched A (ArbList a)"; cases "the (asched A (ArbList a))") (auto simp: idle_def)
  obtain e t l where n: "aq A g = e # t"
    "ucs_list_extract_head (LHead (ArbList a)) (alinks st) = Some (EList (Elem e), l)"
    "egroup st (Elem e) = Some g" "gguard st g = 0"
    "ready a g (set_egroup (Dummy a) (Some g) (ucs_arbiter_group_head_reset (Elem e) (st\<lparr>alinks := l\<rparr>)))
      (on_sched (set_sched (ArbList a) S) A)"
    using idle_next_group [OF Suc.prems(1) S] by blast
  let ?A = "on_sched (set_sched (ArbList a) S) A"
  let ?st = "set_egroup (Dummy a) (Some g) (ucs_arbiter_group_head_reset (Elem e) (st\<lparr>alinks := l\<rparr>))"
  have fs: "egroup (ucs_arbiter_group_head_reset (Elem e) (st\<lparr>alinks := l\<rparr>)) (Elem e) = Some g"
    "gguard (ucs_arbiter_group_head_reset (Elem e) (st\<lparr>alinks := l\<rparr>)) g = 0"
    using n by (simp_all add: ucs_arbiter_group_head_reset_def)
  note run = n(2) fs S guard_check_def Let_def
  have "aq ?A g = e # t" using n(1) by simp
  note gr = dispatch_group_refines [OF n(5) this, of "Suc fuel" per_group 0 x]
  show ?case
  proof (cases "adispatch_group (Suc fuel) a per_group acb g 0 (x, ?A)")
    case None
    then have "dispatch_group (Suc fuel) a per_group cb g (Elem e) 0 (x, ?st) = None" using gr by simp
    then show ?thesis using None by (simp add: run del: dispatch_group.simps adispatch_group.simps)
  next
    case (Some r)
    obtain stop x1 A1 where r: "r = (stop, x1, A1)" by (cases r)
    then obtain st1 where st1: "dispatch_group (Suc fuel) a per_group cb g (Elem e) 0 (x, ?st) = Some (stop, x1, st1)"
      "idle a st1 A1" using gr Some by auto
    have eq1: "dispatch_loop (Suc fuel) a per_group cb (x, st) =
        (if stop \<or> asched A1 (ArbList a) = Some [] then Some (x1, st1) else dispatch_loop fuel a per_group cb (x1, st1))"
      using st1(1) idle_arb_empty [OF st1(2)] by (simp add: run del: dispatch_group.simps)
    have eq2: "adispatch_loop (Suc fuel) a per_group acb (x, A) =
        (if stop \<or> asched A1 (ArbList a) = Some [] then Some (x1, A1) else adispatch_loop fuel a per_group acb (x1, A1))"
      using Some r S by (simp del: adispatch_group.simps)
    show ?thesis unfolding eq1 eq2
      using Suc.IH [OF st1(2), of x1] st1(2) by (cases "stop \<or> asched A1 (ArbList a) = Some []") auto
  qed
qed

text \<open>The whole dispatch, from and to a state in which no callback is running.\<close>

lemma dispatch_refines:
  assumes rep: "arep st A" and cur: "acur A = (\<lambda>_. None)" and S: "asched A (ArbList a) \<noteq> None" "asched A (ReschedList a) = None"
    "only_arb a (asched A)"
  shows "case adispatch fuel a per_group acb (x, A) of
      None \<Rightarrow> ucs_arbiter_dispatch fuel a per_group cb (x, st) = None
    | Some (x', A') \<Rightarrow> \<exists>st'. ucs_arbiter_dispatch fuel a per_group cb (x, st) = Some (x', st') \<and>
        arep st' A' \<and> acur A' = (\<lambda>_. None) \<and> asched A' (ArbList a) \<noteq> None \<and> asched A' (ReschedList a) = None \<and> only_arb a (asched A')"
proof -
  have ok: "elems_ok st (rings_of A)" "links_ok (alinks st) (rings_of A) (asched A)" "arbs_ok (garbiter st) (asched A)"
    "\<And>g. gguard st g = 0" using rep cur unfolding arep_def arb_rep_def by auto
  have emp: "ucs_arbiter_is_empty a st \<longleftrightarrow> asched A (ArbList a) = Some []"
    using links_okD(1) [OF ok(2), of "ArbList a"] S(1) by (fastforce simp: ucs_arbiter_is_empty_def head_links_def)
  show ?thesis
  proof (cases "asched A (ArbList a) = Some []")
    case True
    then show ?thesis using rep cur S emp by (simp add: adispatch_def ucs_arbiter_dispatch_def)
  next
    case False
    let ?A = "on_sched (set_sched (ReschedList a) []) A"
    let ?l0 = "ucs_list_head_init (LHead (ReschedList a)) (alinks st)"
    let ?st = "ucs_arbiter_group_head_reset (Dummy a) (st\<lparr>alinks := ?l0\<rparr>)"
    have lk: "links_ok ?l0 (rings_of A) (set_sched (ReschedList a) [] (asched A))" using links_init [OF ok(2) S(2)] by (simp add: set_sched_def)
    have "links_ok (set_next (EList (Dummy a)) None ?l0) (rings_of A) (set_sched (ReschedList a) [] (asched A))"
      using unqueued_not_head [OF lk] cur by (intro links_reset [OF lk]) simp
    moreover have "arbs_ok (garbiter st) (set_sched (ReschedList a) [] (asched A))"
      using ok(3) unfolding arbs_ok_def2 by (auto split: if_splits)
    ultimately have i: "idle a ?st ?A"
      using ok cur S unfolding idle_def arep_def arb_rep_def aarb_simps rings_of_on_sched
      by (simp add: ucs_arbiter_group_head_reset_def)
    have ne: "asched ?A (ArbList a) \<noteq> Some []" using False by simp
    have e1: "\<not> ucs_list_is_empty (LHead (ArbList a)) ?l0"
      using idle_arb_empty [OF i] ne by (simp add: ucs_arbiter_group_head_reset_def ucs_list_is_empty_def)
    note run = adispatch_def ucs_arbiter_dispatch_def ucs_arbiter_dispatch_nonempty_def emp False e1
    note lr = dispatch_loop_refines [OF i ne, of fuel per_group x]
    show ?thesis
    proof (cases "adispatch_loop fuel a per_group acb (x, ?A)")
      case None
      then show ?thesis using lr by (simp add: run)
    next
      case (Some r)
      obtain x1 A1 where r: "r = (x1, A1)" by (cases r)
      then obtain st1 where st1: "dispatch_loop fuel a per_group cb (x, ?st) = Some (x1, st1)" "idle a st1 A1"
        using lr Some by auto
      have ok1: "elems_ok st1 (rings_of A1)" "links_ok (alinks st1) (rings_of A1) (asched A1)"
        "arbs_ok (garbiter st1) (asched A1)" "\<And>g. gguard st1 g = 0" "acur A1 = (\<lambda>_. None)" "only_arb a (asched A1)"
        using st1(2) unfolding idle_def arep_def arb_rep_def by auto
      obtain S1 S2 where S12: "asched A1 (ArbList a) = Some S1" "asched A1 (ReschedList a) = Some S2"
        using st1(2) by (auto simp: idle_def)
      obtain l2 where l2: "ucs_list_splice_tail (LHead (ArbList a)) (LHead (ReschedList a)) (alinks st1) = Some l2"
        "links_ok l2 (rings_of A1) (splice_resched a (asched A1))"
        using links_splice [OF ok1(2) elems_okD(2) [OF ok1(1)] S12] S12 by (auto simp: splice_resched_def)
      have "arbs_ok (garbiter st1) (splice_resched a (asched A1))"
        by (rule arbs_ok_splice [OF ok1(3) S12])
      moreover have "splice_resched a (asched A1) (ArbList a) \<noteq> None" "splice_resched a (asched A1) (ReschedList a) = None"
        using S12 by (simp_all add: splice_resched_def)
      ultimately show ?thesis
        using Some r st1(1) l2 ok1 unfolding arep_def arb_rep_def
        by (simp add: run on_links_def)
    qed
  qed
qed

end

end
