(* ===== verification/Arbiter_Props.thy ===== *)
theory Arbiter_Props
  imports Arbiter_Dispatch
begin

text \<open>
  Callbacks that push elements and schedule groups satisfy the callback contract; the dispatch
  theorem for all of them; and the order in which a dispatch serves the groups when every element
  is accepted: round robin, at most \<open>per_group\<close> elements of a group at a time.
\<close>

section \<open>Callbacks built from the arbiter's own operations\<close>

datatype ('g, 'e) cb_action = Push 'g 'e | Sched 'g

type_synonym ('g, 'e, 'x) script = "'g \<Rightarrow> 'e \<Rightarrow> 'x \<Rightarrow> ('g, 'e) cb_action list \<times> ucs_arbiter_cb_result \<times> 'x"

fun run_action :: "'a \<Rightarrow> ('g, 'e) cb_action \<Rightarrow> ('a, 'g, 'e) arb \<Rightarrow> ('a, 'g, 'e) arb option" where
  "run_action a (Push g e) st = Some (ucs_arbiter_group_push_elem g (Elem e) st)"
| "run_action a (Sched g) st = ucs_arbiter_group_schedule a g st"

fun run_actions :: "'a \<Rightarrow> ('g, 'e) cb_action list \<Rightarrow> ('a, 'g, 'e) arb \<Rightarrow> ('a, 'g, 'e) arb option" where
  "run_actions a [] st = Some st"
| "run_actions a (x # xs) st = do { st1 \<leftarrow> run_action a x st; run_actions a xs st1 }"

text \<open>The callback may not queue the element it is called for.\<close>

definition others :: "'e \<Rightarrow> ('g, 'e) cb_action list \<Rightarrow> ('g, 'e) cb_action list" where
  "others e = filter (\<lambda>x. \<forall>g. x \<noteq> Push g e)"

definition run_cb :: "('g, 'e, 'x) script \<Rightarrow> ('a, 'g, 'e, 'x) ucs_arbiter_callback" where
  "run_cb scr a g el s =
     (case (el, s) of
        (Elem e, (x, st)) \<Rightarrow>
          (case scr g e x of (acts, r, x') \<Rightarrow> do { st' \<leftarrow> run_actions a (others e acts) st; Some (r, x', st') })
      | _ \<Rightarrow> None)"

text \<open>What the actions do to the queues and schedules.\<close>

definition apush :: "'g \<Rightarrow> 'e \<Rightarrow> ('a, 'g, 'e) aarb \<Rightarrow> ('a, 'g, 'e) aarb" where
  "apush g e A = (if \<exists>g'. e \<in> set (aq A g') then A else set_aq g (aq A g @ [e]) A)"

definition aschedule :: "'a \<Rightarrow> 'g \<Rightarrow> ('a, 'g, 'e) aarb \<Rightarrow> ('a, 'g, 'e) aarb" where
  "aschedule a g A =
     (if (acur A g = None \<and> aq A g = []) \<or> scheduled (asched A) g then A
      else on_sched (sched_tail (ArbList a) g) A)"

fun aaction :: "'a \<Rightarrow> ('g, 'e) cb_action \<Rightarrow> ('a, 'g, 'e) aarb \<Rightarrow> ('a, 'g, 'e) aarb" where
  "aaction a (Push g e) = apush g e"
| "aaction a (Sched g) = aschedule a g"

definition arun :: "('g, 'e, 'x) script \<Rightarrow> 'a \<Rightarrow> ('a, 'g, 'e, 'x) acallback" where
  "arun scr a g e s =
     (case s of (x, A) \<Rightarrow> case scr g e x of (acts, r, x') \<Rightarrow> (r, x', fold (aaction a) (others e acts) A))"

lemma push_elem_fields:
  "gguard (ucs_arbiter_group_push_elem g e st) = gguard st"
  "garbiter (ucs_arbiter_group_push_elem g e st) = garbiter st"
  "alinks (ucs_arbiter_group_push_elem g e st) = alinks st \<or>
    alinks (ucs_arbiter_group_push_elem g e st) = set_next (EList e) None (alinks st)"
  by (simp_all add: ucs_arbiter_group_push_elem_def push_always_fields)

lemma rings_of_empty: "rings_of A g = [] \<longleftrightarrow> acur A g = None \<and> aq A g = []"
  by (auto simp: rings_of_def split: option.splits)

lemma only_arb_on: "only_arb a Q \<Longrightarrow> scheduled Q g \<Longrightarrow> on_arb Q a g"
  unfolding only_arb_def scheduled_on_arb on_arb_def by fastforce

text \<open>One action, while a callback may be running.\<close>

definition good :: "'a \<Rightarrow> 'e \<Rightarrow> 'g \<Rightarrow> ('a, 'g, 'e) arb \<Rightarrow> ('a, 'g, 'e) aarb \<Rightarrow> bool" where
  "good a e g st A \<longleftrightarrow> arep st A \<and> (\<forall>g'. e \<notin> set (aq A g')) \<and> lnext (alinks st) (EList (Elem e)) = None \<and>
     garbiter st g = Some a \<and> asched A (ArbList a) \<noteq> None \<and> only_arb a (asched A)"

lemma push_action:
  assumes "arep st A"
  shows "arep (ucs_arbiter_group_push_elem g (Elem e) st) (apush g e A)"
proof -
  have "rings_of (set_aq g (aq A g @ [e]) A) = (rings_of A)(g := rings_of A g @ [Elem e])"
    by (simp add: rings_of_set_aq) (simp add: rings_of_def)
  then show ?thesis
    using push_elem_correct [of st "rings_of A" "asched A" g e] assms
    by (cases "\<exists>g'. e \<in> set (aq A g')") (simp_all add: arep_def apush_def push_elem_fields)
qed

lemma sched_action:
  assumes "arep st A" "asched A (ArbList a) \<noteq> None" "only_arb a (asched A)"
  shows "\<exists>st'. ucs_arbiter_group_schedule a g st = Some st' \<and> arep st' (aschedule a g A) \<and>
    garbiter st' = (if rings_of A g = [] then garbiter st else (garbiter st)(g \<mapsto> a)) \<and>
    (\<forall>e. (\<forall>g'. e \<notin> set (aq A g')) \<longrightarrow> lnext (alinks st') (EList (Elem e)) = None \<longleftrightarrow> lnext (alinks st) (EList (Elem e)) = None)"
proof -
  obtain st' where st': "ucs_arbiter_group_schedule a g st = Some st'"
    "arb_rep st' (rings_of A) (if rings_of A g = [] \<or> scheduled (asched A) g then asched A else sched_tail (ArbList a) g (asched A))"
    "gguard st' = gguard st" "garbiter st' = (if rings_of A g = [] then garbiter st else (garbiter st)(g \<mapsto> a))"
    "rings_of A g \<noteq> [] \<longrightarrow> marks_but (hd (rings_of A g)) (alinks st) (alinks st')" "rings_of A g = [] \<longrightarrow> alinks st' = alinks st"
    using schedule_correct [of st "rings_of A" "asched A" a g] assms only_arb_on [OF assms(3)] unfolding arep_def by blast
  have "arep st' (aschedule a g A)"
    using st'(2,3) assms(1) by (auto simp: arep_def aschedule_def rings_of_empty)
  moreover have "lnext (alinks st') (EList (Elem e)) = None \<longleftrightarrow> lnext (alinks st) (EList (Elem e)) = None"
    if "\<forall>g'. e \<notin> set (aq A g')" for e
  proof (cases "rings_of A g = []")
    case False
    then have "hd (rings_of A g) \<noteq> Elem e" using that hd_in_set [OF False] by (metis Elem_in_rings_of)
    then show ?thesis using st'(5) False by (simp add: marks_but_def)
  qed (use st'(6) in simp)
  ultimately show ?thesis using st'(1,4) by blast
qed

lemma action_good:
  assumes g: "good a e g st A" and x: "\<And>g'. x \<noteq> Push g' e"
  shows "\<exists>st'. run_action a x st = Some st' \<and> good a e g st' (aaction a x A) \<and> acur (aaction a x A) = acur A \<and>
    (\<forall>h. asched (aaction a x A) h = None \<longleftrightarrow> asched A h = None)"
proof (cases x)
  case (Push g1 e1)
  then have "e1 \<noteq> e" using x by auto
  then have "lnext (alinks (ucs_arbiter_group_push_elem g1 (Elem e1) st)) (EList (Elem e)) = None"
    using push_elem_fields(3) [of g1 "Elem e1" st] g by (auto simp: good_def)
  then show ?thesis using Push push_action [of st A g1 e1] g \<open>e1 \<noteq> e\<close>
    by (auto simp: good_def apush_def push_elem_fields)
next
  case (Sched g1)
  obtain st' where st': "ucs_arbiter_group_schedule a g1 st = Some st'" "arep st' (aschedule a g1 A)"
    "garbiter st' = (if rings_of A g1 = [] then garbiter st else (garbiter st)(g1 \<mapsto> a))"
    "lnext (alinks st') (EList (Elem e)) = None"
    using sched_action [of st A a g1] g unfolding good_def by blast
  then show ?thesis using Sched g by (auto simp: good_def aschedule_def simp del: not_None_eq)
qed

lemma actions_good:
  assumes "good a e g st A"
  shows "\<exists>st'. run_actions a (others e acts) st = Some st' \<and> good a e g st' (fold (aaction a) (others e acts) A) \<and>
    acur (fold (aaction a) (others e acts) A) = acur A \<and>
    (\<forall>h. asched (fold (aaction a) (others e acts) A) h = None \<longleftrightarrow> asched A h = None)"
  using assms
proof (induction acts arbitrary: st A)
  case (Cons x acts)
  show ?case
  proof (cases "\<forall>g. x \<noteq> Push g e")
    case True
    then obtain st1 where st1: "run_action a x st = Some st1" "good a e g st1 (aaction a x A)" "acur (aaction a x A) = acur A"
      "\<forall>h. asched (aaction a x A) h = None \<longleftrightarrow> asched A h = None"
      using action_good [OF Cons.prems, of x] by blast
    then show ?thesis using Cons.IH [OF st1(2)] True by (simp add: others_def)
  next
    case False
    then show ?thesis using Cons.IH [OF Cons.prems] by (auto simp: others_def)
  qed
qed (simp add: others_def)

lemma run_cb_sim: "cb_sim a (run_cb scr) (arun scr a)"
  unfolding cb_sim_def
proof (intro allI impI, elim conjE)
  fix g e x st A r x' A'
  assume "arep st A" "acur A g = Some a" "\<forall>g'. e \<notin> set (aq A g')" "lnext (alinks st) (EList (Elem e)) = None"
    "garbiter st g = Some a" and s: "asched A (ArbList a) \<noteq> None" "asched A (ReschedList a) \<noteq> None"
    "only_arb a (asched A)" and r: "arun scr a g e (x, A) = (r, x', A')"
  then have g: "good a e g st A" by (simp add: good_def)
  obtain acts where sc: "scr g e x = (acts, r, x')" "A' = fold (aaction a) (others e acts) A"
    using r by (auto simp: arun_def split: prod.splits)
  obtain st' where "run_actions a (others e acts) st = Some st'" "good a e g st' A'" "acur A' = acur A"
    "\<forall>h. asched A' h = None \<longleftrightarrow> asched A h = None"
    using actions_good [OF g, of acts] sc(2) by blast
  then show "\<exists>st'. run_cb scr a g (Elem e) (x, st) = Some (r, x', st') \<and> arep st' A' \<and> acur A' = acur A \<and>
      asched A' (ArbList a) \<noteq> None \<and> asched A' (ReschedList a) \<noteq> None \<and> only_arb a (asched A') \<and> garbiter st' g = Some a \<and>
      (r \<noteq> UCS_ARBITER_CB_RESULT_REMOVE_ELEM \<longrightarrow>
         (\<forall>g'. e \<notin> set (aq A' g')) \<and> lnext (alinks st') (EList (Elem e)) = None)"
    using sc s by (auto simp: run_cb_def good_def)
qed

interpretation scripted: arbiter_callback a "run_cb scr" "arun scr a" for a scr
  by unfold_locales (rule run_cb_sim)

section \<open>Round robin\<close>

lemma sum_list_upd_le:
  "length ys \<le> length (q g) \<Longrightarrow> (\<Sum>x\<leftarrow>S. length ((q(g := ys)) x)) \<le> (\<Sum>x\<leftarrow>S. length (q x))"
  by (induction S) auto

text \<open>The order in which groups are served when every element is accepted: up to \<open>per\<close> elements of
  the first group, which then goes to the end of the line if it has more.\<close>

function round_robin :: "nat \<Rightarrow> 'g list \<Rightarrow> ('g \<Rightarrow> 'e list) \<Rightarrow> ('g \<times> 'e) list" where
  "round_robin per [] q = []"
| "round_robin per (g # S) q =
     (if per = 0 \<or> q g = [] then []
      else map (Pair g) (take per (q g)) @
        (if drop per (q g) = [] then round_robin per S (q(g := []))
         else round_robin per (S @ [g]) (q(g := drop per (q g)))))"
  by pat_completeness auto

termination
proof (relation "measure (\<lambda>(per, S, q). (\<Sum>x\<leftarrow>S. length (q x)))")
  fix per :: nat and g :: 'g and S :: "'g list" and q :: "'g \<Rightarrow> 'e list"
  assume a: "\<not> (per = 0 \<or> q g = [])"
  then show "((per, S, q(g := [])), (per, g # S, q)) \<in> measure (\<lambda>(per, S, q). (\<Sum>x\<leftarrow>S. length (q x)))"
    using sum_list_upd_le [of "[]" q g S] by (cases "q g") auto
  show "((per, S @ [g], q(g := drop per (q g))), (per, g # S, q)) \<in> measure (\<lambda>(per, S, q). (\<Sum>x\<leftarrow>S. length (q x)))"
  proof -
    have lt: "length (drop per (q g)) < length (q g)" using a by (cases "q g"; cases per) auto
    then show ?thesis using sum_list_upd_le [of "drop per (q g)" q g S] by (simp del: length_drop)
  qed
qed auto

text \<open>The callback that accepts every element and logs it.\<close>

definition accept :: "('g, 'e, ('g \<times> 'e) list) script" where
  "accept g e log = ([], UCS_ARBITER_CB_RESULT_REMOVE_ELEM, log @ [(g, e)])"

lemma arun_accept: "arun accept a g e (log, A) = (UCS_ARBITER_CB_RESULT_REMOVE_ELEM, log @ [(g, e)], A)"
  by (simp add: arun_def accept_def others_def)

lemma set_acur_back: "acur A g = None \<Longrightarrow> set_acur g None (set_acur g v (set_aq g t A)) = set_aq g t A"
  by (cases A) (simp add: set_acur_def set_aq_def fun_upd_idem)

lemma set_aq_aq [simp]: "set_aq g xs (set_aq g ys A) = set_aq g xs A"
  by (simp add: set_aq_def)

lemma on_sched_id: "f (asched A) = asched A \<Longrightarrow> on_sched f A = A"
  by (simp add: on_sched_def)

lemma accept_group:
  assumes "aq A g \<noteq> []" "acur A g = None" "\<not> scheduled (asched A) g" "cnt < per" "length (take (per - cnt) (aq A g)) \<le> fuel"
  shows "adispatch_group fuel a per (arun accept a) g cnt (log, A) =
    Some (False, log @ map (Pair g) (take (per - cnt) (aq A g)),
      (if drop (per - cnt) (aq A g) = [] then id else on_sched (sched_tail (ArbList a) g))
        (set_aq g (drop (per - cnt) (aq A g)) A))"
  using assms
proof (induction fuel arbitrary: cnt log A)
  case 0
  then show ?case by (auto simp: min_def split: if_splits)
next
  case (Suc fuel)
  obtain e t where q: "aq A g = e # t" using Suc.prems(1) by (cases "aq A g") auto
  obtain k where k: "per - cnt = Suc k" using Suc.prems(4) by (cases "per - cnt") auto
  let ?A = "set_aq g t A"
  have A2: "set_acur g None (set_acur g (Some a) ?A) = ?A" using set_acur_back [OF Suc.prems(2)] .
  show ?case
  proof (cases "t = []")
    case True
    then show ?thesis
      using q Suc.prems k A2 by (simp add: arun_accept Let_def on_sched_id unsched_id)
  next
    case False
    show ?thesis
    proof (cases "per \<le> Suc cnt")
      case True
      then have "k = 0" using k by simp
      then show ?thesis using q Suc.prems k A2 False True by (simp add: arun_accept Let_def)
    next
      case more: False
      have "per - Suc cnt = k" using k by simp
      then show ?thesis
        using Suc.IH [of ?A "Suc cnt" "log @ [(g, e)]"] q Suc.prems k A2 False more
        by (simp add: arun_accept Let_def)
    qed
  qed
qed

lemma accept_loop:
  assumes "\<And>g. g \<in> set S \<Longrightarrow> aq A g \<noteq> []" "distinct S" "acur A = (\<lambda>_. None)" "0 < per" "S \<noteq> []"
    "asched A = [ArbList a \<mapsto> S, ReschedList a \<mapsto> []]" "(\<Sum>g\<leftarrow>S. length (aq A g)) \<le> fuel"
  shows "\<exists>A'. adispatch_loop fuel a per (arun accept a) (log, A) = Some (log @ round_robin per S (aq A), A') \<and>
    asched A' = [ArbList a \<mapsto> [], ReschedList a \<mapsto> []] \<and> acur A' = (\<lambda>_. None) \<and>
    aq A' = (\<lambda>g. if g \<in> set S then [] else aq A g)"
  using assms
proof (induction fuel arbitrary: S A log)
  case 0
  then show ?case by (cases S) auto
next
  case (Suc fuel)
  obtain g T where S: "S = g # T" using Suc.prems(5) by (cases S) auto
  let ?q = "aq A g"
  define B where "B = on_sched (set_sched (ArbList a) T) A"
  define C where "C = set_aq g (drop per ?q) B"
  define D where "D = on_sched (sched_tail (ArbList a) g) C"
  let ?log = "log @ map (Pair g) (take per ?q)"
  have gT: "g \<notin> set T" using Suc.prems(2) S by simp
  have asB: "asched B = [ArbList a \<mapsto> T, ReschedList a \<mapsto> []]"
    using Suc.prems(6) by (auto simp: B_def set_sched_def S fun_upd_twist)
  have asC: "asched C = asched B" and asD: "asched D = [ArbList a \<mapsto> T @ [g], ReschedList a \<mapsto> []]"
    using asB by (auto simp: C_def D_def sched_tail_def fun_upd_twist)
  have q: "aq B = aq A" "aq C = (aq A)(g := drop per ?q)" "aq D = (aq A)(g := drop per ?q)"
    and cur: "acur B = (\<lambda>_. None)" "acur C = (\<lambda>_. None)" "acur D = (\<lambda>_. None)"
    using Suc.prems(3) by (simp_all add: B_def C_def D_def)
  have ns: "\<not> scheduled (asched B) g"
    using gT unfolding asB scheduled_def by (auto split: if_splits)
  have len: "length ?q \<le> Suc fuel" and ne: "?q \<noteq> []" using Suc.prems(1,7) S by auto
  have step: "adispatch_group (Suc fuel) a per (arun accept a) g 0 (log, B) = Some (False, ?log, if drop per ?q = [] then C else D)"
    using accept_group [of B g 0 per "Suc fuel" a log] ne ns Suc.prems(4) len q cur by (simp add: C_def D_def)
  have loop: "adispatch_loop (Suc fuel) a per (arun accept a) (log, A) =
    (let A1 = (if drop per ?q = [] then C else D)
     in if asched A1 (ArbList a) = Some [] then Some (?log, A1) else adispatch_loop fuel a per (arun accept a) (?log, A1))"
    using step Suc.prems(6) S by (simp add: B_def Let_def del: adispatch_group.simps)
  show ?case
  proof (cases "drop per ?q = []")
    case True
    have sum: "(\<Sum>x\<leftarrow>T. length (aq C x)) \<le> fuel"
    proof -
      have "(\<Sum>x\<leftarrow>T. length (aq C x)) = (\<Sum>x\<leftarrow>T. length (aq A x))"
        using gT q by (intro arg_cong [where f = sum_list] map_cong) auto
      also have "\<dots> \<le> fuel" using Suc.prems(7) S ne by (cases ?q) auto
      finally show ?thesis .
    qed
    show ?thesis
    proof (cases "T = []")
      case Tn: True
      have "aq C = (\<lambda>g'. if g' \<in> set S then [] else aq A g')" using True S Tn q by auto
      moreover have C: "asched C = [ArbList a \<mapsto> [], ReschedList a \<mapsto> []]" using asB asC Tn by simp
      moreover have "adispatch_loop (Suc fuel) a per (arun accept a) (log, A) = Some (log @ round_robin per S (aq A), C)"
        unfolding loop using True S Tn Suc.prems(4) ne C by simp
      ultimately show ?thesis using cur(2) by blast
    next
      case False
      have neT: "\<And>x. x \<in> set T \<Longrightarrow> aq C x \<noteq> []" and distT: "distinct T"
        using Suc.prems(1,2) S gT q by auto
      obtain A' where A': "adispatch_loop fuel a per (arun accept a) (?log, C) = Some (?log @ round_robin per T (aq C), A')"
        "asched A' = [ArbList a \<mapsto> [], ReschedList a \<mapsto> []]" "acur A' = (\<lambda>_. None)"
        "aq A' = (\<lambda>g. if g \<in> set T then [] else aq C g)"
        using Suc.IH [OF neT distT cur(2) Suc.prems(4) False asC [unfolded asB] sum, of ?log] by blast
      have "aq A' = (\<lambda>g'. if g' \<in> set S then [] else aq A g')" using A'(4) True S q by auto
      moreover have "adispatch_loop (Suc fuel) a per (arun accept a) (log, A) = Some (log @ round_robin per S (aq A), A')"
        unfolding loop using True S False asB asC A'(1) Suc.prems(4) ne q by (simp add: Let_def)
      ultimately show ?thesis using A'(2,3) by blast
    qed
  next
    case False
    have sum: "(\<Sum>x\<leftarrow>T @ [g]. length (aq D x)) \<le> fuel"
    proof -
      have "(\<Sum>x\<leftarrow>T. length (aq D x)) = (\<Sum>x\<leftarrow>T. length (aq A x))"
        using gT q by (intro arg_cong [where f = sum_list] map_cong) auto
      then have "(\<Sum>x\<leftarrow>T @ [g]. length (aq D x)) = (\<Sum>x\<leftarrow>T. length (aq A x)) + (length ?q - per)" using q by simp
      also have "\<dots> \<le> fuel" using Suc.prems(4,7) S ne by (cases per; cases ?q) auto
      finally show ?thesis .
    qed
    have neT: "\<And>x. x \<in> set (T @ [g]) \<Longrightarrow> aq D x \<noteq> []" and distT: "distinct (T @ [g])"
      using Suc.prems(1,2) S gT q False by auto
    obtain A' where A': "adispatch_loop fuel a per (arun accept a) (?log, D) = Some (?log @ round_robin per (T @ [g]) (aq D), A')"
      "asched A' = [ArbList a \<mapsto> [], ReschedList a \<mapsto> []]" "acur A' = (\<lambda>_. None)"
      "aq A' = (\<lambda>g'. if g' \<in> set (T @ [g]) then [] else aq D g')"
      using Suc.IH [OF neT distT cur(3) Suc.prems(4) _ asD sum, of ?log] by blast
    have "aq A' = (\<lambda>g'. if g' \<in> set S then [] else aq A g')" using A'(4) S q by auto
    moreover have "adispatch_loop (Suc fuel) a per (arun accept a) (log, A) = Some (log @ round_robin per S (aq A), A')"
      unfolding loop using False S asD A'(1) Suc.prems(4) ne q by (simp add: Let_def)
    ultimately show ?thesis using A'(2,3) by blast
  qed
qed

section \<open>Properties\<close>

text \<open>A fresh arbiter: no element is queued and no group scheduled.\<close>

definition blank_arb :: "('a, 'g, 'e) arb" where
  "blank_arb = \<lparr>alinks = \<lparr>lprev = (\<lambda>_. None), lnext = (\<lambda>_. None)\<rparr>, enext = (\<lambda>_. None), egroup = (\<lambda>_. None),
     gtail = (\<lambda>_. None), gguard = (\<lambda>_. 0), garbiter = (\<lambda>_. None)\<rparr>"

definition ablank :: "'a \<Rightarrow> ('a, 'g, 'e) aarb" where
  "ablank a = \<lparr>aq = (\<lambda>_. []), asched = [ArbList a \<mapsto> []], acur = (\<lambda>_. None)\<rparr>"

lemma blank_arep: "arep (ucs_arbiter_init a blank_arb) (ablank a)"
proof -
  have R: "rings_of (ablank a :: ('a, 'g, 'e) aarb) = (\<lambda>_. [])" by (simp add: rings_of_def ablank_def)
  have "links_ok (alinks (blank_arb :: ('a, 'g, 'e) arb)) (\<lambda>_. []) (\<lambda>_. None)"
    by (simp add: links_ok_def)
  from links_init [OF this, of "ArbList a"]
  have "links_ok (alinks (ucs_arbiter_init a (blank_arb :: ('a, 'g, 'e) arb))) (\<lambda>_. []) [ArbList a \<mapsto> []]"
    by (simp add: ucs_arbiter_init_def)
  moreover have "elems_ok (ucs_arbiter_init a (blank_arb :: ('a, 'g, 'e) arb)) (\<lambda>_. [])"
    by (simp add: elems_ok_def rings_disjoint_def ucs_arbiter_init_def blank_arb_def)
  moreover have "arbs_ok (garbiter (ucs_arbiter_init a (blank_arb :: ('a, 'g, 'e) arb))) [ArbList a \<mapsto> []]"
    by (simp add: arbs_ok_def2)
  ultimately show ?thesis
    unfolding arep_def arb_rep_def R by (simp add: ablank_def ucs_arbiter_init_def blank_arb_def)
qed

text \<open>Pushing and scheduling from outside a dispatch.\<close>

lemma actions_arep:
  assumes "arep st A" "asched A (ArbList a) \<noteq> None" "only_arb a (asched A)"
  shows "\<exists>st'. run_actions a acts st = Some st' \<and> arep st' (fold (aaction a) acts A)"
  using assms
proof (induction acts arbitrary: st A)
  case (Cons x acts)
  have "\<exists>st1. run_action a x st = Some st1 \<and> arep st1 (aaction a x A)"
  proof (cases x)
    case (Sched g)
    then show ?thesis using sched_action [OF Cons.prems, of g] by auto
  qed (use push_action [OF Cons.prems(1)] in simp)
  moreover have "asched (aaction a x A) (ArbList a) \<noteq> None" "only_arb a (asched (aaction a x A))"
    using Cons.prems by (cases x; simp add: apush_def aschedule_def del: not_None_eq)+
  ultimately show ?case using Cons.IH by fastforce
qed simp


text \<open>The witnesses use two groups with three elements, built with the code's own operations.\<close>

definition demo :: "(nat, nat) cb_action list" where
  "demo = [Push 1 10, Push 1 11, Push 2 20, Sched 1, Sched 2]"

definition ademo :: "(nat, nat, nat) aarb" where
  "ademo = \<lparr>aq = (\<lambda>_. [])(1 := [10, 11], 2 := [20]), asched = [ArbList 0 \<mapsto> [1, 2]], acur = (\<lambda>_. None)\<rparr>"

lemma demo_ademo: "fold (aaction 0) demo (ablank 0) = ademo"
  by (auto simp: demo_def ademo_def ablank_def apush_def aschedule_def set_aq_def on_sched_def sched_tail_def
      scheduled_def fun_eq_iff)

lemma demo_rep: "\<exists>st. run_actions 0 demo (ucs_arbiter_init 0 blank_arb) = Some st \<and> arep st ademo"
proof -
  have "asched (ablank (0 :: nat)) (ArbList 0) \<noteq> None" "only_arb 0 (asched (ablank (0 :: nat)))"
    by (auto simp: ablank_def only_arb_def split: if_splits)
  from actions_arep [OF blank_arep this, of demo] show ?thesis by (simp add: demo_ademo)
qed


text \<open>C7: Fair, in-order and complete service. When the callback accepts every element, a dispatch returns
  within as many steps as there are queued elements, and has served the scheduled groups round robin,
  \<open>per_group\<close> elements at a time, each group in queue order; nothing is left on the arbiter, the
  scheduled groups are empty and the unscheduled ones untouched.\<close>

theorem arbiter_round_robin:
  assumes rep: "arep st A" and cur: "acur A = (\<lambda>_. None)" and S: "asched A = [ArbList a \<mapsto> S]" and per: "0 < per_group"
    and fuel: "(\<Sum>g\<leftarrow>S. length (aq A g)) \<le> fuel"
  shows "\<exists>st' A'. ucs_arbiter_dispatch fuel a per_group (run_cb accept) (log, st) =
      Some (log @ round_robin per_group S (aq A), st') \<and> arep st' A' \<and> asched A' = [ArbList a \<mapsto> []] \<and>
      aq A' = (\<lambda>g. if g \<in> set S then [] else aq A g)"
proof -
  have lk: "links_ok (alinks st) (rings_of A) (asched A)" using rep by (simp add: arep_def arb_rep_def)
  have "asched A (ArbList a) = Some S" using S by simp
  then have l: "is_list (alinks st) (LHead (ArbList a)) (head_links (rings_of A) S)" "\<And>g. g \<in> set S \<Longrightarrow> rings_of A g \<noteq> []"
    using links_okD(1,2) [OF lk] by blast+
  then have d: "distinct S" "\<And>g. g \<in> set S \<Longrightarrow> aq A g \<noteq> []"
    using cur by (auto simp: is_list_def head_links_def rings_of_empty distinct_map)
  have "\<exists>A'. adispatch fuel a per_group (arun accept a) (log, A) = Some (log @ round_robin per_group S (aq A), A') \<and>
      asched A' = [ArbList a \<mapsto> []] \<and> aq A' = (\<lambda>g. if g \<in> set S then [] else aq A g)"
  proof (cases "S = []")
    case True
    then show ?thesis using S by (simp add: adispatch_def fun_eq_iff)
  next
    case False
    define B where "B = on_sched (set_sched (ReschedList a) []) A"
    have B: "asched B = [ArbList a \<mapsto> S, ReschedList a \<mapsto> []]" "aq B = aq A" "acur B = (\<lambda>_. None)"
      using S cur by (auto simp: B_def set_sched_def)
    obtain A' where A': "adispatch_loop fuel a per_group (arun accept a) (log, B) = Some (log @ round_robin per_group S (aq A), A')"
      "asched A' = [ArbList a \<mapsto> [], ReschedList a \<mapsto> []]" "aq A' = (\<lambda>g. if g \<in> set S then [] else aq A g)"
      using accept_loop [OF _ d(1) B(3) per False B(1), unfolded B(2), OF d(2) fuel, of log] by blast
    have "asched (on_sched (splice_resched a) A') = [ArbList a \<mapsto> []]"
      using A'(2) by (auto simp: splice_resched_def fun_eq_iff)
    moreover have "adispatch fuel a per_group (arun accept a) (log, A) =
        Some (log @ round_robin per_group S (aq A), on_sched (splice_resched a) A')"
      using A'(1) S False by (simp add: adispatch_def B_def)
    ultimately show ?thesis using A'(3) by fastforce
  qed
  then obtain A' where A': "adispatch fuel a per_group (arun accept a) (log, A) = Some (log @ round_robin per_group S (aq A), A')"
    "asched A' = [ArbList a \<mapsto> []]" "aq A' = (\<lambda>g. if g \<in> set S then [] else aq A g)" by blast
  have "only_arb a (asched A)" "asched A (ArbList a) \<noteq> None" "asched A (ReschedList a) = None"
    using S by (auto simp: only_arb_def split: if_splits)
  with scripted.dispatch_refines [OF rep cur, of a fuel per_group accept log] A' show ?thesis by auto
qed

theorem arbiter_round_robin_witness:
  "\<exists>st st' (A' :: (nat, nat, nat) aarb). run_actions 0 demo (ucs_arbiter_init 0 blank_arb) = Some st \<and>
    ucs_arbiter_dispatch 3 0 1 (run_cb accept) ([], st) = Some ([(1, 10), (2, 20), (1, 11)], st') \<and>
    arep st' A' \<and> asched A' = [ArbList 0 \<mapsto> []]"
proof -
  obtain st where st: "run_actions 0 demo (ucs_arbiter_init 0 blank_arb) = Some st" "arep st ademo" using demo_rep by blast
  have rr: "round_robin 1 [1, 2] (aq ademo) = [(1, 10), (2, 20), (1, 11)]" by (simp add: ademo_def)
  have "acur ademo = (\<lambda>_. None)" "asched ademo = [ArbList 0 \<mapsto> [1, 2]]" "(\<Sum>g\<leftarrow>[1, 2]. length (aq ademo g)) \<le> 3"
    by (simp_all add: ademo_def)
  from arbiter_round_robin [OF st(2) this(1,2) zero_less_one this(3), of "[]", unfolded rr] st(1)
  show ?thesis by (elim exE conjE, intro exI conjI) (assumption | simp only: append_Nil)+
qed

end
