(* ===== verification/Ptr_Array.thy ===== *)
theory Ptr_Array
  imports Prelude
begin

text \<open>
  \<^verbatim>\<open>src/src/ucs/datastruct/ptr_array.c\<close> and \<^verbatim>\<open>ptr_array.h\<close>: a sparse array of pointers
  with a free list threaded through the unused slots. A slot is a 64-bit word; the lowest bit marks
  a free slot, whose other bits hold the index of the next free slot and the number of consecutive
  free slots from here (used to skip over gaps when iterating).
\<close>

section \<open>Slots\<close>

definition UCS_PTR_ARRAY_FLAG_FREE :: u64 where
  "UCS_PTR_ARRAY_FLAG_FREE = 1"

definition UCS_PTR_ARRAY_NEXT_MASK :: u64 where
  "UCS_PTR_ARRAY_NEXT_MASK = mask 32 AND NOT (mask 1)"

definition UCS_PTR_ARRAY_SENTINEL :: nat where
  "UCS_PTR_ARRAY_SENTINEL = unat (drop_bit 1 UCS_PTR_ARRAY_NEXT_MASK)"

definition ptr_is_free :: "u64 \<Rightarrow> bool" where
  "ptr_is_free elem \<longleftrightarrow> elem AND UCS_PTR_ARRAY_FLAG_FREE \<noteq> 0"

definition ucs_ptr_array_size_free_get_free_ahead :: "u64 \<Rightarrow> nat option" where
  "ucs_ptr_array_size_free_get_free_ahead elem = do {
     ucs_assert (ptr_is_free elem);
     Some (w32 (unat (drop_bit 32 elem)))
   }"

definition ucs_ptr_array_freelist_get_next :: "u64 \<Rightarrow> nat option" where
  "ucs_ptr_array_freelist_get_next elem = do {
     ucs_assert (ptr_is_free elem);
     Some (w32 (unat (drop_bit 1 (elem AND UCS_PTR_ARRAY_NEXT_MASK))))
   }"

definition ucs_ptr_array_freelist_set_next :: "u64 \<Rightarrow> nat \<Rightarrow> u64 option" where
  "ucs_ptr_array_freelist_set_next elem next = do {
     ucs_assert (next \<le> unat UCS_PTR_ARRAY_NEXT_MASK);
     Some ((elem AND NOT UCS_PTR_ARRAY_NEXT_MASK) OR push_bit 1 (of_nat next))
   }"

definition ucs_ptr_array_freelist_element_set :: "nat \<Rightarrow> nat \<Rightarrow> u64 option" where
  "ucs_ptr_array_freelist_element_set free_ahead next = do {
     ucs_assert (next \<le> unat UCS_PTR_ARRAY_NEXT_MASK);
     Some (UCS_PTR_ARRAY_FLAG_FREE OR push_bit 32 (of_nat free_ahead) OR push_bit 1 (of_nat next))
   }"

definition ucs_ptr_array_freelist_element_set_free_ahead :: "u64 \<Rightarrow> nat \<Rightarrow> u64 option" where
  "ucs_ptr_array_freelist_element_set_free_ahead elem free_ahead = do {
     next \<leftarrow> ucs_ptr_array_freelist_get_next elem;
     ucs_ptr_array_freelist_element_set free_ahead next
   }"

section \<open>Operations\<close>

record ucs_ptr_array =
  start :: "u64 list"
  freelist :: nat
  arr_size :: nat
  arr_count :: nat

definition ucs_ptr_array_is_free :: "ucs_ptr_array \<Rightarrow> nat \<Rightarrow> bool option" where
  "ucs_ptr_array_is_free pa i =
     (if i < arr_size pa then do { e \<leftarrow> arr_get (start pa) i; Some (ptr_is_free e) } else Some False)"

definition ucs_ptr_array_clear :: "ucs_ptr_array \<Rightarrow> ucs_ptr_array" where
  "ucs_ptr_array_clear pa =
     pa\<lparr>start := [], arr_size := 0, arr_count := 0, freelist := UCS_PTR_ARRAY_SENTINEL\<rparr>"

definition ucs_ptr_array_init :: "ucs_ptr_array \<Rightarrow> ucs_ptr_array" where
  "ucs_ptr_array_init pa = ucs_ptr_array_clear pa"

definition ucs_ptr_array_cleanup :: "ucs_ptr_array \<Rightarrow> ucs_ptr_array" where
  "ucs_ptr_array_cleanup pa = ucs_ptr_array_clear pa"

text \<open>Linking the new slots of a grown array, one at a time.\<close>

fun grow_link :: "nat list \<Rightarrow> nat \<Rightarrow> u64 list \<Rightarrow> u64 list option" where
  "grow_link [] new_size arr = Some arr"
| "grow_link (i # is) new_size arr = do {
     e \<leftarrow> ucs_ptr_array_freelist_element_set (new_size - i) (i + 1);
     arr1 \<leftarrow> arr_set arr i e;
     grow_link is new_size arr1
   }"

text \<open>The last slot of the free list. The list visits a slot at most once, so the size of the array
  bounds the walk; a cyclic list is \<open>None\<close>.\<close>

fun freelist_last :: "nat \<Rightarrow> nat \<Rightarrow> u64 list \<Rightarrow> nat option" where
  "freelist_last 0 i arr = None"
| "freelist_last (Suc n) i arr = do {
     e \<leftarrow> arr_get arr i;
     next \<leftarrow> ucs_ptr_array_freelist_get_next e;
     if next \<noteq> UCS_PTR_ARRAY_SENTINEL then freelist_last n next arr else Some i
   }"

definition ucs_ptr_array_grow :: "ucs_ptr_array \<Rightarrow> nat \<Rightarrow> ucs_ptr_array option" where
  "ucs_ptr_array_grow pa new_size = do {
     let curr_size = arr_size pa;
     let new_array = take curr_size (start pa) @ replicate (new_size - curr_size) 0;
     arr1 \<leftarrow> grow_link [curr_size..<new_size] new_size new_array;
     e \<leftarrow> arr_get arr1 (new_size - 1);
     e' \<leftarrow> ucs_ptr_array_freelist_set_next e UCS_PTR_ARRAY_SENTINEL;
     arr2 \<leftarrow> arr_set arr1 (new_size - 1) e';
     (fl, arr3) \<leftarrow>
       (if freelist pa = UCS_PTR_ARRAY_SENTINEL then Some (curr_size, arr2)
        else do {
          i \<leftarrow> freelist_last new_size (freelist pa) arr2;
          l \<leftarrow> arr_get arr2 i;
          l' \<leftarrow> ucs_ptr_array_freelist_set_next l curr_size;
          arr3 \<leftarrow> arr_set arr2 i l';
          Some (freelist pa, arr3)
        });
     Some (pa\<lparr>start := arr3, freelist := fl, arr_size := new_size\<rparr>)
   }"

fun find_prev :: "nat \<Rightarrow> nat \<Rightarrow> nat \<Rightarrow> u64 list \<Rightarrow> nat option" where
  "find_prev 0 element_index free_iter arr = None"
| "find_prev (Suc n) element_index free_iter arr = do {
     e \<leftarrow> arr_get arr free_iter;
     next \<leftarrow> ucs_ptr_array_freelist_get_next e;
     if element_index \<noteq> next then do {
       ucs_assert (next \<noteq> UCS_PTR_ARRAY_SENTINEL);
       find_prev n element_index next arr
     } else Some free_iter
   }"

fun update_free_ahead :: "nat \<Rightarrow> nat \<Rightarrow> u64 list \<Rightarrow> u64 list option" where
  "update_free_ahead 0 free_ahead arr = Some arr"
| "update_free_ahead (Suc i) free_ahead arr = do {
     e \<leftarrow> arr_get arr i;
     if ptr_is_free e then do {
       e' \<leftarrow> ucs_ptr_array_freelist_element_set_free_ahead e free_ahead;
       update_free_ahead i (free_ahead + 1) (arr[i := e'])
     } else Some arr
   }"

definition ucs_ptr_array_set :: "ucs_ptr_array \<Rightarrow> nat \<Rightarrow> u64 \<Rightarrow> ucs_ptr_array option" where
  "ucs_ptr_array_set pa element_index new_val = do {
     ucs_assert (new_val AND UCS_PTR_ARRAY_FLAG_FREE = 0);
     if element_index < arr_size pa \<and> \<not> ptr_is_free (start pa ! element_index) then do {
       arr \<leftarrow> arr_set (start pa) element_index new_val;
       Some (pa\<lparr>start := arr\<rparr>)
     } else do {
       pa1 \<leftarrow> (if element_index \<ge> arr_size pa
               then ucs_ptr_array_grow pa (max (w32 (arr_size pa * 2)) (w32 (element_index + 1)))
               else Some pa);
       e \<leftarrow> arr_get (start pa1) element_index;
       next \<leftarrow> ucs_ptr_array_freelist_get_next e;
       arr1 \<leftarrow> arr_set (start pa1) element_index new_val;
       (fl, arr2) \<leftarrow>
         (if freelist pa1 = element_index then Some (next, arr1)
          else do {
            i \<leftarrow> find_prev (arr_size pa1) element_index (freelist pa1) arr1;
            l \<leftarrow> arr_get arr1 i;
            l' \<leftarrow> ucs_ptr_array_freelist_set_next l next;
            arr2 \<leftarrow> arr_set arr1 i l';
            Some (freelist pa1, arr2)
          });
       arr3 \<leftarrow> update_free_ahead element_index 1 arr2;
       Some (pa1\<lparr>start := arr3, freelist := fl, arr_count := w32 (arr_count pa1 + 1)\<rparr>)
     }
   }"

text \<open>The search for \<open>element_count\<close> free slots in a row, starting from each slot of the free list.\<close>

fun count_free :: "nat \<Rightarrow> ucs_ptr_array \<Rightarrow> nat \<Rightarrow> nat \<Rightarrow> nat \<Rightarrow> nat option" where
  "count_free 0 pa element_index element_count free_iter = Some free_iter"
| "count_free (Suc n) pa element_index element_count free_iter =
     (if free_iter < element_count then do {
        f \<leftarrow> ucs_ptr_array_is_free pa (w32 (element_index + free_iter));
        if f then count_free n pa element_index element_count (free_iter + 1) else Some free_iter
      } else Some free_iter)"

fun find_run :: "nat \<Rightarrow> ucs_ptr_array \<Rightarrow> nat \<Rightarrow> nat \<Rightarrow> nat option option" where
  "find_run 0 pa element_index element_count = None"
| "find_run (Suc n) pa element_index element_count = do {
     free_iter \<leftarrow> count_free element_count pa element_index element_count 1;
     if free_iter = element_count then Some (Some element_index)
     else do {
       e \<leftarrow> arr_get (start pa) element_index;
       next \<leftarrow> ucs_ptr_array_freelist_get_next (take_bit 32 e);
       if next \<noteq> UCS_PTR_ARRAY_SENTINEL then find_run n pa next element_count else Some None
     }
   }"

fun set_zero :: "nat list \<Rightarrow> nat \<Rightarrow> ucs_ptr_array \<Rightarrow> ucs_ptr_array option" where
  "set_zero [] element_index pa = Some pa"
| "set_zero (i # is) element_index pa = do {
     pa1 \<leftarrow> ucs_ptr_array_set pa (w32 (element_index + i)) 0;
     set_zero is element_index pa1
   }"

definition ucs_ptr_array_bulk_alloc :: "ucs_ptr_array \<Rightarrow> nat \<Rightarrow> (nat \<times> ucs_ptr_array) option" where
  "ucs_ptr_array_bulk_alloc pa element_count =
     (if element_count = 0 then Some (0, pa)
      else do {
        found \<leftarrow> (if freelist pa = UCS_PTR_ARRAY_SENTINEL then Some None
                  else find_run (arr_size pa) pa (freelist pa) element_count);
        (element_index, pa1) \<leftarrow>
          (case found of
             Some i \<Rightarrow> Some (i, pa)
           | None \<Rightarrow> do {
               let new_size = max (w32 (2 * arr_size pa)) (w32 (arr_size pa + element_count));
               pa1 \<leftarrow> ucs_ptr_array_grow pa new_size;
               Some (arr_size pa, pa1)
             });
        pa2 \<leftarrow> set_zero [0..<element_count] element_index pa1;
        Some (element_index, pa2)
      })"

definition ucs_ptr_array_insert :: "ucs_ptr_array \<Rightarrow> u64 \<Rightarrow> (nat \<times> ucs_ptr_array) option" where
  "ucs_ptr_array_insert pa value = do {
     (ret, pa1) \<leftarrow> ucs_ptr_array_bulk_alloc pa 1;
     ucs_assert (value AND UCS_PTR_ARRAY_FLAG_FREE = 0);
     arr \<leftarrow> arr_set (start pa1) ret value;
     Some (ret, pa1\<lparr>start := arr\<rparr>)
   }"

definition ucs_ptr_array_remove :: "ucs_ptr_array \<Rightarrow> nat \<Rightarrow> ucs_ptr_array option" where
  "ucs_ptr_array_remove pa element_index = do {
     f \<leftarrow> ucs_ptr_array_is_free pa element_index;
     ucs_assert (\<not> f);
     ucs_assert (arr_count pa > 0);
     f1 \<leftarrow> ucs_ptr_array_is_free pa (w32 (element_index + 1));
     size_free_ahead \<leftarrow>
       (if f1 then do {
          next_elem \<leftarrow> arr_get (start pa) (element_index + 1);
          fa \<leftarrow> ucs_ptr_array_size_free_get_free_ahead next_elem;
          Some (w32 (fa + 1))
        } else Some 1);
     e \<leftarrow> ucs_ptr_array_freelist_element_set size_free_ahead (freelist pa);
     arr \<leftarrow> arr_set (start pa) element_index e;
     l \<leftarrow> arr_get arr (w32 (element_index + size_free_ahead - 1));
     ucs_assert (ptr_is_free l);
     Some (pa\<lparr>start := arr, freelist := element_index, arr_count := arr_count pa - 1\<rparr>)
   }"

definition ucs_ptr_array_replace :: "ucs_ptr_array \<Rightarrow> nat \<Rightarrow> u64 \<Rightarrow> (u64 \<times> ucs_ptr_array) option" where
  "ucs_ptr_array_replace pa element_index new_val = do {
     f \<leftarrow> ucs_ptr_array_is_free pa element_index;
     ucs_assert (\<not> f);
     old_elem \<leftarrow> arr_get (start pa) element_index;
     arr \<leftarrow> arr_set (start pa) element_index new_val;
     Some (old_elem, pa\<lparr>start := arr\<rparr>)
   }"

definition ucs_ptr_array_get_elem_count :: "ucs_ptr_array \<Rightarrow> nat" where
  "ucs_ptr_array_get_elem_count pa = arr_count pa"

definition ucs_ptr_array_is_empty :: "ucs_ptr_array \<Rightarrow> bool" where
  "ucs_ptr_array_is_empty pa \<longleftrightarrow> arr_count pa = 0"

definition ucs_ptr_array_lookup :: "ucs_ptr_array \<Rightarrow> nat \<Rightarrow> u64 option option" where
  "ucs_ptr_array_lookup pa i =
     (if i \<ge> arr_size pa then Some None
      else do { e \<leftarrow> arr_get (start pa) i; Some (if ptr_is_free e then None else Some e) })"

definition ptr_array_step_size :: "ucs_ptr_array \<Rightarrow> nat \<Rightarrow> nat option" where
  "ptr_array_step_size pa i = do {
     elem \<leftarrow> arr_get (start pa) i;
     Some (if ptr_is_free elem then w32 (unat (drop_bit 32 elem)) else 1)
   }"

fun for_each_index :: "nat \<Rightarrow> ucs_ptr_array \<Rightarrow> nat \<Rightarrow> (nat \<times> u64) list option" where
  "for_each_index 0 pa i = None"
| "for_each_index (Suc n) pa i =
     (if i < arr_size pa then do {
        e \<leftarrow> arr_get (start pa) i;
        step \<leftarrow> ptr_array_step_size pa i;
        rest \<leftarrow> for_each_index n pa (w32 (i + step));
        Some (if ptr_is_free e then rest else (i, e) # rest)
      } else Some [])"

definition ucs_ptr_array_for_each :: "ucs_ptr_array \<Rightarrow> (nat \<times> u64) list option" where
  "ucs_ptr_array_for_each pa = for_each_index (Suc (arr_size pa)) pa 0"

section \<open>Fields of a free slot\<close>

definition slot_next :: "u64 \<Rightarrow> nat" where
  "slot_next e = unat (drop_bit 1 (e AND UCS_PTR_ARRAY_NEXT_MASK))"

definition slot_ahead :: "u64 \<Rightarrow> nat" where
  "slot_ahead e = unat (drop_bit 32 e)"

lemma bit_next_mask: "bit UCS_PTR_ARRAY_NEXT_MASK n \<longleftrightarrow> 1 \<le> n \<and> n < 32"
  by (auto simp: UCS_PTR_ARRAY_NEXT_MASK_def bit_simps)

lemma sentinel: "UCS_PTR_ARRAY_SENTINEL = 2 ^ 31 - 1"
  by (simp add: UCS_PTR_ARRAY_SENTINEL_def UCS_PTR_ARRAY_NEXT_MASK_def mask_eq_exp_minus_1 drop_bit_eq_div unat_div)

lemma next_mask: "unat UCS_PTR_ARRAY_NEXT_MASK = 2 ^ 32 - 2"
  by (simp add: UCS_PTR_ARRAY_NEXT_MASK_def mask_eq_exp_minus_1)

lemma ptr_is_free_bit: "ptr_is_free e \<longleftrightarrow> bit e 0"
  by (simp add: ptr_is_free_def UCS_PTR_ARRAY_FLAG_FREE_def and_one_eq bit_0 odd_iff_mod_2_eq_one)

lemma bit_of_nat_ge: "n < 2 ^ k \<Longrightarrow> k \<le> i \<Longrightarrow> \<not> bit (of_nat n :: u64) i"
proof -
  assume "n < 2 ^ k" "k \<le> i"
  then have "n < 2 ^ i" by (meson less_le_trans one_le_numeral power_increasing)
  then have "\<not> bit n i" by (simp add: bit_iff_odd)
  then show ?thesis by (simp add: bit_of_nat_iff)
qed

lemma slot_next_less: "slot_next e < 2 ^ 31"
proof -
  have "drop_bit 1 (e AND UCS_PTR_ARRAY_NEXT_MASK) = take_bit 31 (drop_bit 1 e)"
    by (rule bit_word_eqI) (auto simp: bit_simps bit_next_mask)
  then show ?thesis unfolding slot_next_def by (simp only: unsigned_take_bit_eq take_bit_nat_less_exp)
qed

lemma slot_ahead_less: "slot_ahead e < 2 ^ 32"
proof -
  have "drop_bit 32 e = take_bit 32 (drop_bit 32 e)"
    by (rule bit_word_eqI) (auto simp: bit_simps dest: bit_imp_le_length)
  then have "slot_ahead e = unat (take_bit 32 (drop_bit 32 e))" by (simp add: slot_ahead_def)
  then show ?thesis by (simp only: unsigned_take_bit_eq take_bit_nat_less_exp)
qed

lemma get_next_eq [simp]: "ptr_is_free e \<Longrightarrow> ucs_ptr_array_freelist_get_next e = Some (slot_next e)"
  using slot_next_less [of e] by (simp add: ucs_ptr_array_freelist_get_next_def slot_next_def)

lemma get_ahead_eq [simp]: "ptr_is_free e \<Longrightarrow> ucs_ptr_array_size_free_get_free_ahead e = Some (slot_ahead e)"
  using slot_ahead_less [of e] by (simp add: ucs_ptr_array_size_free_get_free_ahead_def slot_ahead_def)

lemma unat_of_nat_64: "n < 2 ^ k \<Longrightarrow> k \<le> 64 \<Longrightarrow> unat (of_nat n :: u64) = n"
proof -
  assume "n < 2 ^ k" "k \<le> 64"
  then have "n < 2 ^ 64" by (meson less_le_trans one_le_numeral power_increasing)
  then show ?thesis by (simp add: unat_of_nat)
qed

lemma bit_element:
  "bit (1 OR push_bit 32 y OR push_bit 1 x :: u64) i \<longleftrightarrow>
     i = 0 \<or> (32 \<le> i \<and> i < 64 \<and> bit y (i - 32)) \<or> (1 \<le> i \<and> i < 64 \<and> bit x (i - 1))"
  unfolding bit_or_iff bit_push_bit_iff by (simp add: bit_1_iff)

lemma bit_relinked:
  "bit ((e AND NOT UCS_PTR_ARRAY_NEXT_MASK) OR push_bit 1 x :: u64) i \<longleftrightarrow>
     (bit e i \<and> \<not> (1 \<le> i \<and> i < 32)) \<or> (1 \<le> i \<and> i < 64 \<and> bit x (i - 1))"
  unfolding bit_or_iff bit_push_bit_iff bit_and_iff bit_not_iff bit_next_mask
  using bit_imp_le_length [of e i] by auto

lemma slot_nextI:
  assumes "nx < 2 ^ 31" "\<And>i. i < 31 \<Longrightarrow> bit e (Suc i) \<longleftrightarrow> bit (of_nat nx :: u64) i"
  shows "slot_next e = nx"
proof -
  have "drop_bit 1 (e AND UCS_PTR_ARRAY_NEXT_MASK) = of_nat nx"
  proof (rule bit_word_eqI)
    fix i :: nat
    show "bit (drop_bit 1 (e AND UCS_PTR_ARRAY_NEXT_MASK)) i = bit (of_nat nx :: u64) i"
      unfolding bit_drop_bit_eq comp_def bit_and_iff bit_next_mask
      using assms(2) [of i] bit_of_nat_ge [OF assms(1), of i] by (cases "i < 31") auto
  qed
  then show ?thesis using unat_of_nat_64 [OF assms(1)] by (simp add: slot_next_def)
qed

lemma slot_ahead_eqI: "(\<And>i. 32 \<le> i \<Longrightarrow> bit e i \<longleftrightarrow> bit e' i) \<Longrightarrow> slot_ahead e = slot_ahead e'"
  unfolding slot_ahead_def by (rule arg_cong [where f = unat], rule bit_word_eqI) (simp add: bit_drop_bit_eq)

lemma element_set_correct:
  assumes "fa < 2 ^ 32" "nx < 2 ^ 31"
  shows "\<exists>e. ucs_ptr_array_freelist_element_set fa nx = Some e \<and> ptr_is_free e \<and> slot_next e = nx \<and> slot_ahead e = fa"
proof -
  let ?e = "1 OR push_bit 32 (of_nat fa) OR push_bit 1 (of_nat nx) :: u64"
  have "slot_next ?e = nx" by (rule slot_nextI [OF assms(2)]) (unfold bit_element, simp)
  moreover have "slot_ahead ?e = slot_ahead (push_bit 32 (of_nat fa))"
  proof (rule slot_ahead_eqI)
    fix i :: nat
    assume "32 \<le> i"
    then show "bit ?e i \<longleftrightarrow> bit (push_bit 32 (of_nat fa) :: u64) i"
      unfolding bit_element bit_push_bit_iff using bit_of_nat_ge [OF assms(2), of "i - 1"] by auto
  qed
  moreover have "slot_ahead (push_bit 32 (of_nat fa)) = fa"
  proof -
    have "drop_bit 32 (push_bit 32 (of_nat fa)) = (of_nat fa :: u64)"
    proof (rule bit_word_eqI)
      fix i :: nat
      show "bit (drop_bit 32 (push_bit 32 (of_nat fa)) :: u64) i = bit (of_nat fa :: u64) i"
        unfolding bit_drop_bit_eq comp_def bit_push_bit_iff using bit_of_nat_ge [OF assms(1), of i] by (cases "i < 32") auto
    qed
    then show ?thesis using unat_of_nat_64 [OF assms(1)] by (simp add: slot_ahead_def)
  qed
  moreover have "ptr_is_free ?e" unfolding ptr_is_free_bit bit_element by simp
  moreover have "ucs_ptr_array_freelist_element_set fa nx = Some ?e"
    using assms(2) by (simp add: ucs_ptr_array_freelist_element_set_def UCS_PTR_ARRAY_FLAG_FREE_def next_mask)
  ultimately show ?thesis by auto
qed

lemma set_next_correct:
  assumes "nx < 2 ^ 31" "ptr_is_free e"
  shows "\<exists>e'. ucs_ptr_array_freelist_set_next e nx = Some e' \<and> ptr_is_free e' \<and> slot_next e' = nx \<and> slot_ahead e' = slot_ahead e"
proof -
  let ?e = "(e AND NOT UCS_PTR_ARRAY_NEXT_MASK) OR push_bit 1 (of_nat nx) :: u64"
  have "slot_next ?e = nx" by (rule slot_nextI [OF assms(1)]) (unfold bit_relinked, simp)
  moreover have "slot_ahead ?e = slot_ahead e"
  proof (rule slot_ahead_eqI)
    fix i :: nat
    assume "32 \<le> i"
    then show "bit ?e i \<longleftrightarrow> bit e i"
      unfolding bit_relinked using bit_of_nat_ge [OF assms(1), of "i - 1"] by auto
  qed
  moreover have "ptr_is_free ?e" using assms(2) unfolding ptr_is_free_bit bit_relinked by simp
  moreover have "ucs_ptr_array_freelist_set_next e nx = Some ?e"
    using assms(1) by (simp add: ucs_ptr_array_freelist_set_next_def next_mask)
  ultimately show ?thesis by blast
qed

end
