(* ===== verification/Ptr_Array_Correct.thy ===== *)
theory Ptr_Array_Correct
  imports Ptr_Array
begin

text \<open>
  The sparse array is a finite map from indices to pointers: the free list holds every free slot
  once, the skip counts never jump over a used slot, and each operation does to the map what its
  documentation says.
\<close>

section \<open>The free list\<close>

abbreviation SENT :: nat where
  "SENT \<equiv> UCS_PTR_ARRAY_SENTINEL"

fun fseg :: "u64 list \<Rightarrow> nat \<Rightarrow> nat list \<Rightarrow> nat \<Rightarrow> bool" where
  "fseg arr h [] t \<longleftrightarrow> h = t"
| "fseg arr h (x # xs) t \<longleftrightarrow> h = x \<and> x < length arr \<and> ptr_is_free (arr ! x) \<and> fseg arr (slot_next (arr ! x)) xs t"

lemma fseg_append: "fseg arr h (xs @ ys) t \<longleftrightarrow> (\<exists>m. fseg arr h xs m \<and> fseg arr m ys t)"
  by (induction xs arbitrary: h) auto

lemma fseg_cong:
  assumes "fseg arr h xs t" "length arr \<le> length arr'"
    "\<And>x. x \<in> set xs \<Longrightarrow> ptr_is_free (arr' ! x) \<and> slot_next (arr' ! x) = slot_next (arr ! x)"
  shows "fseg arr' h xs t"
  using assms by (induction xs arbitrary: h) auto

lemma fseg_bound: "fseg arr h xs t \<Longrightarrow> x \<in> set xs \<Longrightarrow> x < length arr \<and> ptr_is_free (arr ! x)"
  by (induction xs arbitrary: h) auto

lemma fseg_update_other:
  assumes "fseg arr h xs t" "p \<notin> set xs"
  shows "fseg (arr[p := e]) h xs t"
proof (rule fseg_cong [OF assms(1)])
  fix x assume x: "x \<in> set xs"
  then have "p \<noteq> x" using assms(2) by auto
  then show "ptr_is_free (arr[p := e] ! x) \<and> slot_next (arr[p := e] ! x) = slot_next (arr ! x)"
    using fseg_bound [OF assms(1) x] by simp
qed simp

text \<open>Relinking the last slot of a segment.\<close>

lemma fseg_relink:
  assumes "fseg arr h (xs @ [p]) t" "distinct (xs @ [p])" "ptr_is_free e" "slot_next e = t'"
  shows "fseg (arr[p := e]) h (xs @ [p]) t'"
proof -
  obtain m where m: "fseg arr h xs m" "fseg arr m [p] t" using assms(1) fseg_append by blast
  have "fseg (arr[p := e]) h xs m"
    using fseg_update_other [OF m(1)] assms(2) by simp
  moreover have "fseg (arr[p := e]) m [p] t'" using m(2) assms(3,4) by auto
  ultimately show ?thesis using fseg_append by blast
qed

lemma freelist_last_correct:
  assumes "fseg arr h (xs @ [p]) SENT" "length arr \<le> SENT" "length (xs @ [p]) \<le> n"
  shows "freelist_last n h arr = Some p"
  using assms
proof (induction xs arbitrary: h n)
  case Nil
  then show ?case by (cases n) auto
next
  case (Cons x xs)
  then obtain k where k: "n = Suc k" by (cases n) auto
  have "slot_next (arr ! x) \<noteq> SENT"
    using Cons.prems(1,2) by (cases xs) auto
  then show ?case using Cons.IH [of "slot_next (arr ! x)" k] Cons.prems k by simp
qed

lemma find_prev_correct:
  assumes "fseg arr h (xs @ [p]) e" "length arr \<le> SENT" "length (xs @ [p]) \<le> n" "e \<notin> set (xs @ [p])"
  shows "find_prev n e h arr = Some p"
  using assms
proof (induction xs arbitrary: h n)
  case Nil
  then show ?case by (cases n) auto
next
  case (Cons x xs)
  then obtain k where k: "n = Suc k" by (cases n) auto
  have "slot_next (arr ! x) \<noteq> SENT" "slot_next (arr ! x) \<noteq> e"
    using Cons.prems by (cases xs; auto)+
  then show ?case using Cons.IH [of "slot_next (arr ! x)" k] Cons.prems k by auto
qed

section \<open>Skip counts\<close>

definition ahead_ok :: "u64 list \<Rightarrow> bool" where
  "ahead_ok arr \<longleftrightarrow> (\<forall>i < length arr. ptr_is_free (arr ! i) \<longrightarrow>
     1 \<le> slot_ahead (arr ! i) \<and> i + slot_ahead (arr ! i) \<le> length arr \<and>
     (\<forall>k < slot_ahead (arr ! i). ptr_is_free (arr ! (i + k))))"

text \<open>Two slots are the same for the free list and the user.\<close>

definition same_slot :: "u64 \<Rightarrow> u64 \<Rightarrow> bool" where
  "same_slot e e' \<longleftrightarrow> (if ptr_is_free e then ptr_is_free e' \<and> slot_next e' = slot_next e else e' = e)"

lemma same_slot_refl [simp]: "same_slot e e"
  by (simp add: same_slot_def)

lemma same_slot_free: "same_slot e e' \<Longrightarrow> ptr_is_free e' = ptr_is_free e"
  by (auto simp: same_slot_def split: if_splits)

lemma set_ahead_correct:
  assumes "ptr_is_free e" "fa < 2 ^ 32"
  shows "\<exists>e'. ucs_ptr_array_freelist_element_set_free_ahead e fa = Some e' \<and> same_slot e e' \<and> slot_ahead e' = fa"
  using element_set_correct [OF assms(2) slot_next_less [of e]] assms(1)
  by (auto simp: ucs_ptr_array_freelist_element_set_free_ahead_def same_slot_def)

lemma update_free_ahead_correct:
  assumes "i \<le> length arr" "fa + i < 2 ^ 32"
  shows "\<exists>arr' m. update_free_ahead i fa arr = Some arr' \<and> length arr' = length arr \<and> m \<le> i \<and>
    (\<forall>j < length arr. same_slot (arr ! j) (arr' ! j)) \<and>
    (\<forall>j. m \<le> j \<and> j < i \<longrightarrow> ptr_is_free (arr ! j) \<and> slot_ahead (arr' ! j) = fa + (i - 1 - j)) \<and>
    (\<forall>j < length arr. j < m \<or> i \<le> j \<longrightarrow> arr' ! j = arr ! j) \<and> (m = 0 \<or> \<not> ptr_is_free (arr ! (m - 1)))"
  using assms
proof (induction i arbitrary: fa arr)
  case 0
  then show ?case by (auto intro!: exI [of _ 0])
next
  case (Suc i)
  show ?case
  proof (cases "ptr_is_free (arr ! i)")
    case True
    obtain e' where e': "ucs_ptr_array_freelist_element_set_free_ahead (arr ! i) fa = Some e'"
      "same_slot (arr ! i) e'" "slot_ahead e' = fa"
      using set_ahead_correct [OF True, of fa] Suc.prems by auto
    let ?arr = "arr[i := e']"
    obtain arr' m where u: "update_free_ahead i (fa + 1) ?arr = Some arr'" "length arr' = length arr" "m \<le> i"
      "\<forall>j < length arr. same_slot (?arr ! j) (arr' ! j)"
      "\<forall>j. m \<le> j \<and> j < i \<longrightarrow> ptr_is_free (?arr ! j) \<and> slot_ahead (arr' ! j) = fa + 1 + (i - 1 - j)"
      "\<forall>j < length arr. j < m \<or> i \<le> j \<longrightarrow> arr' ! j = ?arr ! j" "m = 0 \<or> \<not> ptr_is_free (?arr ! (m - 1))"
    proof -
      have p: "i \<le> length ?arr" "fa + 1 + i < 2 ^ 32" using Suc.prems by simp_all
      show thesis using that Suc.IH [OF p] unfolding length_list_update by blast
    qed
    have fr: "ptr_is_free (?arr ! j) = ptr_is_free (arr ! j)" for j
      using same_slot_free [OF e'(2)] Suc.prems(1) by (simp add: nth_list_update)
    show ?thesis
    proof (intro exI [of _ arr'] exI [of _ m] conjI)
      show "update_free_ahead (Suc i) fa arr = Some arr'" using u(1) True e'(1) Suc.prems by simp
      show "\<forall>j < length arr. same_slot (arr ! j) (arr' ! j)"
      proof (intro allI impI)
        fix j assume "j < length arr"
        then show "same_slot (arr ! j) (arr' ! j)"
          using u(4,6) e'(2) by (cases "j = i") auto
      qed
      show "\<forall>j. m \<le> j \<and> j < Suc i \<longrightarrow> ptr_is_free (arr ! j) \<and> slot_ahead (arr' ! j) = fa + (Suc i - 1 - j)"
      proof (intro allI impI)
        fix j assume j: "m \<le> j \<and> j < Suc i"
        show "ptr_is_free (arr ! j) \<and> slot_ahead (arr' ! j) = fa + (Suc i - 1 - j)"
          using u(5,6) j fr [of j] True e'(3) Suc.prems(1) by (cases "j = i") auto
      qed
      show "\<forall>j < length arr. j < m \<or> Suc i \<le> j \<longrightarrow> arr' ! j = arr ! j"
        using u(3,6) by auto
      show "m = 0 \<or> \<not> ptr_is_free (arr ! (m - 1))" using u(7) fr by blast
    qed (use u in auto)
  next
    case False
    then show ?thesis using Suc.prems by (auto intro!: exI [of _ arr] exI [of _ "Suc i"])
  qed
qed

lemma ahead_ok_use:
  assumes ok: "ahead_ok arr" and e: "e < length arr" "\<not> ptr_is_free v"
    and arr1: "length arr1 = length arr" "\<And>j. j < length arr \<Longrightarrow> j \<noteq> e \<Longrightarrow> ptr_is_free (arr1 ! j) = ptr_is_free (arr ! j) \<and> (ptr_is_free (arr ! j) \<longrightarrow> slot_ahead (arr1 ! j) = slot_ahead (arr ! j))"
      "arr1 ! e = v" and b: "length arr < 2 ^ 32"
  shows "\<exists>arr'. update_free_ahead e 1 arr1 = Some arr' \<and> length arr' = length arr1 \<and>
    (\<forall>j < length arr. same_slot (arr1 ! j) (arr' ! j)) \<and> ahead_ok arr'"
proof -
  obtain arr' m where u: "update_free_ahead e 1 arr1 = Some arr'" "length arr' = length arr1" "m \<le> e"
    "\<forall>j < length arr1. same_slot (arr1 ! j) (arr' ! j)"
    "\<forall>j. m \<le> j \<and> j < e \<longrightarrow> ptr_is_free (arr1 ! j) \<and> slot_ahead (arr' ! j) = 1 + (e - 1 - j)"
    "\<forall>j < length arr1. j < m \<or> e \<le> j \<longrightarrow> arr' ! j = arr1 ! j" "m = 0 \<or> \<not> ptr_is_free (arr1 ! (m - 1))"
  proof -
    have p: "e \<le> length arr1" "1 + e < 2 ^ 32" using e(1) arr1(1) b by simp_all
    show thesis using that update_free_ahead_correct [OF p] by blast
  qed
  have fr: "ptr_is_free (arr' ! j) \<longleftrightarrow> j \<noteq> e \<and> ptr_is_free (arr ! j)" if "j < length arr" for j
    using that u(4) same_slot_free arr1 e(2) by (cases "j = e") auto
  have "ahead_ok arr'"
    unfolding ahead_ok_def
  proof (intro allI impI)
    fix i assume i: "i < length arr'" "ptr_is_free (arr' ! i)"
    then have i': "i < length arr" "i \<noteq> e" "ptr_is_free (arr ! i)" using fr u(2) arr1(1) by auto
    show "1 \<le> slot_ahead (arr' ! i) \<and> i + slot_ahead (arr' ! i) \<le> length arr' \<and>
      (\<forall>k < slot_ahead (arr' ! i). ptr_is_free (arr' ! (i + k)))"
    proof (cases "m \<le> i \<and> i < e")
      case True
      then have a: "slot_ahead (arr' ! i) = e - i" using u(5) by auto
      moreover have "ptr_is_free (arr' ! (i + k))" if "k < e - i" for k
        using u(4,5) True that e(1) arr1(1) same_slot_free [of "arr1 ! (i + k)" "arr' ! (i + k)"] by auto
      ultimately show ?thesis using True e(1) u(2) arr1(1) by auto
    next
      case False
      then have "arr' ! i = arr1 ! i" using u(6) i' arr1(1) by auto
      then have a: "slot_ahead (arr' ! i) = slot_ahead (arr ! i)" using arr1(2) i' by simp
      have o: "1 \<le> slot_ahead (arr ! i)" "i + slot_ahead (arr ! i) \<le> length arr"
        "\<And>k. k < slot_ahead (arr ! i) \<Longrightarrow> ptr_is_free (arr ! (i + k))"
        using ok i' unfolding ahead_ok_def by blast+
      have ne: "i + k \<noteq> e" if k: "k < slot_ahead (arr ! i)" for k
      proof
        assume ke: "i + k = e"
        then have im: "i < m" "m \<noteq> 0" using False i'(2) by auto
        then have "\<not> ptr_is_free (arr ! (m - 1))" using u(3,7) arr1(2) [of "m - 1"] e(1) by auto
        moreover have "ptr_is_free (arr ! (i + (m - 1 - i)))" using o(3) [of "m - 1 - i"] k ke im u(3) by simp
        ultimately show False using im by simp
      qed
      show ?thesis using a o ne fr u(2) arr1(1) by auto
    qed
  qed
  with u arr1(1) show ?thesis by auto
qed

section \<open>The invariant\<close>

definition pa_ok :: "ucs_ptr_array \<Rightarrow> nat list \<Rightarrow> bool" where
  "pa_ok pa fl \<longleftrightarrow> arr_size pa = length (start pa) \<and> length (start pa) \<le> SENT \<and>
     fseg (start pa) (freelist pa) fl SENT \<and> distinct fl \<and>
     set fl = {i. i < length (start pa) \<and> ptr_is_free (start pa ! i)} \<and>
     ahead_ok (start pa) \<and> arr_count pa + length fl = length (start pa)"

text \<open>The map the array stands for.\<close>

definition pa_map :: "ucs_ptr_array \<Rightarrow> nat \<rightharpoonup> u64" where
  "pa_map pa i = (if i < length (start pa) \<and> \<not> ptr_is_free (start pa ! i) then Some (start pa ! i) else None)"

lemma SENT_val: "SENT = 2147483647"
  by (simp add: sentinel)

lemma pa_okD:
  assumes "pa_ok pa fl"
  shows "arr_size pa = length (start pa)" "length (start pa) \<le> SENT" "fseg (start pa) (freelist pa) fl SENT"
    "distinct fl" "i \<in> set fl \<longleftrightarrow> i < length (start pa) \<and> ptr_is_free (start pa ! i)"
    "ahead_ok (start pa)" "arr_count pa + length fl = length (start pa)"
  using assms by (auto simp: pa_ok_def)

lemma pa_ok_init: "pa_ok (ucs_ptr_array_init pa) []" "pa_map (ucs_ptr_array_init pa) = Map.empty"
  by (simp_all add: pa_ok_def pa_map_def ucs_ptr_array_init_def ucs_ptr_array_clear_def ahead_ok_def fun_eq_iff)

lemma fl_length: "pa_ok pa fl \<Longrightarrow> length fl \<le> length (start pa)"
  using pa_okD(7) by fastforce

lemma grow_link_correct:
  assumes "\<And>i. i \<in> set is \<Longrightarrow> i < n \<and> i < length arr" "n \<le> SENT"
  shows "\<exists>arr'. grow_link is n arr = Some arr' \<and> length arr' = length arr \<and>
    (\<forall>j. j \<notin> set is \<longrightarrow> arr' ! j = arr ! j) \<and>
    (\<forall>j \<in> set is. ptr_is_free (arr' ! j) \<and> slot_next (arr' ! j) = j + 1 \<and> slot_ahead (arr' ! j) = n - j)"
  using assms(1)
proof (induction "is" arbitrary: arr)
  case (Cons i "is")
  have "n - i < 2 ^ 32" "i + 1 < 2 ^ 31" using Cons.prems [of i] assms(2) by (auto simp: SENT_val)
  then obtain e where e: "ucs_ptr_array_freelist_element_set (n - i) (i + 1) = Some e" "ptr_is_free e"
    "slot_next e = i + 1" "slot_ahead e = n - i"
    using element_set_correct by blast
  have il: "i < length arr" using Cons.prems [of i] by simp
  have p: "\<And>j. j \<in> set is \<Longrightarrow> j < n \<and> j < length (arr[i := e])" using Cons.prems by simp
  obtain arr' where a: "grow_link is n (arr[i := e]) = Some arr'" "length arr' = length arr"
    "\<And>j. j \<notin> set is \<Longrightarrow> arr' ! j = arr[i := e] ! j"
    "\<And>j. j \<in> set is \<Longrightarrow> ptr_is_free (arr' ! j) \<and> slot_next (arr' ! j) = j + 1 \<and> slot_ahead (arr' ! j) = n - j"
    using Cons.IH [OF p] unfolding length_list_update by blast
  have "ptr_is_free (arr' ! i) \<and> slot_next (arr' ! i) = i + 1 \<and> slot_ahead (arr' ! i) = n - i"
    using a(3,4) [of i] e il by (cases "i \<in> set is") auto
  moreover have "grow_link (i # is) n arr = Some arr'" using e(1) il a(1) by simp
  ultimately show ?case using a by auto
qed simp

lemma fseg_upt:
  assumes "c < n" "n \<le> length arr"
    "\<And>j. c \<le> j \<Longrightarrow> j < n \<Longrightarrow> ptr_is_free (arr ! j) \<and> slot_next (arr ! j) = (if j = n - 1 then t else j + 1)"
  shows "fseg arr c [c..<n] t"
  using assms
proof (induction "n - c" arbitrary: c)
  case (Suc k)
  show ?case
  proof (cases "Suc c = n")
    case True
    then show ?thesis using Suc.prems by (auto simp: upt_rec [of c n])
  next
    case False
    have "fseg arr (Suc c) [Suc c..<n] t" using Suc.hyps(1) [of "Suc c"] Suc.hyps(2) Suc.prems False by auto
    then show ?thesis using Suc.prems False by (auto simp: upt_rec [of c n])
  qed
qed simp

text \<open>The slots of a grown array, before the old free list is linked to them.\<close>

lemma grow_slots:
  assumes ok: "pa_ok pa fl" and n: "length (start pa) < n" "n \<le> SENT"
  defines "c \<equiv> length (start pa)"
  shows "\<exists>arr2. (do { arr1 \<leftarrow> grow_link [c..<n] n (start pa @ replicate (n - c) 0);
            e \<leftarrow> arr_get arr1 (n - 1); e' \<leftarrow> ucs_ptr_array_freelist_set_next e SENT; arr_set arr1 (n - 1) e' }) = Some arr2 \<and>
    length arr2 = n \<and> (\<forall>j < c. arr2 ! j = start pa ! j) \<and>
    (\<forall>j. c \<le> j \<and> j < n \<longrightarrow> ptr_is_free (arr2 ! j) \<and> slot_next (arr2 ! j) = (if j = n - 1 then SENT else j + 1) \<and>
       slot_ahead (arr2 ! j) = n - j)"
proof -
  let ?a = "start pa @ replicate (n - c) 0"
  have la: "length ?a = n" using n(1) by (simp add: c_def)
  have gl: "\<And>i. i \<in> set [c..<n] \<Longrightarrow> i < n \<and> i < length ?a" by (auto simp: c_def)
  obtain arr1 where a: "grow_link [c..<n] n ?a = Some arr1" "length arr1 = n"
    "\<And>j. j \<notin> set [c..<n] \<Longrightarrow> arr1 ! j = ?a ! j"
    "\<And>j. j \<in> set [c..<n] \<Longrightarrow> ptr_is_free (arr1 ! j) \<and> slot_next (arr1 ! j) = j + 1 \<and> slot_ahead (arr1 ! j) = n - j"
    using grow_link_correct [of "[c..<n]" n ?a, OF gl n(2)] unfolding la by blast
  have l: "n - 1 \<in> set [c..<n]" using n(1) by (simp add: c_def)
  have "SENT < 2 ^ 31" by (simp add: SENT_val)
  then obtain e' where e': "ucs_ptr_array_freelist_set_next (arr1 ! (n - 1)) SENT = Some e'" "ptr_is_free e'" "slot_next e' = SENT"
    "slot_ahead e' = slot_ahead (arr1 ! (n - 1))"
    using set_next_correct [of SENT "arr1 ! (n - 1)"] a(4) [OF l] by blast
  show ?thesis
  proof (intro exI [of _ "arr1[n - 1 := e']"] conjI)
    show "(do { arr1 \<leftarrow> grow_link [c..<n] n ?a; e \<leftarrow> arr_get arr1 (n - 1);
        e' \<leftarrow> ucs_ptr_array_freelist_set_next e SENT; arr_set arr1 (n - 1) e' }) = Some (arr1[n - 1 := e'])"
      using a(1,2) e'(1) n(1) by simp
    show "\<forall>j < c. arr1[n - 1 := e'] ! j = start pa ! j"
      using a(3) n(1) by (auto simp: c_def nth_append nth_list_update)
    show "\<forall>j. c \<le> j \<and> j < n \<longrightarrow> ptr_is_free (arr1[n - 1 := e'] ! j) \<and>
        slot_next (arr1[n - 1 := e'] ! j) = (if j = n - 1 then SENT else j + 1) \<and> slot_ahead (arr1[n - 1 := e'] ! j) = n - j"
      using a(2,4) e' l by (auto simp: nth_list_update)
  qed (use a(2) in simp)
qed

lemma ahead_ok_grow:
  assumes "ahead_ok arr" "length arr \<le> n" "length arr' = n"
    "\<And>j. j < length arr \<Longrightarrow> ptr_is_free (arr' ! j) = ptr_is_free (arr ! j) \<and>
      (ptr_is_free (arr ! j) \<longrightarrow> slot_ahead (arr' ! j) = slot_ahead (arr ! j))"
    "\<And>j. length arr \<le> j \<Longrightarrow> j < n \<Longrightarrow> ptr_is_free (arr' ! j) \<and> slot_ahead (arr' ! j) = n - j"
  shows "ahead_ok arr'"
  unfolding ahead_ok_def
proof (intro allI impI)
  fix i assume i: "i < length arr'" "ptr_is_free (arr' ! i)"
  show "1 \<le> slot_ahead (arr' ! i) \<and> i + slot_ahead (arr' ! i) \<le> length arr' \<and>
      (\<forall>k < slot_ahead (arr' ! i). ptr_is_free (arr' ! (i + k)))"
  proof (cases "i < length arr")
    case True
    then have o: "1 \<le> slot_ahead (arr ! i)" "i + slot_ahead (arr ! i) \<le> length arr"
      "\<And>k. k < slot_ahead (arr ! i) \<Longrightarrow> ptr_is_free (arr ! (i + k))"
      using assms(1,4) i unfolding ahead_ok_def by blast+
    have "slot_ahead (arr' ! i) = slot_ahead (arr ! i)" using assms(4) [OF True] i(2) by simp
    then show ?thesis using o True assms(2-4) by auto
  next
    case False
    then show ?thesis using assms(3,5) i by auto
  qed
qed

lemma grow_correct:
  assumes ok: "pa_ok pa fl" and n: "length (start pa) < n" "n \<le> SENT"
  shows "\<exists>pa'. ucs_ptr_array_grow pa n = Some pa' \<and> pa_ok pa' (fl @ [length (start pa)..<n]) \<and>
    pa_map pa' = pa_map pa \<and> length (start pa') = n \<and> arr_count pa' = arr_count pa"
proof -
  let ?c = "length (start pa)"
  note d = pa_okD [OF ok]
  obtain arr2 where arr2: "(do { arr1 \<leftarrow> grow_link [?c..<n] n (start pa @ replicate (n - ?c) 0);
            e \<leftarrow> arr_get arr1 (n - 1); e' \<leftarrow> ucs_ptr_array_freelist_set_next e SENT; arr_set arr1 (n - 1) e' }) = Some arr2"
    and a: "length arr2 = n" "\<And>j. j < ?c \<Longrightarrow> arr2 ! j = start pa ! j"
    "\<And>j. ?c \<le> j \<Longrightarrow> j < n \<Longrightarrow> ptr_is_free (arr2 ! j) \<and> slot_next (arr2 ! j) = (if j = n - 1 then SENT else j + 1) \<and>
       slot_ahead (arr2 ! j) = n - j"
    using grow_slots [OF ok n] by blast
  have new: "fseg arr2 ?c [?c..<n] SENT" using fseg_upt [of ?c n arr2 SENT] n(1) a(1,3) by simp
  have old: "fseg arr2 (freelist pa) fl SENT"
    by (rule fseg_cong [OF d(3)]) (use a n d(5) in auto)
  have bound: "x < ?c" if "x \<in> set fl" for x using d(5) that by blast
  have "\<exists>h arr3. (if freelist pa = SENT then Some (?c, arr2)
        else do { i \<leftarrow> freelist_last n (freelist pa) arr2; l \<leftarrow> arr_get arr2 i;
          l' \<leftarrow> ucs_ptr_array_freelist_set_next l ?c; arr3 \<leftarrow> arr_set arr2 i l'; Some (freelist pa, arr3) }) = Some (h, arr3) \<and>
      fseg arr3 h (fl @ [?c..<n]) SENT \<and> length arr3 = n \<and>
      (\<forall>j < n. ptr_is_free (arr3 ! j) = ptr_is_free (arr2 ! j) \<and> slot_ahead (arr3 ! j) = slot_ahead (arr2 ! j) \<and>
        (\<not> ptr_is_free (arr2 ! j) \<longrightarrow> arr3 ! j = arr2 ! j))"
  proof (cases fl rule: rev_cases)
    case Nil
    then show ?thesis using old new a(1) by auto
  next
    case (snoc xs p)
    have p: "p < ?c" "ptr_is_free (arr2 ! p)" using bound [of p] fseg_bound [OF old, of p] snoc by auto
    have h: "freelist pa \<noteq> SENT"
      using d(2,3) snoc by (cases xs) auto
    have len: "length (xs @ [p]) \<le> n" using fl_length [OF ok] snoc n(1) by simp
    have l: "freelist_last n (freelist pa) arr2 = Some p"
      using freelist_last_correct [of arr2 "freelist pa" xs p n] old snoc a(1) n(2) len by simp
    have "?c < 2 ^ 31" using n by (simp add: SENT_val)
    then obtain l' where l': "ucs_ptr_array_freelist_set_next (arr2 ! p) ?c = Some l'" "ptr_is_free l'" "slot_next l' = ?c"
      "slot_ahead l' = slot_ahead (arr2 ! p)" using set_next_correct [OF _ p(2)] by blast
    have "fseg (arr2[p := l']) (freelist pa) (xs @ [p]) ?c"
      using fseg_relink [of arr2 "freelist pa" xs p SENT l' ?c] old snoc d(4) l' by simp
    moreover have "fseg (arr2[p := l']) ?c [?c..<n] SENT"
      by (rule fseg_cong [OF new]) (use p a(3) in \<open>auto simp: nth_list_update\<close>)
    ultimately have "fseg (arr2[p := l']) (freelist pa) (fl @ [?c..<n]) SENT"
      unfolding snoc fseg_append by blast
    then show ?thesis using h l l' p a(1) n(1) by (auto simp: nth_list_update)
  qed
  then obtain h arr3 where r: "(if freelist pa = SENT then Some (?c, arr2)
        else do { i \<leftarrow> freelist_last n (freelist pa) arr2; l \<leftarrow> arr_get arr2 i;
          l' \<leftarrow> ucs_ptr_array_freelist_set_next l ?c; arr3 \<leftarrow> arr_set arr2 i l'; Some (freelist pa, arr3) }) = Some (h, arr3)"
    and b: "fseg arr3 h (fl @ [?c..<n]) SENT" "length arr3 = n"
      "\<And>j. j < n \<Longrightarrow> ptr_is_free (arr3 ! j) = ptr_is_free (arr2 ! j) \<and> slot_ahead (arr3 ! j) = slot_ahead (arr2 ! j) \<and>
        (\<not> ptr_is_free (arr2 ! j) \<longrightarrow> arr3 ! j = arr2 ! j)" by blast
  let ?pa = "pa\<lparr>start := arr3, freelist := h, arr_size := n\<rparr>"
  have "ucs_ptr_array_grow pa n = Some ?pa"
    using arr2 r d(1) unfolding ucs_ptr_array_grow_def by (auto simp: bind_eq_Some_conv)
  moreover have "ahead_ok arr3"
    by (rule ahead_ok_grow [OF d(6)]) (use a b n in auto)
  moreover have "set (fl @ [?c..<n]) = {i. i < n \<and> ptr_is_free (arr3 ! i)}"
    using d(5) a b(3) n(1) by (auto simp: not_less)
  moreover have "pa_map ?pa = pa_map pa"
  proof
    fix i
    show "pa_map ?pa i = pa_map pa i"
      using a(2,3) [of i] b(2) b(3) [of i] n(1) by (cases "i < ?c"; cases "i < n") (auto simp: pa_map_def)
  qed
  ultimately show ?thesis
    using b(1,2) d bound n by (fastforce simp: pa_ok_def)
qed

section \<open>Set\<close>

lemma value_not_free: "v AND UCS_PTR_ARRAY_FLAG_FREE = 0 \<longleftrightarrow> \<not> ptr_is_free v"
  by (simp add: ptr_is_free_def)

text \<open>Overwriting a used slot.\<close>

lemma overwrite_ok:
  assumes ok: "pa_ok pa fl" and i: "i < length (start pa)" "\<not> ptr_is_free (start pa ! i)" and v: "\<not> ptr_is_free v"
  shows "pa_ok (pa\<lparr>start := (start pa)[i := v]\<rparr>) fl" "pa_map (pa\<lparr>start := (start pa)[i := v]\<rparr>) = (pa_map pa)(i \<mapsto> v)"
proof -
  note d = pa_okD [OF ok]
  let ?arr = "(start pa)[i := v]"
  have fr: "ptr_is_free (?arr ! j) = ptr_is_free (start pa ! j)" if "j < length (start pa)" for j
    using i v that by (auto simp: nth_list_update)
  have "fseg ?arr (freelist pa) fl SENT"
    by (rule fseg_cong [OF d(3)]) (use d(5) i in \<open>auto simp: nth_list_update\<close>)
  moreover have "ahead_ok ?arr"
    by (rule ahead_ok_grow [OF d(6), of "length (start pa)"]) (use i v in \<open>auto simp: nth_list_update\<close>)
  ultimately show "pa_ok (pa\<lparr>start := ?arr\<rparr>) fl" using d fr by (auto simp: pa_ok_def)
  show "pa_map (pa\<lparr>start := ?arr\<rparr>) = (pa_map pa)(i \<mapsto> v)"
    using i v by (auto simp: pa_map_def fun_eq_iff nth_list_update)
qed

text \<open>Taking a free slot off the free list.\<close>

lemma unlink_correct:
  assumes f: "fseg arr h (xs @ e # ys) SENT" and d: "distinct (xs @ e # ys)" and len: "length arr \<le> SENT"
    "length xs \<le> n" and v: "\<not> ptr_is_free v" and arr1: "arr1 = arr[e := v]"
  shows "\<exists>h' arr2. (if h = e then Some (slot_next (arr ! e), arr1)
      else do { i \<leftarrow> find_prev n e h arr1; l \<leftarrow> arr_get arr1 i;
        l' \<leftarrow> ucs_ptr_array_freelist_set_next l (slot_next (arr ! e)); arr2 \<leftarrow> arr_set arr1 i l'; Some (h, arr2) }) = Some (h', arr2) \<and>
    fseg arr2 h' (xs @ ys) SENT \<and> length arr2 = length arr \<and> arr2 ! e = v \<and>
    (\<forall>j < length arr. j \<noteq> e \<longrightarrow> ptr_is_free (arr2 ! j) = ptr_is_free (arr ! j) \<and>
       (ptr_is_free (arr ! j) \<longrightarrow> slot_ahead (arr2 ! j) = slot_ahead (arr ! j)) \<and> (\<not> ptr_is_free (arr ! j) \<longrightarrow> arr2 ! j = arr ! j))"
proof -
  obtain m where m: "fseg arr h xs m" "fseg arr m (e # ys) SENT" using f fseg_append by blast
  then have me: "m = e" "e < length arr" and ys: "fseg arr (slot_next (arr ! e)) ys SENT" by auto
  have keep: "fseg arr1 a zs b" if "fseg arr a zs b" "e \<notin> set zs" for a zs b
    using fseg_update_other [OF that] unfolding arr1 .
  show ?thesis
  proof (cases xs rule: rev_cases)
    case Nil
    then have "h = e" using f by simp
    moreover have "fseg arr1 (slot_next (arr ! e)) ys SENT" using keep [OF ys] d by simp
    ultimately show ?thesis using Nil me by (auto simp: arr1)
  next
    case (snoc zs p)
    have h: "h \<noteq> e" using m(1) d snoc by (cases zs) auto
    have pre: "fseg arr1 h (zs @ [p]) e" using keep [OF m(1)] d me snoc by simp
    have fp: "find_prev n e h arr1 = Some p"
      using find_prev_correct [OF pre, of n] len d snoc by (auto simp: arr1)
    have p: "p < length arr" "p \<noteq> e" "ptr_is_free (arr ! p)" using fseg_bound [OF m(1), of p] d snoc by auto
    then obtain l' where l': "ucs_ptr_array_freelist_set_next (arr ! p) (slot_next (arr ! e)) = Some l'" "ptr_is_free l'"
      "slot_next l' = slot_next (arr ! e)" "slot_ahead l' = slot_ahead (arr ! p)"
      using set_next_correct [OF slot_next_less] by blast
    have "fseg (arr1[p := l']) h (zs @ [p]) (slot_next (arr ! e))"
      using fseg_relink [OF pre] d snoc l' by simp
    moreover have "fseg (arr1[p := l']) (slot_next (arr ! e)) ys SENT"
      using fseg_update_other [OF keep [OF ys]] d snoc by simp
    ultimately have "fseg (arr1[p := l']) h (xs @ ys) SENT" unfolding snoc fseg_append by blast
    then show ?thesis using h fp l' p me by (auto simp: arr1 nth_list_update)
  qed
qed

lemma set_free_slot:
  assumes ok: "pa_ok pa fl" and e: "e < length (start pa)" "ptr_is_free (start pa ! e)" and v: "\<not> ptr_is_free v"
  shows "\<exists>pa' fl'. (do {
       el \<leftarrow> arr_get (start pa) e;
       next \<leftarrow> ucs_ptr_array_freelist_get_next el;
       arr1 \<leftarrow> arr_set (start pa) e v;
       (fl, arr2) \<leftarrow>
         (if freelist pa = e then Some (next, arr1)
          else do {
            i \<leftarrow> find_prev (arr_size pa) e (freelist pa) arr1;
            l \<leftarrow> arr_get arr1 i;
            l' \<leftarrow> ucs_ptr_array_freelist_set_next l next;
            arr2 \<leftarrow> arr_set arr1 i l';
            Some (freelist pa, arr2)
          });
       arr3 \<leftarrow> update_free_ahead e 1 arr2;
       Some (pa\<lparr>start := arr3, freelist := fl, arr_count := w32 (arr_count pa + 1)\<rparr>)
     }) = Some pa' \<and> pa_ok pa' fl' \<and> pa_map pa' = (pa_map pa)(e \<mapsto> v) \<and> length (start pa') = length (start pa)"
proof -
  note d = pa_okD [OF ok]
  have "e \<in> set fl" using d(5) e by blast
  then obtain xs ys where fl: "fl = xs @ e # ys" by (meson split_list)
  have len: "length xs \<le> arr_size pa" using fl_length [OF ok] fl d(1) by simp
  let ?arr = "start pa"
  from unlink_correct [OF d(3) [unfolded fl] d(4) [unfolded fl] d(2) len v refl]
  obtain h' arr2 where u: "(if freelist pa = e then Some (slot_next (?arr ! e), ?arr[e := v])
      else do { i \<leftarrow> find_prev (arr_size pa) e (freelist pa) (?arr[e := v]); l \<leftarrow> arr_get (?arr[e := v]) i;
        l' \<leftarrow> ucs_ptr_array_freelist_set_next l (slot_next (?arr ! e)); arr2 \<leftarrow> arr_set (?arr[e := v]) i l'; Some (freelist pa, arr2) }) = Some (h', arr2)"
    and a: "fseg arr2 h' (xs @ ys) SENT" "length arr2 = length ?arr" "arr2 ! e = v"
      "\<And>j. j < length ?arr \<Longrightarrow> j \<noteq> e \<Longrightarrow> ptr_is_free (arr2 ! j) = ptr_is_free (?arr ! j) \<and>
         (ptr_is_free (?arr ! j) \<longrightarrow> slot_ahead (arr2 ! j) = slot_ahead (?arr ! j)) \<and> (\<not> ptr_is_free (?arr ! j) \<longrightarrow> arr2 ! j = ?arr ! j)"
    by blast
  have b: "length ?arr < 2 ^ 32" using d(2) by (simp add: SENT_val)
  obtain arr3 where u3: "update_free_ahead e 1 arr2 = Some arr3" "length arr3 = length arr2"
    "\<And>j. j < length ?arr \<Longrightarrow> same_slot (arr2 ! j) (arr3 ! j)" "ahead_ok arr3"
    using ahead_ok_use [OF d(6) e(1) v a(2) _ a(3) b] a(4) by blast
  let ?pa = "pa\<lparr>start := arr3, freelist := h', arr_count := w32 (arr_count pa + 1)\<rparr>"
  have cnt: "w32 (arr_count pa + 1) = arr_count pa + 1"
    using d(7) b fl by simp
  have "fseg arr3 h' (xs @ ys) SENT"
  proof (rule fseg_cong [OF a(1)])
    fix x assume "x \<in> set (xs @ ys)"
    with fseg_bound [OF a(1) this] show "ptr_is_free (arr3 ! x) \<and> slot_next (arr3 ! x) = slot_next (arr2 ! x)"
      using u3(3) [of x] a(2) by (simp add: same_slot_def)
  qed (simp add: u3(2))
  moreover have fr: "ptr_is_free (arr3 ! j) \<longleftrightarrow> j \<noteq> e \<and> ptr_is_free (?arr ! j)" if "j < length ?arr" for j
    using u3(3) [OF that] same_slot_free a(3) a(4) [OF that] v by (cases "j = e") auto
  then have "set (xs @ ys) = {i. i < length arr3 \<and> ptr_is_free (arr3 ! i)}"
    using d(4,5) a(2) u3(2) unfolding fl by auto
  ultimately have "pa_ok ?pa (xs @ ys)"
    using d u3 a(2) cnt unfolding pa_ok_def fl by auto
  moreover have "pa_map ?pa = (pa_map pa)(e \<mapsto> v)"
  proof
    fix j
    show "pa_map ?pa j = ((pa_map pa)(e \<mapsto> v)) j"
      using fr [of j] u3(2) u3(3) [of j] a(2,3) a(4) [of j] e(1) v
      by (cases "j = e"; cases "j < length ?arr") (auto simp: pa_map_def same_slot_def)
  qed
  moreover have "length (start ?pa) = length (start pa)" using u3(2) a(2) by simp
  ultimately show ?thesis
    using u u3(1) e by (intro exI [of _ ?pa] exI [of _ "xs @ ys"]) simp
qed

lemma set_correct:
  assumes ok: "pa_ok pa fl" and v: "\<not> ptr_is_free v" and i: "i < SENT" "i < length (start pa) \<or> 2 * length (start pa) \<le> SENT"
  shows "\<exists>pa' fl'. ucs_ptr_array_set pa i v = Some pa' \<and> pa_ok pa' fl' \<and> pa_map pa' = (pa_map pa)(i \<mapsto> v) \<and>
    (i < length (start pa) \<longrightarrow> length (start pa') = length (start pa))"
proof -
  note d = pa_okD [OF ok]
  consider "i < length (start pa)" "\<not> ptr_is_free (start pa ! i)" | "i < length (start pa)" "ptr_is_free (start pa ! i)" |
    "length (start pa) \<le> i" by linarith
  then show ?thesis
  proof cases
    case 1
    then show ?thesis using overwrite_ok [OF ok 1 v] d(1) v by (auto simp: ucs_ptr_array_set_def value_not_free)
  next
    case 2
    then show ?thesis using set_free_slot [OF ok 2 v] d(1) v by (simp add: ucs_ptr_array_set_def value_not_free)
  next
    case 3
    let ?n = "max (w32 (arr_size pa * 2)) (w32 (i + 1))"
    have n: "?n = max (length (start pa) * 2) (i + 1)" using i d(1) 3 by (simp add: SENT_val)
    then have "length (start pa) < ?n" "?n \<le> SENT" using 3 i by auto
    then obtain pa1 where g: "ucs_ptr_array_grow pa ?n = Some pa1" "pa_ok pa1 (fl @ [length (start pa)..<?n])"
      "pa_map pa1 = pa_map pa" "length (start pa1) = ?n" using grow_correct [OF ok, of ?n] by blast
    have "i < ?n" using n by simp
    then have "i < length (start pa1)" "ptr_is_free (start pa1 ! i)"
      using pa_okD(5) [OF g(2), of i] 3 g(4) by auto
    note s = set_free_slot [OF g(2) this v]
    show ?thesis
      using s g(1,3) 3 d(1) v by (simp add: ucs_ptr_array_set_def value_not_free) blast
  qed
qed

section \<open>Lookup, replace and remove\<close>

lemma is_free_eq:
  "pa_ok pa fl \<Longrightarrow> ucs_ptr_array_is_free pa i = Some (i < length (start pa) \<and> ptr_is_free (start pa ! i))"
  using pa_okD(1) by (simp add: ucs_ptr_array_is_free_def)

lemma lookup_correct: "pa_ok pa fl \<Longrightarrow> ucs_ptr_array_lookup pa i = Some (pa_map pa i)"
  using pa_okD(1) by (simp add: ucs_ptr_array_lookup_def pa_map_def)

lemma pa_map_Some: "pa_map pa i = Some v \<longleftrightarrow> i < length (start pa) \<and> \<not> ptr_is_free (start pa ! i) \<and> v = start pa ! i"
  by (auto simp: pa_map_def)

lemma replace_correct:
  assumes ok: "pa_ok pa fl" and i: "pa_map pa i = Some u" and v: "\<not> ptr_is_free v"
  shows "\<exists>pa'. ucs_ptr_array_replace pa i v = Some (u, pa') \<and> pa_ok pa' fl \<and> pa_map pa' = (pa_map pa)(i \<mapsto> v)"
  using overwrite_ok [OF ok _ _ v, of i] i is_free_eq [OF ok, of i]
  by (auto simp: ucs_ptr_array_replace_def pa_map_Some)

text \<open>The run recorded in a slot being removed: it joins the run of the slot after it.\<close>

lemma remove_ahead:
  assumes ok: "ahead_ok arr" and i: "i < length arr"
    and n: "n = (if i + 1 < length arr \<and> ptr_is_free (arr ! (i + 1)) then slot_ahead (arr ! (i + 1)) + 1 else 1)"
    and e: "ptr_is_free e" "slot_ahead e = n"
  shows "ahead_ok (arr[i := e])" "1 \<le> n" "i + n \<le> length arr" "k < n \<Longrightarrow> ptr_is_free (arr[i := e] ! (i + k))"
proof -
  have r: "1 \<le> n \<and> i + n \<le> length arr \<and> (\<forall>k < n. ptr_is_free (arr[i := e] ! (i + k)))"
  proof (cases "i + 1 < length arr \<and> ptr_is_free (arr ! (i + 1))")
    case True
    then have a: "i + 1 + slot_ahead (arr ! (i + 1)) \<le> length arr"
      "\<And>k. k < slot_ahead (arr ! (i + 1)) \<Longrightarrow> ptr_is_free (arr ! (i + 1 + k))"
      using ok unfolding ahead_ok_def by blast+
    have "ptr_is_free (arr[i := e] ! (i + k))" if "k < n" for k
      using a(2) [of "k - 1"] that True i e(1) n by (cases k) auto
    then show ?thesis using a(1) True n by auto
  next
    case False
    then show ?thesis using n i e(1) by auto
  qed
  then show "1 \<le> n" "i + n \<le> length arr" "k < n \<Longrightarrow> ptr_is_free (arr[i := e] ! (i + k))" by auto
  show "ahead_ok (arr[i := e])"
    unfolding ahead_ok_def length_list_update
  proof (intro allI impI)
    fix j assume j: "j < length arr" "ptr_is_free (arr[i := e] ! j)"
    show "1 \<le> slot_ahead (arr[i := e] ! j) \<and> j + slot_ahead (arr[i := e] ! j) \<le> length arr \<and>
      (\<forall>k < slot_ahead (arr[i := e] ! j). ptr_is_free (arr[i := e] ! (j + k)))"
    proof (cases "j = i")
      case True
      then show ?thesis using r e i by auto
    next
      case False
      then have s: "arr[i := e] ! j = arr ! j" by simp
      then have a: "1 \<le> slot_ahead (arr ! j)" "j + slot_ahead (arr ! j) \<le> length arr"
        "\<And>k. k < slot_ahead (arr ! j) \<Longrightarrow> ptr_is_free (arr ! (j + k))"
        using ok j unfolding ahead_ok_def by metis+
      have "ptr_is_free (arr[i := e] ! (j + k))" if "k < slot_ahead (arr ! j)" for k
        using a(3) [OF that] e(1) i by (cases "j + k = i") auto
      then show ?thesis using a s by simp
    qed
  qed
qed

lemma remove_correct:
  assumes ok: "pa_ok pa fl" and i: "i \<in> dom (pa_map pa)"
  shows "\<exists>pa'. ucs_ptr_array_remove pa i = Some pa' \<and> pa_ok pa' (i # fl) \<and> pa_map pa' = (pa_map pa)(i := None) \<and>
    length (start pa') = length (start pa)"
proof -
  note d = pa_okD [OF ok]
  let ?arr = "start pa"
  have u: "i < length ?arr" "\<not> ptr_is_free (?arr ! i)" using i by (auto simp: pa_map_Some)
  then have nfl: "i \<notin> set fl" using d(5) by blast
  define n where "n = (if i + 1 < length ?arr \<and> ptr_is_free (?arr ! (i + 1)) then slot_ahead (?arr ! (i + 1)) + 1 else 1)"
  have b: "i + n \<le> length ?arr" "1 \<le> n"
  proof -
    have "i + 1 < length ?arr \<and> ptr_is_free (?arr ! (i + 1)) \<Longrightarrow> i + 1 + slot_ahead (?arr ! (i + 1)) \<le> length ?arr"
      using d(6) unfolding ahead_ok_def by blast
    then show "i + n \<le> length ?arr" "1 \<le> n" using u by (auto simp: n_def)
  qed
  then have w: "n < 2 ^ 32" "i + n < 2 ^ 32" using d(2) by (simp_all add: SENT_val)
  have h: "freelist pa < 2 ^ 31"
    using d(2,3) u by (cases fl) (auto simp: SENT_val)
  obtain e where e: "ucs_ptr_array_freelist_element_set n (freelist pa) = Some e" "ptr_is_free e"
    "slot_next e = freelist pa" "slot_ahead e = n"
    using element_set_correct [OF w(1) h] by blast
  note r = remove_ahead [OF d(6) u(1) n_def e(2,4)]
  let ?pa = "pa\<lparr>start := ?arr[i := e], freelist := i, arr_count := arr_count pa - 1\<rparr>"
  have cnt: "0 < arr_count pa"
  proof -
    have "set fl \<subset> {..<length ?arr}" using d(5) u nfl by blast
    then have "length fl < length ?arr"
      using psubset_card_mono [of "{..<length ?arr}" "set fl"] distinct_card [OF d(4)] by simp
    then show ?thesis using d(7) by linarith
  qed
  have fr: "ptr_is_free (?arr[i := e] ! j) \<longleftrightarrow> j = i \<or> ptr_is_free (?arr ! j)" if "j < length ?arr" for j
    using that e(2) by (cases "j = i") auto
  have "fseg (?arr[i := e]) i (i # fl) SENT"
    using fseg_update_other [OF d(3) nfl, of e] e u by simp
  moreover have "set (i # fl) = {j. j < length ?arr \<and> ptr_is_free (?arr[i := e] ! j)}"
    using d(5) fr u(1) by auto
  ultimately have "pa_ok ?pa (i # fl)"
    using d(1,2,4,7) r(1) nfl cnt unfolding pa_ok_def
    by (simp del: fseg.simps list.set)
  moreover have "pa_map ?pa = (pa_map pa)(i := None)"
    using e(2) u(1) by (auto simp: pa_map_def fun_eq_iff nth_list_update)
  moreover have "ucs_ptr_array_remove pa i = Some ?pa"
  proof -
    have l: "ptr_is_free (?arr[i := e] ! (i + n - 1))"
      using r(4) [of "n - 1"] b by simp
    define F where "F = (i + 1 < length ?arr \<and> ptr_is_free (?arr ! (i + 1)))"
    have s: "ucs_ptr_array_is_free pa (w32 (i + 1)) = Some F"
      "(if F then do { next_elem \<leftarrow> arr_get (start pa) (i + 1);
          fa \<leftarrow> ucs_ptr_array_size_free_get_free_ahead next_elem; Some (w32 (fa + 1)) } else Some 1) = Some n"
      using w u d(2) is_free_eq [OF ok] by (auto simp: n_def F_def SENT_val)
    have wi: "w32 (i + n - 1) = i + n - 1" using w by simp
    show ?thesis
      unfolding ucs_ptr_array_remove_def s(1) Option.bind.bind_lunit s(2) using e(1) l b u cnt wi is_free_eq [OF ok, of i] by simp
  qed
  ultimately show ?thesis by auto
qed

section \<open>Allocation\<close>

lemma count_free_correct:
  assumes ok: "pa_ok pa fl" and b: "i + ec < 2 ^ 32" "k \<le> ec"
  shows "\<exists>r. count_free n pa i ec k = Some r \<and> k \<le> r \<and> r \<le> ec \<and>
    (\<forall>j. k \<le> j \<and> j < r \<longrightarrow> i + j < length (start pa) \<and> ptr_is_free (start pa ! (i + j)))"
  using b(2)
proof (induction n arbitrary: k)
  case (Suc n)
  show ?case
  proof (cases "k < ec \<and> i + k < length (start pa) \<and> ptr_is_free (start pa ! (i + k))")
    case True
    then obtain r where "count_free n pa i ec (k + 1) = Some r" "k + 1 \<le> r" "r \<le> ec"
      "\<forall>j. k + 1 \<le> j \<and> j < r \<longrightarrow> i + j < length (start pa) \<and> ptr_is_free (start pa ! (i + j))"
      using Suc.IH [of "k + 1"] by auto
    moreover from this have "i + j < length (start pa) \<and> ptr_is_free (start pa ! (i + j))" if "k \<le> j" "j < r" for j
      using True that by (cases "j = k") auto
    ultimately show ?thesis using True b(1) is_free_eq [OF ok] by auto
  next
    case False
    then show ?thesis using Suc.prems b(1) is_free_eq [OF ok, of "w32 (i + k)"] by auto
  qed
qed auto

lemma slot_next_low: "ptr_is_free e \<Longrightarrow> ucs_ptr_array_freelist_get_next (take_bit 32 e) = Some (slot_next e)"
proof -
  assume e: "ptr_is_free e"
  have "slot_next (take_bit 32 e) = slot_next e"
    unfolding slot_next_def
    by (rule arg_cong [where f = unat], rule bit_word_eqI) (auto simp: bit_drop_bit_eq bit_and_iff bit_take_bit_iff bit_next_mask)
  moreover have "ptr_is_free (take_bit 32 e)" using e by (simp add: ptr_is_free_bit bit_take_bit_iff)
  ultimately show ?thesis by simp
qed

lemma find_run_correct:
  assumes ok: "pa_ok pa fl" and ec: "1 \<le> ec" "ec \<le> SENT"
  shows "fseg (start pa) h xs SENT \<Longrightarrow> xs \<noteq> [] \<Longrightarrow> length xs \<le> n \<Longrightarrow>
    \<exists>r. find_run n pa h ec = Some r \<and> (\<forall>i j. r = Some i \<longrightarrow> j < ec \<longrightarrow> i + j < length (start pa) \<and> ptr_is_free (start pa ! (i + j)))"
proof (induction n arbitrary: h xs)
  case (Suc n)
  then obtain ys where xs: "xs = h # ys" and h: "h < length (start pa)" "ptr_is_free (start pa ! h)"
    and ys: "fseg (start pa) (slot_next (start pa ! h)) ys SENT" by (cases xs) auto
  have b: "h + ec < 2 ^ 32" using h(1) ec(2) pa_okD(2) [OF ok] by (simp add: SENT_val)
  from count_free_correct [OF ok b ec(1)] obtain r where r: "count_free ec pa h ec 1 = Some r" "1 \<le> r" "r \<le> ec"
    "\<And>j. 1 \<le> j \<Longrightarrow> j < r \<Longrightarrow> h + j < length (start pa) \<and> ptr_is_free (start pa ! (h + j))" by blast
  show ?case
  proof (cases "r = ec")
    case True
    have "h + j < length (start pa) \<and> ptr_is_free (start pa ! (h + j))" if "j < ec" for j
      using r(4) [of j] that True h by (cases "j = 0") auto
    then show ?thesis using r(1) True by simp
  next
    case False
    note nx = slot_next_low [OF h(2)]
    show ?thesis
    proof (cases "slot_next (start pa ! h) = SENT")
      case True
      then show ?thesis using r(1) False h(1) nx by simp
    next
      case False2: False
      then have "ys \<noteq> []" using ys by (cases ys) auto
      then obtain q where "find_run n pa (slot_next (start pa ! h)) ec = Some q"
        "\<forall>i j. q = Some i \<longrightarrow> j < ec \<longrightarrow> i + j < length (start pa) \<and> ptr_is_free (start pa ! (i + j))"
        using Suc.IH [OF ys] Suc.prems(3) xs by auto
      then show ?thesis using r(1) False False2 h(1) nx by simp
    qed
  qed
qed simp

lemma zero_used [simp]: "\<not> ptr_is_free 0"
  by (simp add: ptr_is_free_def)

lemma set_zero_correct:
  assumes "pa_ok pa fl" "\<And>j. j \<in> set is \<Longrightarrow> i + j < length (start pa)"
  shows "\<exists>pa' fl'. set_zero is i pa = Some pa' \<and> pa_ok pa' fl' \<and> length (start pa') = length (start pa) \<and>
    pa_map pa' = (\<lambda>j. if \<exists>k \<in> set is. j = i + k then Some 0 else pa_map pa j)"
  using assms
proof (induction "is" arbitrary: pa fl)
  case (Cons k ks)
  have len: "length (start pa) \<le> SENT" using pa_okD(2) [OF Cons.prems(1)] .
  have k: "i + k < length (start pa)" using Cons.prems(2) [of k] by simp
  have kb: "i + k < SENT" using k len by linarith
  then have w: "w32 (i + k) = i + k" by (simp add: SENT_val)
  obtain pa1 fl1 where s: "ucs_ptr_array_set pa (i + k) 0 = Some pa1" "pa_ok pa1 fl1" "pa_map pa1 = (pa_map pa)(i + k \<mapsto> 0)"
    "length (start pa1) = length (start pa)"
    using set_correct [OF Cons.prems(1) zero_used kb] k by blast
  obtain pa' fl' where z: "set_zero ks i pa1 = Some pa'" "pa_ok pa' fl'" "length (start pa') = length (start pa1)"
    "pa_map pa' = (\<lambda>j. if \<exists>k \<in> set ks. j = i + k then Some 0 else pa_map pa1 j)"
    using Cons.IH [OF s(2)] Cons.prems(2) s(4) by auto
  have "pa_map pa' = (\<lambda>j. if \<exists>k \<in> set (k # ks). j = i + k then Some 0 else pa_map pa j)"
    unfolding z(4) s(3) by (auto simp: fun_eq_iff)
  then show ?case using s(1,4) z(1-3) w by auto
qed auto

definition pa_room :: "ucs_ptr_array \<Rightarrow> nat \<Rightarrow> bool" where
  "pa_room pa n \<longleftrightarrow> 2 * length (start pa) \<le> SENT \<and> length (start pa) + n \<le> SENT"

lemma bulk_alloc_correct:
  assumes ok: "pa_ok pa fl" and n: "1 \<le> n" and room: "pa_room pa n"
  shows "\<exists>i pa' fl'. ucs_ptr_array_bulk_alloc pa n = Some (i, pa') \<and> pa_ok pa' fl' \<and> i + n \<le> length (start pa') \<and>
    length (start pa') \<le> max (2 * length (start pa)) (length (start pa) + n) \<and>
    (\<forall>j. i \<le> j \<and> j < i + n \<longrightarrow> pa_map pa j = None) \<and>
    pa_map pa' = (\<lambda>j. if i \<le> j \<and> j < i + n then Some 0 else pa_map pa j)"
proof -
  note d = pa_okD [OF ok]
  have nS: "n \<le> SENT" and S: "2 * length (start pa) \<le> SENT" "length (start pa) + n \<le> SENT" using room by (auto simp: pa_room_def)
  have z: "\<exists>pa' fl'. set_zero [0..<n] i pa1 = Some pa' \<and> pa_ok pa' fl' \<and> length (start pa') = length (start pa1) \<and>
    pa_map pa' = (\<lambda>j. if i \<le> j \<and> j < i + n then Some 0 else pa_map pa1 j)"
    if "pa_ok pa1 fl1" "i + n \<le> length (start pa1)" for pa1 fl1 i
  proof -
    have "(\<exists>k \<in> set [0..<n]. j = i + k) \<longleftrightarrow> i \<le> j \<and> j < i + n" for j by (auto intro: bexI [of _ "j - i"])
    then show ?thesis using set_zero_correct [OF that(1), of "[0..<n]" i] that(2) by auto
  qed
  define found where "found = (if freelist pa = SENT then Some None else find_run (arr_size pa) pa (freelist pa) n)"
  have "\<exists>r. found = Some r \<and> (\<forall>i j. r = Some i \<longrightarrow> j < n \<longrightarrow> i + j < length (start pa) \<and> ptr_is_free (start pa ! (i + j)))"
  proof (cases "freelist pa = SENT")
    case True
    then show ?thesis by (simp add: found_def)
  next
    case False
    then have "fl \<noteq> []" using d(3) by (cases fl) auto
    then show ?thesis using find_run_correct [OF ok n nS d(3)] fl_length [OF ok] False d(1) by (simp add: found_def)
  qed
  then obtain r where r: "found = Some r"
    "\<And>i j. r = Some i \<Longrightarrow> j < n \<Longrightarrow> i + j < length (start pa) \<and> ptr_is_free (start pa ! (i + j))" by blast
  show ?thesis
  proof (cases r)
    case (Some i)
    have i: "i + n \<le> length (start pa)" using r(2) [OF Some, of "n - 1"] n by auto
    have fr: "pa_map pa j = None" if "i \<le> j" "j < i + n" for j
      using r(2) [OF Some, of "j - i"] that by (simp add: pa_map_def)
    obtain pa' fl' where "set_zero [0..<n] i pa = Some pa'" "pa_ok pa' fl'" "length (start pa') = length (start pa)"
      "pa_map pa' = (\<lambda>j. if i \<le> j \<and> j < i + n then Some 0 else pa_map pa j)" using z [OF ok i] by blast
    then show ?thesis using r(1) n i fr Some by (auto simp: ucs_ptr_array_bulk_alloc_def simp flip: found_def)
  next
    case None
    let ?m = "max (w32 (2 * arr_size pa)) (w32 (arr_size pa + n))"
    have m: "?m = max (2 * length (start pa)) (length (start pa) + n)" using S d(1) by (simp add: SENT_val)
    have "length (start pa) < ?m" "?m \<le> SENT" using m n S by auto
    then obtain pa1 where g: "ucs_ptr_array_grow pa ?m = Some pa1" "pa_ok pa1 (fl @ [length (start pa)..<?m])"
      "pa_map pa1 = pa_map pa" "length (start pa1) = ?m" using grow_correct [OF ok, of ?m] by blast
    have i: "length (start pa) + n \<le> length (start pa1)" using g(4) m by simp
    obtain pa' fl' where "set_zero [0..<n] (length (start pa)) pa1 = Some pa'" "pa_ok pa' fl'" "length (start pa') = length (start pa1)"
      "pa_map pa' = (\<lambda>j. if length (start pa) \<le> j \<and> j < length (start pa) + n then Some 0 else pa_map pa1 j)"
      using z [OF g(2) i] by blast
    then show ?thesis using r(1) n i g m None d(1)
      by (auto simp: ucs_ptr_array_bulk_alloc_def pa_map_def simp flip: found_def)
  qed
qed

end
