(* ===== verification/Ptr_Array_Table.thy ===== *)
theory Ptr_Array_Table
  imports Ptr_Array_Correct
begin

text \<open>
  The pointer array as a table of identifiers.  Part one proves insertion and the iteration macro;
  part two states the contract of a table that hands out identifiers (\<open>id_table\<close>), proves what a
  client gets from it, and discharges it for the array; part three is the step relation of a program
  that uses the array legally, and the properties of every state it can reach.
\<close>

section \<open>Insertion\<close>

lemma insert_correct:
  assumes ok: "pa_ok pa fl" and room: "pa_room pa 1" and v: "\<not> ptr_is_free v"
  shows "\<exists>i pa' fl'. ucs_ptr_array_insert pa v = Some (i, pa') \<and> pa_ok pa' fl' \<and> pa_map pa i = None \<and>
    pa_map pa' = (pa_map pa)(i \<mapsto> v)"
proof -
  obtain i pa1 fl1 where b: "ucs_ptr_array_bulk_alloc pa 1 = Some (i, pa1)" "pa_ok pa1 fl1" "i + 1 \<le> length (start pa1)"
    "\<forall>j. i \<le> j \<and> j < i + 1 \<longrightarrow> pa_map pa j = None"
    "pa_map pa1 = (\<lambda>j. if i \<le> j \<and> j < i + 1 then Some 0 else pa_map pa j)"
    using bulk_alloc_correct [OF ok _ room] by auto
  have m: "pa_map pa1 = (pa_map pa)(i \<mapsto> 0)" unfolding b(5) by (auto simp: fun_eq_iff)
  then have u: "i < length (start pa1)" "\<not> ptr_is_free (start pa1 ! i)"
    using pa_map_Some [of pa1 i 0] by auto
  have "pa_map pa i = None" using b(4) by simp
  then show ?thesis
    using overwrite_ok [OF b(2) u v] b(1) v u m by (auto simp: ucs_ptr_array_insert_def value_not_free)
qed

text \<open>Insertion grows the array only when every slot is in use.\<close>

lemma insert_length:
  assumes ok: "pa_ok pa fl" and room: "pa_room pa 1" and i: "ucs_ptr_array_insert pa v = Some (i, pa')"
  shows "length (start pa') \<le> max (length (start pa)) (2 * arr_count pa + 1)"
proof -
  note d = pa_okD [OF ok]
  obtain pa1 where b: "ucs_ptr_array_bulk_alloc pa 1 = Some (i, pa1)" "length (start pa') = length (start pa1)"
    using i by (auto simp: ucs_ptr_array_insert_def arr_set_def split: bind_splits if_splits)
  show ?thesis
  proof (cases fl)
    case Nil
    then have "arr_count pa = length (start pa)" using d(7) by simp
    moreover have "length (start pa1) \<le> max (2 * length (start pa)) (length (start pa) + 1)"
      using bulk_alloc_correct [OF ok _ room] b(1) by auto
    ultimately show ?thesis using b(2) by auto
  next
    case (Cons h xs)
    then have h: "freelist pa = h" "h < length (start pa)" "freelist pa \<noteq> SENT" using d(2,3) by auto
    then have "0 < length (start pa)" by auto
    then obtain k where "arr_size pa = Suc k" using d(1) gr0_conv_Suc by metis
    then have "find_run (arr_size pa) pa (freelist pa) 1 = Some (Some h)" using h(1) by simp
    then have "set_zero [0] h pa = Some pa1" using b(1) h by (simp add: ucs_ptr_array_bulk_alloc_def split: bind_splits)
    moreover have "length (start pa2) = length (start pa)" if "set_zero [0] h pa = Some pa2" for pa2
      using set_zero_correct [OF ok, of "[0]" h] h(2) that by auto
    ultimately show ?thesis using b(2) by simp
  qed
qed

lemma set_length:
  assumes ok: "pa_ok pa fl" and v: "\<not> ptr_is_free v" and i: "i < SENT" "2 * length (start pa) \<le> SENT"
    and s: "ucs_ptr_array_set pa i v = Some pa'"
  shows "length (start pa') \<le> max (length (start pa)) (2 * i + 1)"
proof (cases "i < length (start pa)")
  case True
  then show ?thesis using set_correct [OF ok v i(1)] s i by auto
next
  case False
  note d = pa_okD [OF ok]
  let ?n = "max (w32 (arr_size pa * 2)) (w32 (i + 1))"
  have n: "?n = max (length (start pa) * 2) (i + 1)" using i d(1) by (simp add: SENT_val)
  then have "length (start pa) < ?n" "?n \<le> SENT" using False i by auto
  then obtain pa1 where g: "ucs_ptr_array_grow pa ?n = Some pa1" "pa_ok pa1 (fl @ [length (start pa)..<?n])"
    "length (start pa1) = ?n" using grow_correct [OF ok, of ?n] by blast
  have "i < ?n" using n by simp
  then have u: "i < length (start pa1)" "ptr_is_free (start pa1 ! i)"
    using pa_okD(5) [OF g(2), of i] False g(3) by auto
  have "ucs_ptr_array_set pa1 i v = ucs_ptr_array_set pa i v"
    using g(1) u False d(1) pa_okD(1) [OF g(2)] v by (simp add: ucs_ptr_array_set_def value_not_free)
  moreover have "length (start pa2) = ?n" if "ucs_ptr_array_set pa1 i v = Some pa2" for pa2
    using set_correct [OF g(2) v i(1)] u(1) g(3) that by auto
  ultimately show ?thesis using s n False by auto
qed

section \<open>Iteration\<close>

lemma for_each_index_correct:
  assumes ok: "pa_ok pa fl"
  shows "length (start pa) < n + i \<Longrightarrow> i \<le> length (start pa) \<Longrightarrow>
    for_each_index n pa i = Some [(j, start pa ! j). j \<leftarrow> [i..<length (start pa)], \<not> ptr_is_free (start pa ! j)]"
proof (induction n arbitrary: i)
  case (Suc n)
  note d = pa_okD [OF ok]
  show ?case
  proof (cases "i < length (start pa)")
    case True
    let ?e = "start pa ! i"
    define k where "k = (if ptr_is_free ?e then slot_ahead ?e else 1)"
    have k: "1 \<le> k \<and> i + k \<le> length (start pa) \<and> (\<forall>j. i < j \<and> j < i + k \<longrightarrow> ptr_is_free (start pa ! j))"
    proof (cases "ptr_is_free ?e")
      case free: True
      have a: "1 \<le> slot_ahead ?e" "i + slot_ahead ?e \<le> length (start pa)"
        "\<And>m. m < slot_ahead ?e \<Longrightarrow> ptr_is_free (start pa ! (i + m))"
        using d(6) True free unfolding ahead_ok_def by blast+
      have "ptr_is_free (start pa ! j)" if "i < j" "j < i + slot_ahead ?e" for j
        using a(3) [of "j - i"] that by simp
      then show ?thesis using a free by (simp add: k_def)
    qed (use True k_def in auto)
    have st: "ptr_array_step_size pa i = Some k"
      using True slot_ahead_less [of ?e] by (simp add: ptr_array_step_size_def k_def slot_ahead_def)
    have w: "w32 (i + k) = i + k" using k d(2) by (simp add: SENT_val)
    have "[i..<length (start pa)] = i # [i + 1..<i + k] @ [i + k..<length (start pa)]"
      using upt_add_eq_append [of "i + 1" "i + k" "length (start pa) - (i + k)"] upt_conv_Cons [OF True] k by simp
    moreover have "[(j, start pa ! j). j \<leftarrow> [i + 1..<i + k], \<not> ptr_is_free (start pa ! j)] = []"
      using k by simp
    ultimately show ?thesis using Suc.IH [of "i + k"] Suc.prems True k st w d(1) by simp
  qed (use d(1) in simp)
qed simp

lemma for_each_correct:
  "pa_ok pa fl \<Longrightarrow> ucs_ptr_array_for_each pa =
     Some [(j, the (pa_map pa j)). j \<leftarrow> [0..<arr_size pa], j \<in> dom (pa_map pa)]"
  using for_each_index_correct [of pa fl "Suc (arr_size pa)" 0] pa_okD(1) [of pa fl]
  by (auto simp: ucs_ptr_array_for_each_def pa_map_def dom_def intro!: arg_cong [where f = concat])

lemma count_correct:
  assumes ok: "pa_ok pa fl"
  shows "arr_count pa = card (dom (pa_map pa))" "finite (dom (pa_map pa))"
proof -
  note d = pa_okD [OF ok]
  have "dom (pa_map pa) = {..<length (start pa)} - set fl" using d(5) by (auto simp: pa_map_def dom_def)
  moreover have "set fl \<subseteq> {..<length (start pa)}" using d(5) by blast
  ultimately have "card (dom (pa_map pa)) = length (start pa) - length fl"
    using card_Diff_subset [of "set fl" "{..<length (start pa)}"] distinct_card [OF d(4)] by simp
  then show "arr_count pa = card (dom (pa_map pa))" using d(7) by linarith
  show "finite (dom (pa_map pa))" by (rule finite_subset [of _ "{..<length (start pa)}"]) (auto simp: pa_map_def dom_def)
qed

section \<open>The contract of a table of identifiers\<close>

locale id_table =
  fixes inv :: "'s \<Rightarrow> bool" and view :: "'s \<Rightarrow> nat \<rightharpoonup> 'v" and room :: "'s \<Rightarrow> bool" and valid :: "'v \<Rightarrow> bool"
    and ins :: "'s \<Rightarrow> 'v \<Rightarrow> (nat \<times> 's) option" and del :: "'s \<Rightarrow> nat \<Rightarrow> 's option" and look :: "'s \<Rightarrow> nat \<Rightarrow> 'v option option"
  assumes ins: "inv s \<Longrightarrow> room s \<Longrightarrow> valid v \<Longrightarrow>
      \<exists>i s'. ins s v = Some (i, s') \<and> inv s' \<and> view s i = None \<and> view s' = (view s)(i \<mapsto> v)"
    and del: "inv s \<Longrightarrow> i \<in> dom (view s) \<Longrightarrow> \<exists>s'. del s i = Some s' \<and> inv s' \<and> view s' = (view s)(i := None)"
    and look: "inv s \<Longrightarrow> look s i = Some (view s i)"
begin

lemma ins_look:
  assumes "inv s" "room s" "valid v" "ins s v = Some (i, s')"
  shows "look s i = Some None" "look s' i = Some (Some v)" "j \<noteq> i \<Longrightarrow> look s' j = look s j"
  using ins [OF assms(1-3)] assms look by auto

lemma ins_del_id:
  assumes "inv s" "room s" "valid v" "ins s v = Some (i, s')"
  shows "\<exists>s''. del s' i = Some s'' \<and> inv s'' \<and> view s'' = view s"
proof -
  have s': "inv s'" "view s i = None" "view s' = (view s)(i \<mapsto> v)" using ins [OF assms(1-3)] assms(4) by auto
  then obtain s'' where "del s' i = Some s''" "inv s''" "view s'' = (view s')(i := None)"
    using del [OF s'(1), of i] s'(3) by auto
  then show ?thesis using s'(2,3) by (auto simp: fun_upd_idem)
qed

lemma del_look:
  assumes "inv s" "look s i = Some (Some v)" "del s i = Some s'"
  shows "look s' i = Some None" "j \<noteq> i \<Longrightarrow> look s' j = look s j"
  using del [OF assms(1), of i] assms look by (auto simp: dom_def)

end

definition pa_inv :: "ucs_ptr_array \<Rightarrow> bool" where
  "pa_inv pa \<longleftrightarrow> (\<exists>fl. pa_ok pa fl) \<and> length (start pa) < 2 ^ 30"

definition pa_below :: "ucs_ptr_array \<Rightarrow> bool" where
  "pa_below pa \<longleftrightarrow> arr_count pa < 2 ^ 29"

lemma pa_inv_room: "pa_inv pa \<Longrightarrow> pa_room pa 1"
  by (auto simp: pa_inv_def pa_room_def SENT_val)

lemma pa_inv_insert:
  assumes "pa_inv pa" "pa_below pa" "\<not> ptr_is_free v"
  shows "\<exists>i pa'. ucs_ptr_array_insert pa v = Some (i, pa') \<and> pa_inv pa' \<and> pa_map pa i = None \<and> pa_map pa' = (pa_map pa)(i \<mapsto> v)"
proof -
  obtain fl where ok: "pa_ok pa fl" and l: "length (start pa) < 2 ^ 30" using assms(1) by (auto simp: pa_inv_def)
  note room = pa_inv_room [OF assms(1)]
  obtain i pa' fl' where i: "ucs_ptr_array_insert pa v = Some (i, pa')" "pa_ok pa' fl'" "pa_map pa i = None"
    "pa_map pa' = (pa_map pa)(i \<mapsto> v)" using insert_correct [OF ok room assms(3)] by blast
  have "length (start pa') < 2 ^ 30" using insert_length [OF ok room i(1)] l assms(2) by (simp add: pa_below_def)
  then show ?thesis using i by (auto simp: pa_inv_def)
qed

lemma pa_inv_remove:
  assumes "pa_inv pa" "i \<in> dom (pa_map pa)"
  shows "\<exists>pa'. ucs_ptr_array_remove pa i = Some pa' \<and> pa_inv pa' \<and> pa_map pa' = (pa_map pa)(i := None)"
  using assms remove_correct [of pa _ i] unfolding pa_inv_def by metis

lemma pa_inv_lookup: "pa_inv pa \<Longrightarrow> ucs_ptr_array_lookup pa i = Some (pa_map pa i)"
  using lookup_correct by (auto simp: pa_inv_def)

interpretation ptr_table: id_table pa_inv pa_map pa_below "\<lambda>v. \<not> ptr_is_free v"
  ucs_ptr_array_insert ucs_ptr_array_remove ucs_ptr_array_lookup
  by unfold_locales (simp_all add: pa_inv_insert pa_inv_remove pa_inv_lookup)

section \<open>Programs that use the array\<close>

lemma pa_inv_set:
  assumes "pa_inv pa" "i < 2 ^ 29" "\<not> ptr_is_free v"
  shows "\<exists>pa'. ucs_ptr_array_set pa i v = Some pa' \<and> pa_inv pa' \<and> pa_map pa' = (pa_map pa)(i \<mapsto> v)"
proof -
  obtain fl where ok: "pa_ok pa fl" and l: "length (start pa) < 2 ^ 30" using assms(1) by (auto simp: pa_inv_def)
  have i: "i < SENT" "2 * length (start pa) \<le> SENT" using assms(2) l by (simp_all add: SENT_val)
  obtain pa' fl' where s: "ucs_ptr_array_set pa i v = Some pa'" "pa_ok pa' fl'" "pa_map pa' = (pa_map pa)(i \<mapsto> v)"
    using set_correct [OF ok assms(3) i(1)] i(2) by blast
  have "length (start pa') < 2 ^ 30" using set_length [OF ok assms(3) i s(1)] assms(2) l by simp
  then show ?thesis using s by (auto simp: pa_inv_def)
qed

lemma pa_inv_replace:
  assumes "pa_inv pa" "pa_map pa i = Some u" "\<not> ptr_is_free v"
  shows "\<exists>pa'. ucs_ptr_array_replace pa i v = Some (u, pa') \<and> pa_inv pa' \<and> pa_map pa' = (pa_map pa)(i \<mapsto> v)"
proof -
  obtain fl where ok: "pa_ok pa fl" and l: "length (start pa) < 2 ^ 30" using assms(1) by (auto simp: pa_inv_def)
  obtain pa' where s: "ucs_ptr_array_replace pa i v = Some (u, pa')" "pa_ok pa' fl" "pa_map pa' = (pa_map pa)(i \<mapsto> v)"
    using replace_correct [OF ok assms(2,3)] by blast
  have "length (start pa') = length (start pa)"
    using s(1) by (auto simp: ucs_ptr_array_replace_def arr_set_def split: bind_splits if_splits)
  then show ?thesis using s l by (auto simp: pa_inv_def)
qed

lemma pa_inv_bulk:
  assumes "pa_inv pa" "1 \<le> n" "max (2 * arr_size pa) (arr_size pa + n) < 2 ^ 30"
  shows "\<exists>i pa'. ucs_ptr_array_bulk_alloc pa n = Some (i, pa') \<and> pa_inv pa' \<and>
    (\<forall>j. i \<le> j \<and> j < i + n \<longrightarrow> pa_map pa j = None) \<and>
    pa_map pa' = (\<lambda>j. if i \<le> j \<and> j < i + n then Some 0 else pa_map pa j)"
proof -
  obtain fl where ok: "pa_ok pa fl" using assms(1) by (auto simp: pa_inv_def)
  have "pa_room pa n" using assms(3) pa_okD(1) [OF ok] by (simp add: pa_room_def SENT_val)
  from bulk_alloc_correct [OF ok assms(2) this] obtain i pa' fl' where
    b: "ucs_ptr_array_bulk_alloc pa n = Some (i, pa')" "pa_ok pa' fl'"
      "length (start pa') \<le> max (2 * length (start pa)) (length (start pa) + n)"
      "\<forall>j. i \<le> j \<and> j < i + n \<longrightarrow> pa_map pa j = None"
      "pa_map pa' = (\<lambda>j. if i \<le> j \<and> j < i + n then Some 0 else pa_map pa j)" by blast
  have "pa_inv pa'" using b(2,3) assms(3) pa_okD(1) [OF ok] unfolding pa_inv_def by auto
  then show ?thesis using b(1,4,5) by blast
qed

text \<open>
  States of the array under a program that inserts aligned pointers, never holds \<open>2 ^ 29\<close> of them at
  once, removes and replaces only what it holds, and sets slots below \<open>2 ^ 29\<close>.  The second argument
  is what the program put into the array.
\<close>

inductive pa_reach :: "ucs_ptr_array \<Rightarrow> (nat \<rightharpoonup> u64) \<Rightarrow> bool" where
  reach_init: "pa_reach (ucs_ptr_array_init pa) Map.empty"
| reach_insert: "pa_reach pa m \<Longrightarrow> card (dom m) < 2 ^ 29 \<Longrightarrow> \<not> ptr_is_free v \<Longrightarrow>
    ucs_ptr_array_insert pa v = Some (i, pa') \<Longrightarrow> pa_reach pa' (m(i \<mapsto> v))"
| reach_set: "pa_reach pa m \<Longrightarrow> i < 2 ^ 29 \<Longrightarrow> \<not> ptr_is_free v \<Longrightarrow>
    ucs_ptr_array_set pa i v = Some pa' \<Longrightarrow> pa_reach pa' (m(i \<mapsto> v))"
| reach_remove: "pa_reach pa m \<Longrightarrow> i \<in> dom m \<Longrightarrow>
    ucs_ptr_array_remove pa i = Some pa' \<Longrightarrow> pa_reach pa' (m(i := None))"
| reach_replace: "pa_reach pa m \<Longrightarrow> i \<in> dom m \<Longrightarrow> \<not> ptr_is_free v \<Longrightarrow>
    ucs_ptr_array_replace pa i v = Some (u, pa') \<Longrightarrow> pa_reach pa' (m(i \<mapsto> v))"
| reach_bulk: "pa_reach pa m \<Longrightarrow> 1 \<le> n \<Longrightarrow> max (2 * arr_size pa) (arr_size pa + n) < 2 ^ 30 \<Longrightarrow>
    ucs_ptr_array_bulk_alloc pa n = Some (i, pa') \<Longrightarrow> pa_reach pa' (\<lambda>j. if i \<le> j \<and> j < i + n then Some 0 else m j)"

lemma pa_inv_count: "pa_inv pa \<Longrightarrow> arr_count pa = card (dom (pa_map pa))"
  using count_correct(1) by (auto simp: pa_inv_def)

lemma pa_reach_inv: "pa_reach pa m \<Longrightarrow> pa_inv pa \<and> pa_map pa = m"
proof (induction rule: pa_reach.induct)
  case (reach_init pa)
  show ?case using pa_ok_init [of pa]
    by (auto simp: pa_inv_def ucs_ptr_array_init_def ucs_ptr_array_clear_def)
next
  case (reach_insert pa m v i pa')
  then show ?case using pa_inv_insert [of pa v] pa_inv_count [of pa] by (auto simp: pa_below_def)
next
  case (reach_set pa m i v pa')
  then show ?case using pa_inv_set [of pa i v] by auto
next
  case (reach_remove pa m i pa')
  then show ?case using pa_inv_remove [of pa i] by auto
next
  case (reach_replace pa m i v u pa')
  then show ?case using pa_inv_replace [of pa i _ v] by fastforce
next
  case (reach_bulk pa m n i pa')
  then show ?case using pa_inv_bulk [of pa n] by auto
qed

section \<open>Properties\<close>

text \<open>C9: In every state a legal program reaches, the array is the table the program built: a lookup
  returns what is stored under an index and nothing for any other index, inside or outside the
  allocated slots; the element counter is the number of entries; and the iteration macro, although it
  skips runs of free slots by the recorded run lengths, visits each entry once, in the order of the
  indices.\<close>

theorem ptr_array_is_table:
  assumes "pa_reach pa m"
  shows "ucs_ptr_array_lookup pa i = Some (m i) \<and> ucs_ptr_array_get_elem_count pa = card (dom m) \<and>
    ucs_ptr_array_for_each pa = Some [(j, the (m j)). j \<leftarrow> [0..<arr_size pa], j \<in> dom m] \<and> dom m \<subseteq> {..<arr_size pa}"
proof -
  have inv: "pa_inv pa" "pa_map pa = m" using pa_reach_inv [OF assms] by auto
  then obtain fl where ok: "pa_ok pa fl" by (auto simp: pa_inv_def)
  have "dom m \<subseteq> {..<arr_size pa}" using inv(2) pa_okD(1) [OF ok] by (auto simp: pa_map_def split: if_splits)
  then show ?thesis
    using lookup_correct [OF ok] for_each_correct [OF ok] pa_inv_count [OF inv(1)]
    unfolding ucs_ptr_array_get_elem_count_def inv(2) by blast
qed

definition sample_pa :: ucs_ptr_array where
  "sample_pa = ucs_ptr_array_init \<lparr>start = [], freelist = 0, arr_size = 0, arr_count = 0\<rparr>"

lemma sample_ok: "pa_reach sample_pa Map.empty" "pa_inv sample_pa" "pa_below sample_pa" "\<not> ptr_is_free 8"
proof -
  show "pa_reach sample_pa Map.empty" unfolding sample_pa_def by (rule reach_init)
  then show "pa_inv sample_pa" using pa_reach_inv by blast
  show "pa_below sample_pa" by (simp add: pa_below_def sample_pa_def ucs_ptr_array_init_def ucs_ptr_array_clear_def)
  show "\<not> ptr_is_free 8" by (simp add: ptr_is_free_def UCS_PTR_ARRAY_FLAG_FREE_def)
qed

lemma sample_insert: "\<exists>i pa. ucs_ptr_array_insert sample_pa 8 = Some (i, pa) \<and> pa_reach pa [i \<mapsto> 8]"
  using pa_inv_insert [OF sample_ok(2-4)] reach_insert [OF sample_ok(1) _ sample_ok(4)] by fastforce

theorem ptr_array_is_table_witness:
  "\<exists>i pa. ucs_ptr_array_insert sample_pa 8 = Some (i, pa) \<and> ucs_ptr_array_lookup pa i = Some (Some 8)"
proof -
  obtain i pa where "ucs_ptr_array_insert sample_pa 8 = Some (i, pa)" "pa_reach pa [i \<mapsto> 8]" using sample_insert by blast
  then show ?thesis using ptr_array_is_table [of pa "[i \<mapsto> 8]" i] by auto
qed

text \<open>C10: No legal request fails an assertion or leaves the allocated slots.  In every reachable
  state inserting an aligned pointer returns an index that no entry holds and stores the pointer
  there; a bulk allocation returns a run of indices that no entry holds and fills it with zero;
  removing an entry succeeds and frees exactly that index.  All other entries stay where they are.\<close>

theorem ptr_array_progress:
  assumes "pa_reach pa m"
  shows "(card (dom m) < 2 ^ 29 \<and> \<not> ptr_is_free v \<longrightarrow>
      (\<exists>i pa'. ucs_ptr_array_insert pa v = Some (i, pa') \<and> i \<notin> dom m \<and> pa_reach pa' (m(i \<mapsto> v)))) \<and>
    (1 \<le> n \<and> max (2 * arr_size pa) (arr_size pa + n) < 2 ^ 30 \<longrightarrow>
      (\<exists>i pa'. ucs_ptr_array_bulk_alloc pa n = Some (i, pa') \<and> {i..<i + n} \<inter> dom m = {} \<and>
         pa_reach pa' (\<lambda>j. if i \<le> j \<and> j < i + n then Some 0 else m j))) \<and>
    (k \<in> dom m \<longrightarrow> (\<exists>pa'. ucs_ptr_array_remove pa k = Some pa' \<and> pa_reach pa' (m(k := None))))"
proof (intro conjI impI)
  have inv: "pa_inv pa" "pa_map pa = m" using pa_reach_inv [OF assms] by auto
  show "\<exists>i pa'. ucs_ptr_array_insert pa v = Some (i, pa') \<and> i \<notin> dom m \<and> pa_reach pa' (m(i \<mapsto> v))"
    if "card (dom m) < 2 ^ 29 \<and> \<not> ptr_is_free v"
    using pa_inv_insert [OF inv(1), of v] pa_inv_count [OF inv(1)] inv(2) that reach_insert [OF assms, of v]
    by (auto simp: pa_below_def)
  show "\<exists>i pa'. ucs_ptr_array_bulk_alloc pa n = Some (i, pa') \<and> {i..<i + n} \<inter> dom m = {} \<and>
      pa_reach pa' (\<lambda>j. if i \<le> j \<and> j < i + n then Some 0 else m j)"
    if b: "1 \<le> n \<and> max (2 * arr_size pa) (arr_size pa + n) < 2 ^ 30"
  proof -
    obtain i pa' where a: "ucs_ptr_array_bulk_alloc pa n = Some (i, pa')" "\<forall>j. i \<le> j \<and> j < i + n \<longrightarrow> m j = None"
      using pa_inv_bulk [OF inv(1), of n] b inv(2) by auto
    then have "{i..<i + n} \<inter> dom m = {}" by auto
    then show ?thesis using reach_bulk [OF assms _ _ a(1)] a(1) b by blast
  qed
  show "\<exists>pa'. ucs_ptr_array_remove pa k = Some pa' \<and> pa_reach pa' (m(k := None))" if "k \<in> dom m"
    using pa_inv_remove [OF inv(1), of k] inv(2) that reach_remove [OF assms that] by auto
qed

theorem ptr_array_progress_witness:
  "\<exists>i pa pa'. ucs_ptr_array_insert sample_pa 8 = Some (i, pa) \<and> ucs_ptr_array_remove pa i = Some pa' \<and> pa_reach pa' Map.empty"
proof -
  obtain i pa where "ucs_ptr_array_insert sample_pa 8 = Some (i, pa)" "pa_reach pa [i \<mapsto> 8]" using sample_insert by blast
  then show ?thesis using ptr_array_progress [of pa "[i \<mapsto> 8]" 16 1 i] by auto
qed

text \<open>C25: Identifiers are stable and reusable: in any state within the capacity, inserting a pointer
  and removing it again restores the table, and while it is stored every other identifier looks up to
  what it did before.\<close>

theorem ptr_array_insert_remove:
  assumes "pa_inv pa" "pa_below pa" "\<not> ptr_is_free v" "ucs_ptr_array_insert pa v = Some (i, pa')"
  shows "ucs_ptr_array_lookup pa' i = Some (Some v) \<and> (\<forall>j. j \<noteq> i \<longrightarrow> ucs_ptr_array_lookup pa' j = ucs_ptr_array_lookup pa j) \<and>
    (\<exists>pa''. ucs_ptr_array_remove pa' i = Some pa'' \<and> pa_inv pa'' \<and> pa_map pa'' = pa_map pa)"
  using ptr_table.ins_look [OF assms] ptr_table.ins_del_id [OF assms] by blast

theorem ptr_array_insert_remove_witness:
  "\<exists>i pa'. ucs_ptr_array_insert sample_pa 8 = Some (i, pa') \<and> ucs_ptr_array_lookup pa' i = Some (Some 8)"
proof -
  obtain i pa where i: "ucs_ptr_array_insert sample_pa 8 = Some (i, pa)" using sample_insert by blast
  then show ?thesis using ptr_array_insert_remove [OF sample_ok(2-4) i] by blast
qed

end
