(* ===== verification/Buffers.thy ===== *)
theory Buffers
  imports Prelude
begin

text \<open>
  Byte buffers: writing a run of bytes into a buffer, 64-bit \<^verbatim>\<open>size_t\<close> subtraction, and what
  is left in a buffer after the fragments of a message were written in any order.
\<close>

type_synonym bytes = "u8 list"

definition overwrite :: "'a list \<Rightarrow> nat \<Rightarrow> 'a list \<Rightarrow> 'a list" where
  "overwrite buf off src = take off buf @ src @ drop (off + length src) buf"

text \<open>Writing outside the buffer is undefined behaviour.\<close>

definition buf_write :: "'a list \<Rightarrow> nat \<Rightarrow> 'a list \<Rightarrow> 'a list option" where
  "buf_write buf off src = (if off + length src \<le> length buf then Some (overwrite buf off src) else None)"

definition buf_read :: "'a list \<Rightarrow> nat \<Rightarrow> nat \<Rightarrow> 'a list option" where
  "buf_read buf off n = (if off + n \<le> length buf then Some (take n (drop off buf)) else None)"

text \<open>Subtraction of \<^verbatim>\<open>size_t\<close> values, on numbers below \<open>2 ^ 64\<close>.\<close>

definition sub64 :: "nat \<Rightarrow> nat \<Rightarrow> nat" where
  "sub64 a b = (if b \<le> a then a - b else a + 2 ^ 64 - b)"

lemma sub64_id [simp]: "b \<le> a \<Longrightarrow> sub64 a b = a - b"
  by (simp add: sub64_def)

lemma buf_write_ok [simp]: "off + length src \<le> length buf \<Longrightarrow> buf_write buf off src = Some (overwrite buf off src)"
  by (simp add: buf_write_def)

lemma buf_read_ok [simp]: "off + n \<le> length buf \<Longrightarrow> buf_read buf off n = Some (take n (drop off buf))"
  by (simp add: buf_read_def)

lemma length_overwrite [simp]: "off + length src \<le> length buf \<Longrightarrow> length (overwrite buf off src) = length buf"
  by (simp add: overwrite_def)

lemma overwrite_Nil [simp]: "overwrite buf off [] = buf"
  by (simp add: overwrite_def)

lemma overwrite_all [simp]: "length src = length buf \<Longrightarrow> overwrite buf 0 src = src"
  by (simp add: overwrite_def)

lemma nth_overwrite:
  assumes "off + length src \<le> length buf" "i < length buf"
  shows "overwrite buf off src ! i = (if off \<le> i \<and> i < off + length src then src ! (i - off) else buf ! i)"
  using assms by (auto simp: overwrite_def nth_append min_def)

lemma overwrite_append_left:
  "off + length src \<le> length xs \<Longrightarrow> overwrite (xs @ ys) off src = overwrite xs off src @ ys"
  by (simp add: overwrite_def)

lemma overwrite_append_right: "overwrite (xs @ ys) (length xs + off) src = xs @ overwrite ys off src"
  by (simp add: overwrite_def add.assoc)

text \<open>Writing two adjacent runs is one write.\<close>

lemma overwrite_split:
  assumes "off + length a + length b \<le> length buf"
  shows "overwrite (overwrite buf off a) (off + length a) b = overwrite buf off (a @ b)"
  using assms by (simp add: overwrite_def ac_simps)

lemma take_drop_overwrite:
  "off + length src \<le> length buf \<Longrightarrow> take (length src) (drop off (overwrite buf off src)) = src"
  by (simp add: overwrite_def)

section \<open>Fragments\<close>

text \<open>A fragment of a message is an offset and the bytes of the message there.\<close>

definition frag_of :: "'a list \<Rightarrow> nat \<times> 'a list \<Rightarrow> bool" where
  "frag_of msg f \<longleftrightarrow> fst f + length (snd f) \<le> length msg \<and> snd f = take (length (snd f)) (drop (fst f) msg)"

definition covered :: "(nat \<times> 'a list) list \<Rightarrow> nat \<Rightarrow> bool" where
  "covered fs i \<longleftrightarrow> (\<exists>f \<in> set fs. fst f \<le> i \<and> i < fst f + length (snd f))"

definition write_frags :: "'a list \<Rightarrow> (nat \<times> 'a list) list \<Rightarrow> 'a list" where
  "write_frags buf fs = foldl (\<lambda>b (off, src). overwrite b off src) buf fs"

lemma frag_of_nth: "frag_of msg (off, src) \<Longrightarrow> j < length src \<Longrightarrow> src ! j = msg ! (off + j)"
  by (metis add_leD1 add_lessD1 frag_of_def fst_conv nth_drop nth_take snd_conv)

lemma write_frags_snoc [simp]: "write_frags buf (fs @ [(off, src)]) = overwrite (write_frags buf fs) off src"
  by (simp add: write_frags_def)

lemma write_frags_correct:
  assumes "\<forall>f \<in> set fs. frag_of msg f" "length msg \<le> length buf"
  shows "length (write_frags buf fs) = length buf \<and>
    (\<forall>i < length buf. write_frags buf fs ! i = (if covered fs i then msg ! i else buf ! i))"
  using assms(1)
proof (induction fs rule: rev_induct)
  case Nil
  then show ?case by (simp add: write_frags_def covered_def)
next
  case (snoc f fs)
  obtain off src where f: "f = (off, src)" by fastforce
  have len: "length (write_frags buf fs) = length buf" and nth: "\<And>i. i < length buf \<Longrightarrow>
    write_frags buf fs ! i = (if covered fs i then msg ! i else buf ! i)" using snoc by auto
  have fr: "frag_of msg (off, src)" using snoc.prems f by simp
  then have b: "off + length src \<le> length (write_frags buf fs)" using assms(2) len by (simp add: frag_of_def)
  have "write_frags buf (fs @ [f]) ! i = (if covered (fs @ [f]) i then msg ! i else buf ! i)" if i: "i < length buf" for i
    using nth_overwrite [OF b, of i] nth [OF i] i len frag_of_nth [OF fr, of "i - off"] f
    by (auto simp: covered_def)
  then show ?case using b len f by simp
qed

text \<open>Fragments that together cover the message leave exactly the message, in any order.\<close>

lemma write_frags_complete:
  assumes "\<forall>f \<in> set fs. frag_of msg f" "length msg \<le> length buf" "\<forall>i < length msg. covered fs i"
  shows "write_frags buf fs = msg @ drop (length msg) buf"
proof (rule nth_equalityI)
  show "length (write_frags buf fs) = length (msg @ drop (length msg) buf)"
    using write_frags_correct [OF assms(1,2)] assms(2) by simp
  fix i assume "i < length (write_frags buf fs)"
  then have i: "i < length buf" using write_frags_correct [OF assms(1,2)] by simp
  have "\<not> covered fs i" if "length msg \<le> i"
    using assms(1) that by (fastforce simp: covered_def frag_of_def)
  then show "write_frags buf fs ! i = (msg @ drop (length msg) buf) ! i"
    using write_frags_correct [OF assms(1,2)] assms(3) i by (auto simp: nth_append)
qed

end
