(* ===== verification/Dt_Iov.thy ===== *)
theory Dt_Iov
  imports Buffers
begin

text \<open>
  Scatter-gather lists, \<^verbatim>\<open>src/src/ucp/dt/dt_iov.c\<close> and \<^verbatim>\<open>dt_iov.h\<close>.  A list
  is the list of the buffers of its items, which do not overlap; a position is the index of an item
  and an offset inside it.  \<open>flat_pos\<close> is the position in the concatenation, and the lemmas say
  that gathering reads, scattering writes and seeking moves in the concatenation.
\<close>

type_synonym ucp_dt_iov = "bytes list"

definition ucp_dt_iov_length :: "ucp_dt_iov \<Rightarrow> nat \<Rightarrow> nat" where
  "ucp_dt_iov_length iov iovcnt = foldl (\<lambda>total_length iov_it. total_length + length (iov ! iov_it)) 0 [0..<iovcnt]"

definition ucp_dt_iov_count_nonempty :: "ucp_dt_iov \<Rightarrow> nat \<Rightarrow> nat" where
  "ucp_dt_iov_count_nonempty iov iovcnt =
     foldl (\<lambda>count iov_it. count + (if length (iov ! iov_it) \<noteq> 0 then 1 else 0)) 0 [0..<iovcnt]"

text \<open>
  \<^verbatim>\<open>item_len_to_copy\<close> is computed with a signed maximum.  In the gather loop an offset beyond
  the item makes \<^verbatim>\<open>item_reminder\<close> wrap around and the copy read outside the item.
\<close>

definition gather_copy_len :: "nat \<Rightarrow> nat \<Rightarrow> nat \<Rightarrow> nat" where
  "gather_copy_len item_reminder length_it len =
     nat (int item_reminder - max (int (length_it + item_reminder) - int len) 0)"

definition scatter_copy_len :: "nat \<Rightarrow> nat \<Rightarrow> nat \<Rightarrow> nat \<Rightarrow> nat" where
  "scatter_copy_len item_len iov_offset length_it len =
     min (nat (max (int item_len - int iov_offset) 0)) (len - length_it)"

function gather_loop :: "ucp_dt_iov \<Rightarrow> nat \<Rightarrow> nat \<Rightarrow> bytes \<Rightarrow> nat \<Rightarrow> nat \<Rightarrow> (bytes \<times> nat \<times> nat) option" where
  "gather_loop iov len length_it dest iov_offset iovcnt_offset =
     (if length_it < len then
        (if iovcnt_offset < length iov \<and> iov_offset \<le> length (iov ! iovcnt_offset) then
           let item_len = length (iov ! iovcnt_offset);
               item_reminder = item_len - iov_offset;
               item_len_to_copy = gather_copy_len item_reminder length_it len;
               dest1 = dest @ take item_len_to_copy (drop iov_offset (iov ! iovcnt_offset));
               length_it1 = length_it + item_len_to_copy
           in if length_it1 < len
              then gather_loop iov len length_it1 dest1 0 (iovcnt_offset + 1)
              else if length_it1 \<le> len then Some (dest1, iov_offset + item_len_to_copy, iovcnt_offset)
              else None
         else None)
      else Some (dest, iov_offset, iovcnt_offset))"
  by pat_completeness auto

termination
  by (relation "measure (\<lambda>(iov, len, it, dest, off, idx). length iov - idx)") auto

definition ucp_dt_iov_gather :: "ucp_dt_iov \<Rightarrow> nat \<Rightarrow> nat \<Rightarrow> nat \<Rightarrow> (bytes \<times> nat \<times> nat) option" where
  "ucp_dt_iov_gather iov len iov_offset iovcnt_offset = gather_loop iov len 0 [] iov_offset iovcnt_offset"

function scatter_loop :: "ucp_dt_iov \<Rightarrow> nat \<Rightarrow> bytes \<Rightarrow> nat \<Rightarrow> nat \<Rightarrow> nat \<Rightarrow> nat \<Rightarrow> (nat \<times> ucp_dt_iov \<times> nat \<times> nat) option" where
  "scatter_loop iov iovcnt src len length_it iov_offset iovcnt_offset =
     (if length_it < len \<and> iovcnt_offset < iovcnt then
        (if iovcnt_offset < length iov \<and> iov_offset \<le> length (iov ! iovcnt_offset) then
           let item_len = length (iov ! iovcnt_offset);
               item_len_to_copy = scatter_copy_len item_len iov_offset length_it len;
               iov1 = iov[iovcnt_offset := overwrite (iov ! iovcnt_offset) iov_offset (take item_len_to_copy (drop length_it src))];
               length_it1 = length_it + item_len_to_copy
           in if length_it1 < len
              then scatter_loop iov1 iovcnt src len length_it1 0 (iovcnt_offset + 1)
              else scatter_loop iov1 iovcnt src len length_it1 (iov_offset + item_len_to_copy) iovcnt_offset
         else None)
      else Some (length_it, iov, iov_offset, iovcnt_offset))"
  by pat_completeness auto

termination
  by (relation "measure (\<lambda>(iov, cnt, src, len, it, off, idx). (len - it) + (length iov - idx))")
    (auto simp: Let_def)

definition ucp_dt_iov_scatter :: "ucp_dt_iov \<Rightarrow> nat \<Rightarrow> bytes \<Rightarrow> nat \<Rightarrow> nat \<Rightarrow> nat \<Rightarrow> (nat \<times> ucp_dt_iov \<times> nat \<times> nat) option" where
  "ucp_dt_iov_scatter iov iovcnt src len iov_offset iovcnt_offset = scatter_loop iov iovcnt src len 0 iov_offset iovcnt_offset"

fun seek_backwards :: "ucp_dt_iov \<Rightarrow> int \<Rightarrow> nat \<Rightarrow> (int \<times> nat) option" where
  "seek_backwards iov new_iov_offset 0 = None"
| "seek_backwards iov new_iov_offset (Suc iovcnt_offset) =
     (if iovcnt_offset < length iov then
        let new_iov_offset1 = new_iov_offset + int (length (iov ! iovcnt_offset))
        in if new_iov_offset1 < 0 then seek_backwards iov new_iov_offset1 iovcnt_offset
           else Some (new_iov_offset1, iovcnt_offset)
      else None)"

function seek_forward :: "ucp_dt_iov \<Rightarrow> nat \<Rightarrow> int \<Rightarrow> nat \<Rightarrow> (int \<times> nat) option" where
  "seek_forward iov iovcnt new_iov_offset iovcnt_offset =
     (if iovcnt_offset < length iov then
        if new_iov_offset \<ge> int (length (iov ! iovcnt_offset)) then
          if iovcnt_offset + 1 < iovcnt
          then seek_forward iov iovcnt (new_iov_offset - int (length (iov ! iovcnt_offset))) (iovcnt_offset + 1)
          else None
        else Some (new_iov_offset, iovcnt_offset)
      else None)"
  by pat_completeness auto

termination
  by (relation "measure (\<lambda>(iov, cnt, new, idx). length iov - idx)") auto

definition ucp_dt_iov_seek :: "ucp_dt_iov \<Rightarrow> nat \<Rightarrow> int \<Rightarrow> nat \<Rightarrow> nat \<Rightarrow> (nat \<times> nat) option" where
  "ucp_dt_iov_seek iov iovcnt distance iov_offset iovcnt_offset = do {
     let new_iov_offset = int iov_offset + distance;
     (off, idx) \<leftarrow> (if new_iov_offset < 0 then seek_backwards iov new_iov_offset iovcnt_offset
                   else seek_forward iov iovcnt new_iov_offset iovcnt_offset);
     Some (nat off, idx)
   }"

declare gather_loop.simps [simp del] scatter_loop.simps [simp del] seek_forward.simps [simp del]

section \<open>Positions\<close>

definition flat_pos :: "ucp_dt_iov \<Rightarrow> nat \<Rightarrow> nat \<Rightarrow> nat" where
  "flat_pos iov off idx = length (concat (take idx iov)) + off"

text \<open>A position inside the list: the offset is at most the length of the item.\<close>

definition pos_in :: "ucp_dt_iov \<Rightarrow> nat \<Rightarrow> nat \<Rightarrow> bool" where
  "pos_in iov off idx \<longleftrightarrow> idx < length iov \<and> off \<le> length (iov ! idx)"

lemma concat_split: "idx < length iov \<Longrightarrow> concat iov = concat (take idx iov) @ iov ! idx @ concat (drop (Suc idx) iov)"
  by (metis concat.simps(2) concat_append id_take_nth_drop)

lemma length_concat_split:
  "idx < length iov \<Longrightarrow> length (concat iov) = length (concat (take idx iov)) + length (iov ! idx) + length (concat (drop (Suc idx) iov))"
  using concat_split [of idx iov] by (metis add.assoc length_append)

lemma flat_pos_Suc: "idx < length iov \<Longrightarrow> flat_pos iov off (Suc idx) = flat_pos iov (length (iov ! idx) + off) idx"
  by (simp add: flat_pos_def take_Suc_conv_app_nth)

lemma flat_pos_le: "pos_in iov off idx \<Longrightarrow> flat_pos iov off idx \<le> length (concat iov)"
  using length_concat_split [of idx iov] by (simp add: flat_pos_def pos_in_def)

lemma pos_next:
  assumes "idx < length iov" "flat_pos iov (length (iov ! idx)) idx < length (concat iov)"
  shows "Suc idx < length iov"
proof (rule ccontr)
  assume "\<not> Suc idx < length iov"
  then have "concat (drop (Suc idx) iov) = []" by simp
  then show False using assms length_concat_split [OF assms(1)] by (simp add: flat_pos_def)
qed

section \<open>Gather\<close>

lemma item_drop:
  assumes "pos_in iov off idx"
  shows "drop (flat_pos iov off idx) (concat iov) = drop off (iov ! idx) @ concat (drop (Suc idx) iov)"
  using assms concat_split [of idx iov] by (simp add: flat_pos_def pos_in_def)

lemma gather_loop_correct:
  assumes "pos_in iov off idx" "it \<le> len" "flat_pos iov off idx + (len - it) \<le> length (concat iov)"
  shows "\<exists>off' idx'. gather_loop iov len it dest off idx =
      Some (dest @ take (len - it) (drop (flat_pos iov off idx) (concat iov)), off', idx') \<and>
    pos_in iov off' idx' \<and> flat_pos iov off' idx' = flat_pos iov off idx + (len - it)"
  using assms
proof (induction iov len it dest off idx rule: gather_loop.induct)
  case (1 iov len it dest off idx)
  let ?item = "iov ! idx" and ?rem = "length (iov ! idx) - off"
  define n where "n = gather_copy_len ?rem it len"
  have n: "n = min ?rem (len - it)" using "1.prems"(2) by (auto simp: n_def gather_copy_len_def)
  have p: "idx < length iov" "off \<le> length ?item" using "1.prems"(1) by (auto simp: pos_in_def)
  show ?case
  proof (cases "it < len")
    case False
    then show ?thesis using "1.prems" by (subst gather_loop.simps) simp
  next
    case True
    show ?thesis
    proof (cases "it + n < len")
      case False
      then have n': "n = len - it" "it + n = len" using n "1.prems"(2) by auto
      then have "len - it \<le> ?rem" using n by simp
      then have "take (len - it) (drop (flat_pos iov off idx) (concat iov)) = take n (drop off ?item)"
        using item_drop [OF "1.prems"(1)] n' by simp
      moreover have "gather_loop iov len it dest off idx = Some (dest @ take n (drop off ?item), off + n, idx)"
        using True False n'(2) p by (subst gather_loop.simps) (simp add: Let_def flip: n_def)
      moreover have "pos_in iov (off + n) idx" using p n by (simp add: pos_in_def)
      moreover have "flat_pos iov (off + n) idx = flat_pos iov off idx + (len - it)" using n'(1) by (simp add: flat_pos_def)
      ultimately show ?thesis by auto
    next
      case more: True
      then have n': "n = ?rem" using n by auto
      have f: "flat_pos iov 0 (Suc idx) = flat_pos iov off idx + n"
        using flat_pos_Suc [OF p(1), of 0] n' p(2) by (simp add: flat_pos_def)
      have fl: "flat_pos iov (length ?item) idx = flat_pos iov 0 (Suc idx)" using flat_pos_Suc [OF p(1), of 0] by simp
      have "Suc idx < length iov"
        using pos_next [OF p(1)] fl f more "1.prems"(3) by linarith
      then have in': "pos_in iov 0 (Suc idx)" by (simp add: pos_in_def)
      have d: "take (len - it) (drop (flat_pos iov off idx) (concat iov)) =
          take n (drop off ?item) @ take (len - (it + n)) (drop (flat_pos iov 0 (Suc idx)) (concat iov))"
      proof -
        have a: "take n (drop off ?item) = drop off ?item" "length (drop off ?item) = n" using n' by auto
        have r: "drop (flat_pos iov 0 (Suc idx)) (concat iov) = concat (drop (Suc idx) iov)"
          using item_drop [OF in'] Cons_nth_drop_Suc [OF \<open>Suc idx < length iov\<close>] by (metis concat.simps(2) drop0)
        show ?thesis unfolding item_drop [OF "1.prems"(1)] r a(1) using a(2) more by simp
      qed
      have "\<exists>off' idx'. gather_loop iov len (it + n) (dest @ take n (drop off ?item)) 0 (idx + 1) =
          Some ((dest @ take n (drop off ?item)) @ take (len - (it + n)) (drop (flat_pos iov 0 (Suc idx)) (concat iov)), off', idx') \<and>
          pos_in iov off' idx' \<and> flat_pos iov off' idx' = flat_pos iov 0 (Suc idx) + (len - (it + n))"
        using "1.IH" [OF True _ refl refl refl refl refl] p in' more f "1.prems"(3) by (simp add: n_def)
      moreover have "gather_loop iov len it dest off idx = gather_loop iov len (it + n) (dest @ take n (drop off ?item)) 0 (idx + 1)"
        using True more p by (subst gather_loop.simps) (simp add: Let_def flip: n_def)
      ultimately show ?thesis using d f more by auto
    qed
  qed
qed

section \<open>Scatter\<close>

lemma concat_length_cong: "map length a = map length b \<Longrightarrow> length (concat a) = length (concat b)"
  by (simp add: length_concat)

lemma flat_pos_cong: "map length iov' = map length iov \<Longrightarrow> flat_pos iov' off idx = flat_pos iov off idx"
  unfolding flat_pos_def using concat_length_cong [of "take idx iov'" "take idx iov"] by (simp flip: take_map)

lemma pos_in_cong:
  assumes "map length iov' = map length iov"
  shows "pos_in iov' off idx = pos_in iov off idx"
proof -
  have "length iov' = length iov" using assms by (rule map_eq_imp_length_eq)
  moreover have "idx < length iov \<Longrightarrow> length (iov' ! idx) = length (iov ! idx)"
    using assms calculation by (metis nth_map)
  ultimately show ?thesis by (auto simp: pos_in_def)
qed

lemma item_overwrite:
  assumes "pos_in iov off idx" "off + length s \<le> length (iov ! idx)"
  defines "iov1 \<equiv> iov[idx := overwrite (iov ! idx) off s]"
  shows "concat iov1 = overwrite (concat iov) (flat_pos iov off idx) s" "map length iov1 = map length iov"
proof -
  have i: "idx < length iov" using assms(1) by (simp add: pos_in_def)
  have "concat iov1 = concat (take idx iov) @ overwrite (iov ! idx) off s @ concat (drop (Suc idx) iov)"
    using concat_split [of idx iov1] i by (simp add: iov1_def)
  also have "\<dots> = overwrite (concat (take idx iov) @ (iov ! idx) @ concat (drop (Suc idx) iov)) (flat_pos iov off idx) s"
    unfolding flat_pos_def overwrite_append_right using overwrite_append_left [OF assms(2)] by simp
  finally show "concat iov1 = overwrite (concat iov) (flat_pos iov off idx) s" using concat_split [OF i] by simp
  show "map length iov1 = map length iov"
    using i assms(2) by (simp add: iov1_def map_update list_update_same_conv)
qed

lemma scatter_loop_correct:
  assumes "pos_in iov off idx" "it \<le> len" "len \<le> length src" "flat_pos iov off idx + (len - it) \<le> length (concat iov)"
    "length iov \<le> iovcnt"
  shows "\<exists>iov' off' idx'. scatter_loop iov iovcnt src len it off idx = Some (len, iov', off', idx') \<and>
    map length iov' = map length iov \<and>
    concat iov' = overwrite (concat iov) (flat_pos iov off idx) (take (len - it) (drop it src)) \<and>
    pos_in iov' off' idx' \<and> flat_pos iov' off' idx' = flat_pos iov off idx + (len - it)"
  using assms
proof (induction iov iovcnt src len it off idx rule: scatter_loop.induct)
  case (1 iov iovcnt src len it off idx)
  let ?item = "iov ! idx"
  define n where "n = scatter_copy_len (length ?item) off it len"
  define s where "s = take n (drop it src)"
  define iov1 where "iov1 = iov[idx := overwrite ?item off s]"
  have p: "idx < length iov" "off \<le> length ?item" using "1.prems"(1) by (auto simp: pos_in_def)
  have n: "n = min (length ?item - off) (len - it)" using p(2) by (simp add: n_def scatter_copy_len_def nat_diff_distrib)
  have s: "length s = n" "off + length s \<le> length ?item" using n "1.prems"(2,3) p(2) by (auto simp: s_def)
  note w = item_overwrite [OF "1.prems"(1) s(2), folded iov1_def]
  note fc = flat_pos_cong [OF w(2)] and pc = pos_in_cong [OF w(2)] and lc = concat_length_cong [OF w(2)]
  have l1: "length iov1 = length iov" by (simp add: iov1_def)
  show ?case
  proof (cases "it < len")
    case False
    then show ?thesis using "1.prems" by (subst scatter_loop.simps) auto
  next
    case True
    have c: "it < len \<and> idx < iovcnt" "idx < length iov \<and> off \<le> length ?item" using True p "1.prems"(5) by auto
    have nle: "n \<le> len - it" using n by simp
    have split: "take (len - it) (drop it src) = s @ take (len - (it + n)) (drop (it + n) src)"
    proof -
      have "len - it = n + (len - (it + n))" using nle by linarith
      then have "take (len - it) (drop it src) = take n (drop it src) @ take (len - (it + n)) (drop n (drop it src))"
        by (metis take_add)
      then show ?thesis by (simp add: s_def add.commute)
    qed
    have ov: "overwrite (concat iov1) (flat_pos iov off idx + n) (take (len - (it + n)) (drop (it + n) src)) =
        overwrite (concat iov) (flat_pos iov off idx) (take (len - it) (drop it src))"
    proof -
      have "flat_pos iov off idx + length s + length (take (len - (it + n)) (drop (it + n) src)) \<le> length (concat iov)"
        using s(1) nle "1.prems"(4) by simp
      from overwrite_split [OF this] show ?thesis unfolding split w(1) s(1) .
    qed
    show ?thesis
    proof (cases "it + n < len")
      case more: True
      then have n': "n = length ?item - off" using n by auto
      have f: "flat_pos iov 0 (Suc idx) = flat_pos iov off idx + n"
        using flat_pos_Suc [OF p(1), of 0] n' p(2) by (simp add: flat_pos_def)
      have fl: "flat_pos iov (length ?item) idx = flat_pos iov 0 (Suc idx)" using flat_pos_Suc [OF p(1), of 0] by simp
      have "Suc idx < length iov" using pos_next [OF p(1)] fl f more "1.prems"(4) by linarith
      then have in': "pos_in iov 0 (Suc idx)" by (simp add: pos_in_def)
      have step: "scatter_loop iov iovcnt src len it off idx = scatter_loop iov1 iovcnt src len (it + n) 0 (idx + 1)"
        using c more by (subst scatter_loop.simps) (simp add: Let_def flip: n_def s_def iov1_def)
      have "pos_in iov1 0 (idx + 1)" "it + n \<le> len" "flat_pos iov1 0 (idx + 1) + (len - (it + n)) \<le> length (concat iov1)"
        "length iov1 \<le> iovcnt"
        using in' pc [of 0 "Suc idx"] more fc [of 0 "Suc idx"] f lc "1.prems"(4,5) l1 by auto
      from "1.IH"(1) [OF c refl n_def iov1_def [unfolded s_def] refl more this(1,2) "1.prems"(3) this(3,4)]
      show ?thesis unfolding step using ov fc [of 0 "Suc idx"] f w(2) more n by auto
    next
      case False
      then have n': "n = len - it" "it + n = len" using n "1.prems"(2) by auto
      have "scatter_loop iov iovcnt src len it off idx = scatter_loop iov1 iovcnt src len (it + n) (off + n) idx"
        using c False by (subst scatter_loop.simps) (simp add: Let_def flip: n_def s_def iov1_def)
      also have "\<dots> = Some (len, iov1, off + n, idx)" using n'(2) by (subst scatter_loop.simps) simp
      finally have r: "scatter_loop iov iovcnt src len it off idx = Some (len, iov1, off + n, idx)" .
      have "concat iov1 = overwrite (concat iov) (flat_pos iov off idx) (take (len - it) (drop it src))"
        using ov n' by simp
      moreover have "pos_in iov1 (off + n) idx" using pc [of "off + n" idx] p s by (simp add: pos_in_def)
      moreover have "flat_pos iov1 (off + n) idx = flat_pos iov off idx + (len - it)"
        using fc [of "off + n" idx] n'(1) by (simp add: flat_pos_def)
      ultimately show ?thesis using r w(2) by auto
    qed
  qed
qed

section \<open>Seek\<close>

lemma seek_backwards_correct:
  assumes "idx \<le> length iov" "new < 0" "0 \<le> int (length (concat (take idx iov))) + new"
  shows "\<exists>off' idx'. seek_backwards iov new idx = Some (int off', idx') \<and> pos_in iov off' idx' \<and>
    int (flat_pos iov off' idx') = int (length (concat (take idx iov))) + new"
  using assms
proof (induction idx arbitrary: new)
  case (Suc idx)
  let ?new = "new + int (length (iov ! idx))"
  have i: "idx < length iov" using Suc.prems(1) by simp
  have l: "length (concat (take (Suc idx) iov)) = length (concat (take idx iov)) + length (iov ! idx)"
    using i by (simp add: take_Suc_conv_app_nth)
  show ?case
  proof (cases "?new < 0")
    case True
    then show ?thesis using Suc.IH [of ?new] Suc.prems(3) i l by (simp add: Let_def algebra_simps)
  next
    case False
    then have "seek_backwards iov new (Suc idx) = Some (int (nat ?new), idx)" using i by (simp add: Let_def)
    moreover have "pos_in iov (nat ?new) idx" using False i Suc.prems(2) by (simp add: pos_in_def)
    moreover have "int (flat_pos iov (nat ?new) idx) = int (length (concat (take (Suc idx) iov))) + new"
      using False l by (simp add: flat_pos_def)
    ultimately show ?thesis by blast
  qed
qed simp

lemma seek_forward_correct:
  assumes "idx < length iov" "0 \<le> new" "length (concat (take idx iov)) + nat new < length (concat iov)" "length iov \<le> iovcnt"
  shows "\<exists>off' idx'. seek_forward iov iovcnt new idx = Some (int off', idx') \<and> idx' < length iov \<and> off' < length (iov ! idx') \<and>
    flat_pos iov off' idx' = length (concat (take idx iov)) + nat new"
  using assms
proof (induction iov iovcnt new idx rule: seek_forward.induct)
  case (1 iov iovcnt new idx)
  let ?n = "length (iov ! idx)"
  show ?case
  proof (cases "new \<ge> int ?n")
    case False
    then have "seek_forward iov iovcnt new idx = Some (int (nat new), idx)" "nat new < ?n"
      using "1.prems" by (simp_all add: seek_forward.simps)
    then show ?thesis using "1.prems"(1) unfolding flat_pos_def by blast
  next
    case True
    have l: "length (concat (take (Suc idx) iov)) = length (concat (take idx iov)) + ?n"
      using "1.prems"(1) by (simp add: take_Suc_conv_app_nth)
    have "flat_pos iov ?n idx < length (concat iov)" using True "1.prems"(3) by (simp add: flat_pos_def)
    then have s: "Suc idx < length iov" using pos_next [OF "1.prems"(1)] by simp
    have e: "length (concat (take (idx + 1) iov)) + nat (new - int ?n) = length (concat (take idx iov)) + nat new"
      using l True by simp
    have "seek_forward iov iovcnt new idx = seek_forward iov iovcnt (new - int ?n) (idx + 1)"
      using True s "1.prems"(1,4) by (subst seek_forward.simps) simp
    moreover have "\<exists>off' idx'. seek_forward iov iovcnt (new - int ?n) (idx + 1) = Some (int off', idx') \<and> idx' < length iov \<and> off' < length (iov ! idx') \<and>
      flat_pos iov off' idx' = length (concat (take (idx + 1) iov)) + nat (new - int ?n)"
      using "1.IH" [OF "1.prems"(1) True] s True "1.prems"(3,4) e by simp
    ultimately show ?thesis unfolding e by simp
  qed
qed

lemma seek_correct:
  assumes "pos_in iov off idx" "length iov \<le> iovcnt" "target < length (concat iov)"
    "distance = int target - int (flat_pos iov off idx)"
  shows "\<exists>off' idx'. ucp_dt_iov_seek iov iovcnt distance off idx = Some (off', idx') \<and> pos_in iov off' idx' \<and>
    flat_pos iov off' idx' = target"
proof -
  have i: "idx < length iov" using assms(1) by (simp add: pos_in_def)
  have e: "int (length (concat (take idx iov))) + (int off + distance) = int target"
    using assms(4) by (simp add: flat_pos_def)
  show ?thesis
  proof (cases "int off + distance < 0")
    case True
    then obtain off' idx' where "seek_backwards iov (int off + distance) idx = Some (int off', idx')" "pos_in iov off' idx'"
      "int (flat_pos iov off' idx') = int target"
      using seek_backwards_correct [of idx iov "int off + distance"] i e by auto
    then show ?thesis using True by (simp add: ucp_dt_iov_seek_def)
  next
    case False
    then have "length (concat (take idx iov)) + nat (int off + distance) = target" using e by linarith
    then obtain off' idx' where "seek_forward iov iovcnt (int off + distance) idx = Some (int off', idx')" "idx' < length iov"
      "off' < length (iov ! idx')" "flat_pos iov off' idx' = target"
      using seek_forward_correct [OF i, of "int off + distance" iovcnt] False assms(2,3) by auto
    then show ?thesis using False by (auto simp: ucp_dt_iov_seek_def pos_in_def)
  qed
qed

section \<open>Lengths\<close>

lemma dt_iov_length_eq: "n \<le> length iov \<Longrightarrow> ucp_dt_iov_length iov n = length (concat (take n iov))"
proof (induction n)
  case (Suc n)
  then show ?case by (simp add: ucp_dt_iov_length_def take_Suc_conv_app_nth)
qed (simp add: ucp_dt_iov_length_def)

end
