(* ===== verification/Status.thy ===== *)
theory Status
  imports Prelude
begin

text \<open>
  Status codes, \<^verbatim>\<open>src/src/ucs/type/status.h\<close>: the enumeration with its values, the groups of
  link and endpoint errors, and the encoding of a status in a pointer.  A pointer is a 64-bit word.
\<close>

datatype ucs_status =
    UCS_OK
  | UCS_INPROGRESS
  | UCS_ERR_NO_MESSAGE
  | UCS_ERR_NO_RESOURCE
  | UCS_ERR_IO_ERROR
  | UCS_ERR_NO_MEMORY
  | UCS_ERR_INVALID_PARAM
  | UCS_ERR_UNREACHABLE
  | UCS_ERR_INVALID_ADDR
  | UCS_ERR_NOT_IMPLEMENTED
  | UCS_ERR_MESSAGE_TRUNCATED
  | UCS_ERR_NO_PROGRESS
  | UCS_ERR_BUFFER_TOO_SMALL
  | UCS_ERR_NO_ELEM
  | UCS_ERR_SOME_CONNECTS_FAILED
  | UCS_ERR_NO_DEVICE
  | UCS_ERR_BUSY
  | UCS_ERR_CANCELED
  | UCS_ERR_SHMEM_SEGMENT
  | UCS_ERR_ALREADY_EXISTS
  | UCS_ERR_OUT_OF_RANGE
  | UCS_ERR_TIMED_OUT
  | UCS_ERR_EXCEEDS_LIMIT
  | UCS_ERR_UNSUPPORTED
  | UCS_ERR_REJECTED
  | UCS_ERR_NOT_CONNECTED
  | UCS_ERR_CONNECTION_RESET
  | UCS_ERR_FIRST_LINK_FAILURE
  | UCS_ERR_LAST_LINK_FAILURE
  | UCS_ERR_FIRST_ENDPOINT_FAILURE
  | UCS_ERR_ENDPOINT_TIMEOUT
  | UCS_ERR_LAST_ENDPOINT_FAILURE
  | UCS_ERR_LAST

fun ucs_status_code :: "ucs_status \<Rightarrow> int" where
  "ucs_status_code UCS_OK = 0"
| "ucs_status_code UCS_INPROGRESS = 1"
| "ucs_status_code UCS_ERR_NO_MESSAGE = -1"
| "ucs_status_code UCS_ERR_NO_RESOURCE = -2"
| "ucs_status_code UCS_ERR_IO_ERROR = -3"
| "ucs_status_code UCS_ERR_NO_MEMORY = -4"
| "ucs_status_code UCS_ERR_INVALID_PARAM = -5"
| "ucs_status_code UCS_ERR_UNREACHABLE = -6"
| "ucs_status_code UCS_ERR_INVALID_ADDR = -7"
| "ucs_status_code UCS_ERR_NOT_IMPLEMENTED = -8"
| "ucs_status_code UCS_ERR_MESSAGE_TRUNCATED = -9"
| "ucs_status_code UCS_ERR_NO_PROGRESS = -10"
| "ucs_status_code UCS_ERR_BUFFER_TOO_SMALL = -11"
| "ucs_status_code UCS_ERR_NO_ELEM = -12"
| "ucs_status_code UCS_ERR_SOME_CONNECTS_FAILED = -13"
| "ucs_status_code UCS_ERR_NO_DEVICE = -14"
| "ucs_status_code UCS_ERR_BUSY = -15"
| "ucs_status_code UCS_ERR_CANCELED = -16"
| "ucs_status_code UCS_ERR_SHMEM_SEGMENT = -17"
| "ucs_status_code UCS_ERR_ALREADY_EXISTS = -18"
| "ucs_status_code UCS_ERR_OUT_OF_RANGE = -19"
| "ucs_status_code UCS_ERR_TIMED_OUT = -20"
| "ucs_status_code UCS_ERR_EXCEEDS_LIMIT = -21"
| "ucs_status_code UCS_ERR_UNSUPPORTED = -22"
| "ucs_status_code UCS_ERR_REJECTED = -23"
| "ucs_status_code UCS_ERR_NOT_CONNECTED = -24"
| "ucs_status_code UCS_ERR_CONNECTION_RESET = -25"
| "ucs_status_code UCS_ERR_FIRST_LINK_FAILURE = -40"
| "ucs_status_code UCS_ERR_LAST_LINK_FAILURE = -59"
| "ucs_status_code UCS_ERR_FIRST_ENDPOINT_FAILURE = -60"
| "ucs_status_code UCS_ERR_ENDPOINT_TIMEOUT = -80"
| "ucs_status_code UCS_ERR_LAST_ENDPOINT_FAILURE = -89"
| "ucs_status_code UCS_ERR_LAST = -100"

text \<open>Casting a status to a pointer sign-extends it to 64 bits.\<close>

definition UCS_STATUS_PTR :: "ucs_status \<Rightarrow> u64" where
  "UCS_STATUS_PTR status = word_of_int (ucs_status_code status)"

definition UCS_STATUS_IS_ERR :: "ucs_status \<Rightarrow> bool" where
  "UCS_STATUS_IS_ERR status \<longleftrightarrow> ucs_status_code status < 0"

definition UCS_PTR_IS_ERR :: "u64 \<Rightarrow> bool" where
  "UCS_PTR_IS_ERR ptr \<longleftrightarrow> ptr \<ge> UCS_STATUS_PTR UCS_ERR_LAST"

definition UCS_PTR_IS_PTR :: "u64 \<Rightarrow> bool" where
  "UCS_PTR_IS_PTR ptr \<longleftrightarrow> ptr - 1 < UCS_STATUS_PTR UCS_ERR_LAST - 1"

text \<open>The enumeration is packed, so a status has 8 bits with a sign, and casting a pointer to a status
  keeps its low 8 bits.\<close>

definition UCS_PTR_RAW_STATUS :: "u64 \<Rightarrow> int" where
  "UCS_PTR_RAW_STATUS ptr = sint (ucast ptr :: u8)"

definition UCS_PTR_STATUS :: "u64 \<Rightarrow> int" where
  "UCS_PTR_STATUS ptr = (if UCS_PTR_IS_PTR ptr then ucs_status_code UCS_INPROGRESS else UCS_PTR_RAW_STATUS ptr)"

definition UCS_IS_LINK_ERROR :: "ucs_status \<Rightarrow> bool" where
  "UCS_IS_LINK_ERROR code \<longleftrightarrow> ucs_status_code code \<le> ucs_status_code UCS_ERR_FIRST_LINK_FAILURE \<and>
     ucs_status_code code \<ge> ucs_status_code UCS_ERR_LAST_LINK_FAILURE"

definition UCS_IS_ENDPOINT_ERROR :: "ucs_status \<Rightarrow> bool" where
  "UCS_IS_ENDPOINT_ERROR code \<longleftrightarrow> ucs_status_code code \<le> ucs_status_code UCS_ERR_FIRST_ENDPOINT_FAILURE \<and>
     ucs_status_code code \<ge> ucs_status_code UCS_ERR_LAST_ENDPOINT_FAILURE"

section \<open>Properties\<close>

lemma ucs_status_code_inj: "ucs_status_code s = ucs_status_code t \<Longrightarrow> s = t"
  by (cases s; cases t) simp_all

lemma err_last: "UCS_STATUS_PTR UCS_ERR_LAST = 18446744073709551516"
  by (simp add: UCS_STATUS_PTR_def)

lemma is_err_iff: "UCS_PTR_IS_ERR p \<longleftrightarrow> 2 ^ 64 - 100 \<le> unat p"
  by (simp add: UCS_PTR_IS_ERR_def err_last word_le_nat_alt)

lemma is_ptr_iff: "UCS_PTR_IS_PTR p \<longleftrightarrow> 0 < unat p \<and> unat p < 2 ^ 64 - 100"
proof (cases "p = 0")
  case True
  then show ?thesis by (simp add: UCS_PTR_IS_PTR_def err_last)
next
  case False
  then have "unat (p - 1) = unat p - 1" "0 < unat p" by (simp_all add: unat_minus_one unat_gt_0)
  then show ?thesis by (auto simp: UCS_PTR_IS_PTR_def err_last word_less_nat_alt)
qed

lemma ucast_minus_one: "(ucast (- 1 :: u64) :: u8) = - 1"
  by (rule bit_word_eqI) (auto simp: bit_simps)

lemma status_back: "UCS_PTR_STATUS (UCS_STATUS_PTR s) = ucs_status_code s"
  by (cases s) (simp_all add: UCS_PTR_STATUS_def UCS_PTR_IS_PTR_def UCS_PTR_RAW_STATUS_def UCS_STATUS_PTR_def ucast_minus_one)

lemma is_err_back: "UCS_PTR_IS_ERR (UCS_STATUS_PTR s) \<longleftrightarrow> UCS_STATUS_IS_ERR s"
  by (cases s) (simp_all add: is_err_iff UCS_STATUS_IS_ERR_def UCS_STATUS_PTR_def unsigned_minus_1_eq_mask mask_eq_exp_minus_1)

lemma is_ptr_back: "UCS_PTR_IS_PTR (UCS_STATUS_PTR s) \<longleftrightarrow> s = UCS_INPROGRESS"
  by (cases s) (simp_all add: is_ptr_iff UCS_STATUS_PTR_def unsigned_minus_1_eq_mask mask_eq_exp_minus_1)

lemma ucast_word_of_int: "(ucast (word_of_int x :: u64) :: u8) = word_of_int x"
  by (rule bit_word_eqI) (simp add: bit_simps)

lemma err_status:
  assumes "UCS_PTR_IS_ERR p"
  shows "word_of_int (UCS_PTR_STATUS p) = p \<and> - 100 \<le> UCS_PTR_STATUS p \<and> UCS_PTR_STATUS p < 0"
proof -
  define k where "k = 2 ^ 64 - uint p"
  have "uint p < 2 ^ 64" "2 ^ 64 - 100 \<le> uint p"
    using unsigned_less [of p, where ?'a = int] assms by (simp_all add: UCS_PTR_IS_ERR_def err_last word_le_def)
  then have k: "0 < k" "k \<le> 100" unfolding k_def by linarith+
  have p: "p = word_of_int (- k)" by (simp add: k_def flip: uint_nat)
  have "ucast p = (word_of_int (- k) :: u8)" unfolding p by (rule ucast_word_of_int)
  moreover have "sint (word_of_int (- k) :: u8) = - k"
    unfolding signed_of_int using k by (simp add: signed_take_bit_int_eq_self)
  ultimately have "sint (ucast p :: u8) = - k" by (simp only:)
  moreover have "UCS_PTR_STATUS p = UCS_PTR_RAW_STATUS p" using assms by (simp add: UCS_PTR_STATUS_def is_ptr_iff is_err_iff)
  ultimately show ?thesis using k p by (simp add: UCS_PTR_RAW_STATUS_def)
qed

lemma ptr_classes: "UCS_PTR_IS_PTR p \<longleftrightarrow> p \<noteq> 0 \<and> \<not> UCS_PTR_IS_ERR p" "\<not> UCS_PTR_IS_ERR 0"
  unfolding is_ptr_iff is_err_iff by (auto simp: unat_gt_0 not_le)

text \<open>C30: The three kinds of status pointers are disjoint and cover all pointers: null, error, valid.  A
  status that is put into a pointer is read back as itself.  Its pointer is an error pointer exactly if the
  status is an error, and passes for a valid pointer exactly if it is \<open>UCS_INPROGRESS\<close>.  A valid
  pointer is read as a request in progress, and an error pointer as the error that it is the pointer of.\<close>

theorem status_ptr_roundtrip:
  "UCS_PTR_STATUS (UCS_STATUS_PTR s) = ucs_status_code s \<and>
   (UCS_PTR_IS_ERR (UCS_STATUS_PTR s) \<longleftrightarrow> UCS_STATUS_IS_ERR s) \<and>
   (UCS_PTR_IS_PTR (UCS_STATUS_PTR s) \<longleftrightarrow> s = UCS_INPROGRESS) \<and>
   (UCS_PTR_IS_PTR p \<longleftrightarrow> p \<noteq> 0 \<and> \<not> UCS_PTR_IS_ERR p) \<and> \<not> UCS_PTR_IS_ERR 0 \<and>
   (UCS_PTR_IS_PTR p \<longrightarrow> UCS_PTR_STATUS p = ucs_status_code UCS_INPROGRESS) \<and>
   (UCS_PTR_IS_ERR p \<longrightarrow> word_of_int (UCS_PTR_STATUS p) = p \<and> - 100 \<le> UCS_PTR_STATUS p \<and> UCS_PTR_STATUS p < 0)"
proof -
  have "UCS_PTR_IS_PTR p \<Longrightarrow> UCS_PTR_STATUS p = ucs_status_code UCS_INPROGRESS" by (simp add: UCS_PTR_STATUS_def)
  then show ?thesis using status_back [of s] is_err_back [of s] is_ptr_back [of s] ptr_classes err_status [of p] by blast
qed

theorem status_ptr_roundtrip_witness:
  "UCS_PTR_STATUS 4096 = ucs_status_code UCS_INPROGRESS \<and> UCS_PTR_IS_ERR (UCS_STATUS_PTR UCS_ERR_BUSY) \<and>
   word_of_int (UCS_PTR_STATUS (UCS_STATUS_PTR UCS_ERR_BUSY)) = UCS_STATUS_PTR UCS_ERR_BUSY"
proof -
  have p: "UCS_PTR_IS_PTR 4096" unfolding is_ptr_iff by simp
  have e: "UCS_PTR_IS_ERR (UCS_STATUS_PTR UCS_ERR_BUSY)" unfolding is_err_back by (simp add: UCS_STATUS_IS_ERR_def)
  have "UCS_PTR_STATUS 4096 = ucs_status_code UCS_INPROGRESS" using status_ptr_roundtrip [of UCS_OK 4096] p by (simp only: simp_thms)
  moreover have "word_of_int (UCS_PTR_STATUS (UCS_STATUS_PTR UCS_ERR_BUSY)) = UCS_STATUS_PTR UCS_ERR_BUSY"
    using status_ptr_roundtrip [of UCS_OK "UCS_STATUS_PTR UCS_ERR_BUSY"] e by (simp only: simp_thms)
  ultimately show ?thesis using e by (simp only: simp_thms)
qed

end
