(* ===== verification/Datatype_Iter.thy ===== *)
theory Datatype_Iter
  imports Dt_Iov Status
begin

text \<open>
  Datatype iterators, \<^verbatim>\<open>src/src/ucp/dt/datatype_iter.inl\<close>, \<^verbatim>\<open>datatype_iter.c\<close> and
  \<^verbatim>\<open>datatype_iter.h\<close>: producing the bytes of a send buffer in chunks and consuming fragments into a
  receive buffer, for contiguous buffers, scatter-gather lists and user-defined datatypes.  The buffer
  an iterator points to is part of the iterator.  The operations of a user-defined datatype are the
  user's code and therefore parameters.  Memory handles are left out.
\<close>

record 's ucp_generic_dt_ops =
  op_start_pack :: "nat \<Rightarrow> 's"
  op_start_unpack :: "nat \<Rightarrow> 's"
  op_packed_size :: "'s \<Rightarrow> nat"
  op_pack :: "'s \<Rightarrow> nat \<Rightarrow> nat \<Rightarrow> bytes \<times> 's"
  op_unpack :: "'s \<Rightarrow> nat \<Rightarrow> bytes \<Rightarrow> ucs_status \<times> 's"

text \<open>The union of the three kinds, tagged by the datatype class.\<close>

datatype 's dt_type =
    Contig bytes
  | Iov (iov_list: ucp_dt_iov) (iov_count: nat) (iov_index: nat) (iov_offset: nat)
  | Generic (gen_count: nat) (gen_ops: "'s ucp_generic_dt_ops") (gen_state: 's)

record 's ucp_datatype_iter =
  dt_length :: nat
  dt_offset :: nat
  dt_type :: "'s dt_type"

text \<open>The fields of \<^verbatim>\<open>next_iter\<close> that the advancing operations set.\<close>

record dt_pos =
  pos_offset :: nat
  pos_iov_index :: nat
  pos_iov_offset :: nat

text \<open>The description of a chunk of memory for the transport: item, offset in it and length.\<close>

record uct_iov =
  uv_item :: nat
  uv_offset :: nat
  uv_length :: nat

section \<open>Initialisation\<close>

datatype 's ucp_user_buffer = UserContig bytes | UserIov ucp_dt_iov | UserGeneric "'s ucp_generic_dt_ops"

definition ucp_datatype_contig_iter_init :: "bytes \<Rightarrow> nat \<Rightarrow> 's ucp_datatype_iter" where
  "ucp_datatype_contig_iter_init buffer len = \<lparr>dt_length = len, dt_offset = 0, dt_type = Contig buffer\<rparr>"

definition ucp_datatype_iov_iter_init :: "ucp_dt_iov \<Rightarrow> nat \<Rightarrow> nat \<Rightarrow> 's ucp_datatype_iter \<times> nat" where
  "ucp_datatype_iov_iter_init iov count len =
     (\<lparr>dt_length = len, dt_offset = 0, dt_type = Iov iov count 0 0\<rparr>,
      if count > 0 then min count 255 else 1)"

definition ucp_datatype_generic_iter_init :: "'s ucp_generic_dt_ops \<Rightarrow> nat \<Rightarrow> bool \<Rightarrow> 's ucp_datatype_iter" where
  "ucp_datatype_generic_iter_init ops count is_pack =
     (let state = (if is_pack then op_start_pack ops count else op_start_unpack ops count)
      in \<lparr>dt_length = op_packed_size ops state, dt_offset = 0, dt_type = Generic count ops state\<rparr>)"

text \<open>Returns the iterator and the number of scatter-gather entries.\<close>

definition ucp_datatype_iter_init :: "'s ucp_user_buffer \<Rightarrow> nat \<Rightarrow> nat \<Rightarrow> bool \<Rightarrow> 's ucp_datatype_iter \<times> nat" where
  "ucp_datatype_iter_init buffer count contig_length is_pack =
     (case buffer of
        UserContig buf \<Rightarrow> (ucp_datatype_contig_iter_init buf contig_length, 1)
      | UserIov iov \<Rightarrow> ucp_datatype_iov_iter_init iov count (ucp_dt_iov_length iov count)
      | UserGeneric ops \<Rightarrow> (ucp_datatype_generic_iter_init ops count is_pack, 0))"

definition ucp_datatype_iter_slice :: "'s ucp_datatype_iter \<Rightarrow> nat \<Rightarrow> nat \<Rightarrow> ('s ucp_datatype_iter \<times> nat) option" where
  "ucp_datatype_iter_slice dt_iter offset len =
     (case dt_type dt_iter of
        Contig buffer \<Rightarrow> Some (\<lparr>dt_length = len, dt_offset = 0, dt_type = Contig (drop offset buffer)\<rparr>, 1)
      | _ \<Rightarrow> None)"

definition ucp_datatype_iter_is_begin :: "'s ucp_datatype_iter \<Rightarrow> bool" where
  "ucp_datatype_iter_is_begin dt_iter \<longleftrightarrow> dt_offset dt_iter = 0"

section \<open>Packing\<close>

definition ucp_datatype_iter_iov_check :: "nat \<Rightarrow> nat \<Rightarrow> unit option" where
  "ucp_datatype_iter_iov_check count index = ucs_assert (count = 0 \<or> index < count)"

text \<open>Returns the packed bytes, the next position, and the iterator with the user's state after the call.\<close>

definition ucp_datatype_iter_next_pack ::
  "'s ucp_datatype_iter \<Rightarrow> nat \<Rightarrow> (bytes \<times> dt_pos \<times> 's ucp_datatype_iter) option" where
  "ucp_datatype_iter_next_pack dt_iter max_length =
     (case dt_type dt_iter of
        Contig buffer \<Rightarrow> do {
          let len = min (sub64 (dt_length dt_iter) (dt_offset dt_iter)) max_length;
          dest \<leftarrow> buf_read buffer (dt_offset dt_iter) len;
          Some (dest, \<lparr>pos_offset = dt_offset dt_iter + len, pos_iov_index = 0, pos_iov_offset = 0\<rparr>, dt_iter)
        }
      | Iov iov count index off \<Rightarrow> do {
          ucp_datatype_iter_iov_check count index;
          let len = min (sub64 (dt_length dt_iter) (dt_offset dt_iter)) max_length;
          (dest, off', index') \<leftarrow> ucp_dt_iov_gather iov len off index;
          Some (dest, \<lparr>pos_offset = dt_offset dt_iter + len, pos_iov_index = index', pos_iov_offset = off'\<rparr>, dt_iter)
        }
      | Generic count ops state \<Rightarrow>
          (let (dest, state') = (if max_length \<noteq> 0 then op_pack ops state (dt_offset dt_iter) max_length else ([], state))
           in Some (dest, \<lparr>pos_offset = dt_offset dt_iter + length dest, pos_iov_index = 0, pos_iov_offset = 0\<rparr>,
                dt_iter\<lparr>dt_type := Generic count ops state'\<rparr>)))"

definition ucp_datatype_iter_copy_position :: "'s ucp_datatype_iter \<Rightarrow> dt_pos \<Rightarrow> 's ucp_datatype_iter" where
  "ucp_datatype_iter_copy_position dt_iter src =
     dt_iter\<lparr>dt_offset := pos_offset src,
       dt_type := (case dt_type dt_iter of
          Iov iov count _ _ \<Rightarrow> Iov iov count (pos_iov_index src) (pos_iov_offset src) | t \<Rightarrow> t)\<rparr>"

definition ucp_datatype_iter_is_end_position :: "'s ucp_datatype_iter \<Rightarrow> dt_pos \<Rightarrow> bool option" where
  "ucp_datatype_iter_is_end_position dt_iter pos = do {
     ucs_assert (dt_offset dt_iter \<le> dt_length dt_iter);
     Some (pos_offset pos = dt_length dt_iter)
   }"

definition ucp_datatype_iter_is_end :: "'s ucp_datatype_iter \<Rightarrow> bool option" where
  "ucp_datatype_iter_is_end dt_iter = do {
     ucs_assert (dt_offset dt_iter \<le> dt_length dt_iter);
     Some (dt_offset dt_iter = dt_length dt_iter)
   }"

text \<open>Advancing without copying; the chunk is described by its length or by its place in the buffer.\<close>

definition ucp_datatype_iter_next :: "'s ucp_datatype_iter \<Rightarrow> nat \<Rightarrow> nat \<times> dt_pos" where
  "ucp_datatype_iter_next dt_iter max_length =
     (let offset = dt_offset dt_iter; len = min max_length (sub64 (dt_length dt_iter) offset)
      in (len, \<lparr>pos_offset = offset + len, pos_iov_index = 0, pos_iov_offset = 0\<rparr>))"

definition ucp_datatype_iter_get_ptr :: "'s ucp_datatype_iter \<Rightarrow> nat \<Rightarrow> (nat \<times> nat) option" where
  "ucp_datatype_iter_get_ptr dt_iter max_length =
     (case dt_type dt_iter of
        Contig _ \<Rightarrow> Some (min max_length (sub64 (dt_length dt_iter) (dt_offset dt_iter)), dt_offset dt_iter)
      | _ \<Rightarrow> None)"

definition ucp_datatype_iter_next_ptr :: "'s ucp_datatype_iter \<Rightarrow> nat \<Rightarrow> (nat \<times> nat \<times> dt_pos) option" where
  "ucp_datatype_iter_next_ptr dt_iter max_length =
     (case dt_type dt_iter of
        Contig _ \<Rightarrow> (let (len, pos) = ucp_datatype_iter_next dt_iter max_length in Some (len, dt_offset dt_iter, pos))
      | _ \<Rightarrow> None)"

definition ucp_datatype_iter_next_slice ::
  "'s ucp_datatype_iter \<Rightarrow> nat \<Rightarrow> ('s ucp_datatype_iter \<times> dt_pos \<times> nat) option" where
  "ucp_datatype_iter_next_slice dt_iter max_length = do {
     let (len, pos) = ucp_datatype_iter_next dt_iter max_length;
     (sliced, sg_count) \<leftarrow> ucp_datatype_iter_slice dt_iter (dt_offset dt_iter) len;
     Some (sliced, pos, sg_count)
   }"

section \<open>Describing chunks of a scatter-gather list\<close>

function iter_iov_count :: "ucp_dt_iov \<Rightarrow> nat \<Rightarrow> nat \<Rightarrow> nat \<Rightarrow> nat \<Rightarrow> nat option" where
  "iter_iov_count iov count total_len index len =
     (if len < total_len then
        (if index < count \<and> index < length iov
         then iter_iov_count iov count total_len (index + 1) (len + length (iov ! index)) else None)
      else Some index)"
  by pat_completeness auto

termination
  by (relation "measure (\<lambda>(iov, count, tl, index, len). length iov - index)") auto

definition ucp_datatype_iter_iov_count :: "'s ucp_datatype_iter \<Rightarrow> nat option" where
  "ucp_datatype_iter_iov_count dt_iter =
     (case dt_type dt_iter of Iov iov count _ _ \<Rightarrow> iter_iov_count iov count (dt_length dt_iter) 0 0 | _ \<Rightarrow> None)"

function next_iov_loop ::
  "ucp_dt_iov \<Rightarrow> nat \<Rightarrow> nat \<Rightarrow> nat \<Rightarrow> nat \<Rightarrow> uct_iov list \<Rightarrow> nat \<Rightarrow> nat \<Rightarrow> nat \<Rightarrow> (uct_iov list \<times> nat \<times> nat \<times> nat) option" where
  "next_iov_loop iov count max_length max_iter_length max_iov dst len index off =
     (if length dst < max_iov \<and> len < max_iter_length then
        (if (count = 0 \<or> index < count) \<and> index < count \<and> index < length iov then
           if length (iov ! index) > 0 then
             if off < length (iov ! index) \<and> len < max_length then
               let remaining_src = length (iov ! index) - off; remaining_dst = max_length - len
               in if remaining_dst < remaining_src
                  then Some (dst @ [\<lparr>uv_item = index, uv_offset = off, uv_length = remaining_dst\<rparr>],
                         len + remaining_dst, index, off + remaining_dst)
                  else next_iov_loop iov count max_length max_iter_length max_iov
                         (dst @ [\<lparr>uv_item = index, uv_offset = off, uv_length = remaining_src\<rparr>])
                         (len + remaining_src) (index + 1) 0
             else None
           else next_iov_loop iov count max_length max_iter_length max_iov dst len (index + 1) 0
         else None)
      else Some (dst, len, index, off))"
  by pat_completeness auto

termination
  by (relation "measure (\<lambda>(iov, count, ml, mil, mi, dst, len, index, off). length iov - index)") auto

definition ucp_datatype_iter_iov_next_iov ::
  "'s ucp_datatype_iter \<Rightarrow> nat \<Rightarrow> nat \<Rightarrow> (uct_iov list \<times> dt_pos) option" where
  "ucp_datatype_iter_iov_next_iov dt_iter max_length max_iov =
     (case dt_type dt_iter of
        Iov iov count index off \<Rightarrow> do {
          ucp_datatype_iter_iov_check count index;
          ucs_assert (dt_offset dt_iter \<le> dt_length dt_iter);
          let max_iter_length = min max_length (dt_length dt_iter - dt_offset dt_iter);
          (dst, len, index', off') \<leftarrow> next_iov_loop iov count max_length max_iter_length max_iov [] 0 index off;
          ucs_assert (len \<le> max_length);
          ucs_assert (dt_offset dt_iter = dt_length dt_iter \<or> len > 0);
          ucs_assert (dt_offset dt_iter + len \<le> dt_length dt_iter);
          Some (dst, \<lparr>pos_offset = dt_offset dt_iter + len, pos_iov_index = index', pos_iov_offset = off'\<rparr>)
        }
      | _ \<Rightarrow> None)"

definition ucp_datatype_iter_next_iov ::
  "'s ucp_datatype_iter \<Rightarrow> nat \<Rightarrow> nat \<Rightarrow> (uct_iov list \<times> dt_pos) option" where
  "ucp_datatype_iter_next_iov dt_iter max_length max_iov = do {
     ucs_assert (max_iov \<ge> 1);
     case dt_type dt_iter of
       Contig _ \<Rightarrow> do {
         (len, ptr, pos) \<leftarrow> ucp_datatype_iter_next_ptr dt_iter max_length;
         Some ([\<lparr>uv_item = 0, uv_offset = ptr, uv_length = len\<rparr>], pos)
       }
     | Iov _ _ _ _ \<Rightarrow> ucp_datatype_iter_iov_next_iov dt_iter max_length max_iov
     | Generic _ _ _ \<Rightarrow> None
   }"

section \<open>Unpacking\<close>

function iter_seek_forward :: "ucp_dt_iov \<Rightarrow> nat \<Rightarrow> int \<Rightarrow> nat \<Rightarrow> (int \<times> nat) option" where
  "iter_seek_forward iov count off index =
     (if index < length iov then
        if off \<ge> int (length (iov ! index)) then do {
          ucp_datatype_iter_iov_check count (index + 1);
          iter_seek_forward iov count (off - int (length (iov ! index))) (index + 1)
        }
        else Some (off, index)
      else None)"
  by pat_completeness auto

termination
  by (relation "measure (\<lambda>(iov, count, off, index). length iov - index)") auto

definition ucp_datatype_iter_iov_seek :: "'s ucp_datatype_iter \<Rightarrow> nat \<Rightarrow> 's ucp_datatype_iter option" where
  "ucp_datatype_iter_iov_seek dt_iter offset =
     (case dt_type dt_iter of
        Iov iov count index off \<Rightarrow> do {
          ucp_datatype_iter_iov_check count index;
          if offset = dt_offset dt_iter then Some dt_iter
          else do {
            let new_off = int off + (int offset - int (dt_offset dt_iter));
            (off', index') \<leftarrow> (if new_off < 0 then seek_backwards iov new_off index
                             else iter_seek_forward iov count new_off index);
            Some (dt_iter\<lparr>dt_offset := offset, dt_type := Iov iov count index' (nat off')\<rparr>)
          }
        }
      | _ \<Rightarrow> None)"

definition SIZE_MAX :: nat where
  "SIZE_MAX = 2 ^ 64 - 1"

definition ucp_datatype_iter_unpack ::
  "'s ucp_datatype_iter \<Rightarrow> nat \<Rightarrow> nat \<Rightarrow> bytes \<Rightarrow> (ucs_status \<times> 's ucp_datatype_iter) option" where
  "ucp_datatype_iter_unpack dt_iter len offset src =
     (if sub64 (dt_length dt_iter) offset < len then Some (UCS_ERR_MESSAGE_TRUNCATED, dt_iter)
      else case dt_type dt_iter of
        Contig buffer \<Rightarrow> do {
          buffer' \<leftarrow> buf_write buffer offset (take len src);
          Some (UCS_OK, dt_iter\<lparr>dt_type := Contig buffer'\<rparr>)
        }
      | Iov _ _ _ _ \<Rightarrow> do {
          dt1 \<leftarrow> ucp_datatype_iter_iov_seek dt_iter offset;
          (unpacked_length, iov', off', index') \<leftarrow>
            ucp_dt_iov_scatter (iov_list (dt_type dt1)) SIZE_MAX src len (iov_offset (dt_type dt1)) (iov_index (dt_type dt1));
          ucs_assert (unpacked_length \<le> len);
          Some (UCS_OK, dt1\<lparr>dt_offset := dt_offset dt1 + unpacked_length,
            dt_type := Iov iov' (iov_count (dt_type dt1)) index' off'\<rparr>)
        }
      | Generic count ops state \<Rightarrow>
          (if len \<noteq> 0 then
             let (status, state') = op_unpack ops state offset (take len src)
             in Some (status, dt_iter\<lparr>dt_type := Generic count ops state'\<rparr>)
           else Some (UCS_OK, dt_iter)))"

declare iter_iov_count.simps [simp del] next_iov_loop.simps [simp del] iter_seek_forward.simps [simp del]

end
