(* ===== verification/Datatype_Iter_Props.thy ===== *)
theory Datatype_Iter_Props
  imports Datatype_Iter
begin

text \<open>
  What a datatype iterator promises to the protocols: packing walks through the bytes of the buffer,
  whatever chunk sizes are asked for, and unpacking writes fragments at their offsets, in any order.
  The contract is the locale \<open>byte_iter\<close>, whose client lemmas are proved once and instantiated for
  contiguous buffers, scatter-gather lists and user-defined datatypes alike.
\<close>

section \<open>The contract\<close>







section \<open>The iterator meets the contract\<close>












section \<open>Chunks for the transport\<close>

text \<open>A position the transport interface accepts: not at the end of a non-empty item.\<close>

definition pos_norm :: "ucp_dt_iov \<Rightarrow> nat \<Rightarrow> nat \<Rightarrow> bool" where
  "pos_norm iov off idx \<longleftrightarrow> (idx < length iov \<and> (off < length (iov ! idx) \<or> (iov ! idx = [] \<and> off = 0))) \<or> (idx = length iov \<and> off = 0)"

definition chunk_bytes :: "ucp_dt_iov \<Rightarrow> uct_iov list \<Rightarrow> bytes" where
  "chunk_bytes iov vs = concat [take (uv_length v) (drop (uv_offset v) (iov ! uv_item v)). v \<leftarrow> vs]"

lemma next_iov_loop_correct:
  assumes "pos_norm iov off idx" "count = length iov" "len \<le> ml" "ml \<le> max_length" "length dst \<le> mi"
    "flat_pos iov off idx + (ml - len) \<le> length (concat iov)" "ml = min max_length (length (concat iov) - base)"
    "flat_pos iov off idx = base + len" "base \<le> length (concat iov)"
    "chunk_bytes iov dst = take len (drop base (concat iov))"
  shows "\<exists>dst' len' idx' off'. next_iov_loop iov count max_length ml mi dst len idx off = Some (dst', len', idx', off') \<and>
    pos_norm iov off' idx' \<and> flat_pos iov off' idx' = base + len' \<and> len \<le> len' \<and> len' \<le> ml \<and> length dst' \<le> mi \<and>
    (length dst < mi \<and> len < ml \<longrightarrow> len < len') \<and> chunk_bytes iov dst' = take len' (drop base (concat iov))"
  using assms
proof (induction iov count max_length ml mi dst len idx off rule: next_iov_loop.induct)
  case (1 iov count max_length ml mi dst len idx off)
  let ?item = "iov ! idx"
  have flat_at: "take n (drop off ?item) = take n (drop (base + len) (concat iov))" if "idx < length iov" "off \<le> length ?item" "n \<le> length ?item - off" for n
    using item_drop [of iov off idx] "1.prems"(8) that by (simp add: pos_in_def)
  have snoc: "chunk_bytes iov (dst @ [\<lparr>uv_item = idx, uv_offset = off, uv_length = n\<rparr>]) = take (len + n) (drop base (concat iov))"
    if "idx < length iov" "off \<le> length ?item" "n \<le> length ?item - off" for n
    using flat_at [OF that] "1.prems"(10) by (simp add: chunk_bytes_def take_add add.commute)
  show ?case
  proof (cases "length dst < mi \<and> len < ml")
    case False
    then show ?thesis using "1.prems" by (subst next_iov_loop.simps) auto
  next
    case True
    then have lt: "base + len < length (concat iov)" using "1.prems"(7) by auto
    then have idx: "idx < length iov"
      using "1.prems"(1,8) by (auto simp: pos_norm_def flat_pos_def)
    have c: "(count = 0 \<or> idx < count) \<and> idx < count \<and> idx < length iov" using idx "1.prems"(2) by simp
    show ?thesis
    proof (cases "?item = []")
      case empty: True
      have off: "off = 0" using "1.prems"(1) empty idx by (auto simp: pos_norm_def)
      have f: "flat_pos iov 0 (idx + 1) = base + len" using flat_pos_Suc [OF idx, of 0] empty off "1.prems"(8) by simp
      then have nx: "pos_norm iov 0 (idx + 1)" using idx by (auto simp: pos_norm_def)
      have step: "next_iov_loop iov count max_length ml mi dst len idx off = next_iov_loop iov count max_length ml mi dst len (idx + 1) 0"
        using True c empty by (subst next_iov_loop.simps) simp
      have "\<not> 0 < length ?item" using empty by simp
      from "1.IH"(2) [OF True c this nx "1.prems"(2-5) _ "1.prems"(7) f "1.prems"(9,10)]
      show ?thesis unfolding step using f "1.prems"(6,8) by simp
    next
      case ne: False
      then have off: "off < length ?item" using "1.prems"(1) idx by (auto simp: pos_norm_def)
      let ?rs = "length ?item - off" and ?rd = "max_length - len"
      have lm: "len < max_length" using True "1.prems"(4) by simp
      have o: "off < length ?item \<and> len < max_length" "0 < length ?item" using off lm by auto
      show ?thesis
      proof (cases "?rd < ?rs")
        case brk: True
        have "next_iov_loop iov count max_length ml mi dst len idx off =
            Some (dst @ [\<lparr>uv_item = idx, uv_offset = off, uv_length = ?rd\<rparr>], len + ?rd, idx, off + ?rd)"
          using True c o brk by (subst next_iov_loop.simps) (simp add: Let_def)
        moreover have "pos_norm iov (off + ?rd) idx" using brk idx by (auto simp: pos_norm_def)
        moreover have "flat_pos iov (off + ?rd) idx = base + (len + ?rd)" using "1.prems"(8) by (simp add: flat_pos_def)
        moreover have "len + ?rd \<le> ml"
        proof -
          have "base + len + ?rs \<le> length (concat iov)"
            using length_concat_split [OF idx] "1.prems"(8) off by (simp add: flat_pos_def)
          then show ?thesis using "1.prems"(7) brk lm by auto
        qed
        ultimately show ?thesis using snoc [OF idx, of ?rd] brk off lm True by auto
      next
        case cont: False
        let ?dst = "dst @ [\<lparr>uv_item = idx, uv_offset = off, uv_length = ?rs\<rparr>]"
        have step: "next_iov_loop iov count max_length ml mi dst len idx off = next_iov_loop iov count max_length ml mi ?dst (len + ?rs) (idx + 1) 0"
          using True c o cont by (subst next_iov_loop.simps) (simp add: Let_def)
        have f: "flat_pos iov 0 (idx + 1) = base + (len + ?rs)"
          using flat_pos_Suc [OF idx, of 0] "1.prems"(8) off by (simp add: flat_pos_def)
        have le: "base + len + ?rs \<le> length (concat iov)"
          using length_concat_split [OF idx] "1.prems"(8) off by (simp add: flat_pos_def)
        have nx: "pos_norm iov 0 (idx + 1)" using idx by (auto simp: pos_norm_def)
        have ml: "len + ?rs \<le> ml" using le cont lm "1.prems"(7) by auto
        have "chunk_bytes iov ?dst = take (len + ?rs) (drop base (concat iov))" using snoc [OF idx, of ?rs] off by simp
        moreover have "flat_pos iov 0 (idx + 1) + (ml - (len + ?rs)) \<le> length (concat iov)" using f ml "1.prems"(7,9) le by auto
        moreover have "length ?dst \<le> mi" using True by simp
        ultimately show ?thesis
          unfolding step
          using "1.IH"(1) [OF True c o(2) o(1) refl refl cont nx "1.prems"(2) ml "1.prems"(4) _ _ "1.prems"(7) f "1.prems"(9)] off
          by fastforce
      qed
    qed
  qed
qed

section \<open>Properties\<close>





definition sample_snd :: "bytes ucp_datatype_iter" where
  "sample_snd = fst (ucp_datatype_iter_init (UserIov [[1, 2], [], [3]]) 3 0 True)"


lemma sample_snd_eq: "sample_snd = \<lparr>dt_length = 3, dt_offset = 0, dt_type = Iov [[1, 2], [], [3]] 3 0 0\<rparr>"
  by (simp add: sample_snd_def ucp_datatype_iter_init_def ucp_datatype_iov_iter_init_def ucp_dt_iov_length_def numeral_nat)




text \<open>C22: Describing chunks of a scatter-gather list for the transport always makes progress and
  describes the right bytes: from a position before the end the operation returns at most
  \<^verbatim>\<open>max_iov\<close> descriptors, covering at least one and at most \<^verbatim>\<open>max_length\<close> bytes, which are
  the next bytes of the list in order, and the next position is again one it accepts.\<close>

theorem dt_iter_next_iov_progress:
  assumes "dt_type dt = Iov iov count idx off" "count = length iov" "dt_length dt = length (concat iov)" "pos_norm iov off idx"
    "flat_pos iov off idx = dt_offset dt" "dt_offset dt < dt_length dt" "0 < max_length" "0 < max_iov"
  shows "\<exists>vs pos. ucp_datatype_iter_next_iov dt max_length max_iov = Some (vs, pos) \<and> length vs \<le> max_iov \<and>
    dt_offset dt < pos_offset pos \<and> pos_offset pos \<le> dt_offset dt + max_length \<and>
    chunk_bytes iov vs = take (pos_offset pos - dt_offset dt) (drop (dt_offset dt) (concat iov)) \<and>
    pos_norm iov (pos_iov_offset pos) (pos_iov_index pos) \<and>
    flat_pos iov (pos_iov_offset pos) (pos_iov_index pos) = pos_offset pos"
proof -
  let ?ml = "min max_length (dt_length dt - dt_offset dt)"
  have f: "flat_pos iov off idx + (?ml - 0) \<le> length (concat iov)" "flat_pos iov off idx = dt_offset dt + 0"
    "?ml = min max_length (length (concat iov) - dt_offset dt)" "dt_offset dt \<le> length (concat iov)"
    "chunk_bytes iov [] = take 0 (drop (dt_offset dt) (concat iov))"
    using assms by (auto simp: chunk_bytes_def)
  have pre: "0 \<le> ?ml" "?ml \<le> max_length" "length ([] :: uct_iov list) \<le> max_iov" by auto
  obtain vs len idx' off' where l: "next_iov_loop iov count max_length ?ml max_iov [] 0 idx off = Some (vs, len, idx', off')"
    "pos_norm iov off' idx'" "flat_pos iov off' idx' = dt_offset dt + len" "len \<le> ?ml" "length vs \<le> max_iov"
    "length ([] :: uct_iov list) < max_iov \<and> 0 < ?ml \<longrightarrow> 0 < len" "chunk_bytes iov vs = take len (drop (dt_offset dt) (concat iov))"
    using next_iov_loop_correct [OF assms(4,2) pre f(1,3,2,4,5)] by blast
  have pos: "0 < len" using l(6) assms(6-8) by simp
  have le: "dt_offset dt + len \<le> dt_length dt" "len \<le> max_length" using l(4) assms(6) by auto
  have "idx < length iov" using assms(3-6) by (auto simp: pos_norm_def flat_pos_def)
  then have "ucp_datatype_iter_next_iov dt max_length max_iov =
      Some (vs, \<lparr>pos_offset = dt_offset dt + len, pos_iov_index = idx', pos_iov_offset = off'\<rparr>)"
    using assms(1,2,6,8) l(1) le pos
    by (simp add: ucp_datatype_iter_next_iov_def ucp_datatype_iter_iov_next_iov_def ucp_datatype_iter_iov_check_def)
  then show ?thesis using l(2-5,7) pos by auto
qed

theorem dt_iter_next_iov_progress_witness:
  "\<exists>vs pos. ucp_datatype_iter_next_iov sample_snd 5 1 = Some (vs, pos) \<and> length vs \<le> 1 \<and> 0 < pos_offset pos"
proof -
  have "pos_norm [[1, 2], [], [3]] 0 0" "flat_pos [[1, 2], [], [3]] 0 0 = 0" by (simp_all add: pos_norm_def flat_pos_def)
  then show ?thesis
    using dt_iter_next_iov_progress [of sample_snd "[[1, 2], [], [3]]" 3 0 0 5 1] by (auto simp: sample_snd_eq)
qed



text \<open>C38: A fragment that starts beyond the end of the buffer is not refused: the unsigned difference
  in the check wraps around, and the copy goes outside the buffer.\<close>

theorem dt_iter_unpack_offset_wraps:
  assumes "dt_type dt = Contig buf" "length buf = dt_length dt" "dt_length dt < offset" "len + offset \<le> dt_length dt + 2 ^ 64"
    "len = length src"
  shows "ucp_datatype_iter_unpack dt len offset src = None"
proof -
  have "\<not> sub64 (dt_length dt) offset < len" using assms(3,4) by (simp add: sub64_def)
  then show ?thesis using assms by (simp add: ucp_datatype_iter_unpack_def buf_write_def)
qed

theorem dt_iter_unpack_offset_wraps_witness:
  "ucp_datatype_iter_unpack (ucp_datatype_contig_iter_init [0, 0, 0, 0] 4 :: bytes ucp_datatype_iter) 1 8 [1] = None"
  by (rule dt_iter_unpack_offset_wraps [of _ "[0, 0, 0, 0]"]) (simp_all add: ucp_datatype_contig_iter_init_def)

end
