(* ===== verification/Tag_Match.thy ===== *)
theory Tag_Match
  imports Buffers Status
begin

text \<open>
  Tag matching, \<^verbatim>\<open>src/src/ucp/tag/tag_match.c\<close>, \<^verbatim>\<open>tag_match.inl\<close>, \<^verbatim>\<open>tag_match.h\<close>, and
  posting of receives to the transport, \<^verbatim>\<open>src/src/ucp/tag/offload.c\<close> and \<^verbatim>\<open>offload.h\<close>.
  Requests and descriptors are numbers that index a store; a \<^verbatim>\<open>ucs_queue\<close> or
  \<^verbatim>\<open>ucs_list\<close> of them is the list of its elements, which is what the theories of these two
  containers justify.  Failing assertions and dereferences of a null iterator are \<open>None\<close>.
\<close>

type_synonym ucp_tag = u64

definition UCP_TAG_MASK_FULL :: ucp_tag where
  "UCP_TAG_MASK_FULL = - 1"

definition UCP_TAG_MATCH_HASH_SIZE :: nat where
  "UCP_TAG_MATCH_HASH_SIZE = 1021"

section \<open>State\<close>

text \<open>The fields of a receive request that matching reads or writes; its flags are single bits.\<close>

record tag_req =
  rq_offloaded :: bool
  rq_block_offload :: bool
  rq_completed :: bool
  rq_contig :: bool
  rq_host_mem :: bool
  rq_length :: nat
  rq_tag :: ucp_tag
  rq_tag_mask :: ucp_tag
  rq_sn :: u64

record ucp_request_queue =
  q_queue :: "nat list"
  q_sw_count :: nat
  q_block_count :: nat

record ucp_worker_iface =
  wi_max_outstanding :: nat
  wi_min_recv :: nat
  wi_post_count :: nat
  wi_proxy_recv_count :: nat
  wi_activated :: bool

record 'r ucp_tag_match =
  tm_reqs :: "nat \<Rightarrow> 'r tag_req_scheme"
  exp_wildcard :: ucp_request_queue
  exp_hash :: "ucp_request_queue list"
  exp_sn :: u64
  exp_sw_all_count :: nat
  rdesc_tag :: "nat \<Rightarrow> ucp_tag"
  unexp_all :: "nat list"
  unexp_hash :: "nat list list"
  off_ifaces :: "nat \<Rightarrow> ucp_worker_iface"
  off_iface :: "nat option"
  off_tag_hash :: "ucp_tag \<rightharpoonup> nat"
  off_thresh :: nat
  off_zcopy_thresh :: nat
  num_active_ifaces :: nat
  tag_sender_mask :: ucp_tag
  tm_thresh :: nat
  tm_max_bb_size :: nat
  tm_force_thresh :: nat

text \<open>Unsigned counters: 32 bits, wrapping.\<close>

definition dec32 :: "nat \<Rightarrow> nat" where
  "dec32 n = (if n = 0 then 2 ^ 32 - 1 else n - 1)"

section \<open>Tags and queues\<close>

definition ucp_tag_is_specific_source :: "ucp_tag \<Rightarrow> ucp_tag \<Rightarrow> bool" where
  "ucp_tag_is_specific_source sender_mask tag_mask \<longleftrightarrow> sender_mask AND tag_mask = sender_mask"

definition ucp_tag_is_match :: "ucp_tag \<Rightarrow> ucp_tag \<Rightarrow> ucp_tag \<Rightarrow> bool" where
  "ucp_tag_is_match tag exp_tag tag_mask \<longleftrightarrow> (tag XOR exp_tag) AND tag_mask = 0"

definition ucp_tag_match_calc_hash :: "ucp_tag \<Rightarrow> nat" where
  "ucp_tag_match_calc_hash tag =
     (unat (ucast tag :: u32) mod UCP_TAG_MATCH_HASH_SIZE) XOR
     (unat (ucast (drop_bit 32 tag) :: u32) mod UCP_TAG_MATCH_HASH_SIZE)"

function roundup_pow2_from :: "nat \<Rightarrow> nat \<Rightarrow> nat" where
  "roundup_pow2_from n pow2 = (if pow2 < n \<and> 0 < pow2 then roundup_pow2_from n (push_bit 1 pow2) else pow2)"
  by pat_completeness auto

termination
  by (relation "measure (\<lambda>(n, pow2). n - pow2)") (auto simp: push_bit_eq_mult)

definition ucs_roundup_pow2 :: "nat \<Rightarrow> nat" where
  "ucs_roundup_pow2 n = roundup_pow2_from n 1"

definition ucp_tag_get_hash_size :: nat where
  "ucp_tag_get_hash_size = ucs_roundup_pow2 UCP_TAG_MATCH_HASH_SIZE"

text \<open>A queue of expected requests is named by its place: the wildcard queue or a bucket.\<close>

datatype exp_queue = Wildcard | Bucket nat

fun get_queue :: "'r ucp_tag_match \<Rightarrow> exp_queue \<Rightarrow> ucp_request_queue" where
  "get_queue tm Wildcard = exp_wildcard tm"
| "get_queue tm (Bucket b) = exp_hash tm ! b"

fun set_queue :: "'r ucp_tag_match \<Rightarrow> exp_queue \<Rightarrow> ucp_request_queue \<Rightarrow> 'r ucp_tag_match" where
  "set_queue tm Wildcard q = tm\<lparr>exp_wildcard := q\<rparr>"
| "set_queue tm (Bucket b) q = tm\<lparr>exp_hash := (exp_hash tm)[b := q]\<rparr>"

definition ucp_tag_exp_get_queue_for_tag :: "ucp_tag \<Rightarrow> exp_queue" where
  "ucp_tag_exp_get_queue_for_tag tag = Bucket (ucp_tag_match_calc_hash tag)"

definition ucp_tag_exp_get_queue :: "ucp_tag \<Rightarrow> ucp_tag \<Rightarrow> exp_queue" where
  "ucp_tag_exp_get_queue tag tag_mask =
     (if tag_mask = UCP_TAG_MASK_FULL then ucp_tag_exp_get_queue_for_tag tag else Wildcard)"

definition ucp_tag_exp_get_req_queue :: "'r tag_req_scheme \<Rightarrow> exp_queue" where
  "ucp_tag_exp_get_req_queue req = ucp_tag_exp_get_queue (rq_tag req) (rq_tag_mask req)"

section \<open>Initialisation\<close>

text \<open>Allocation of the two hash tables may fail; the worker's memory is zeroed when it is allocated.\<close>

definition ucp_tag_match_init :: "bool \<Rightarrow> bool \<Rightarrow> 'r ucp_tag_match \<Rightarrow> ucs_status \<times> 'r ucp_tag_match" where
  "ucp_tag_match_init alloc_exp alloc_unexp tm =
     (let hash_size = ucp_tag_get_hash_size;
          tm1 = tm\<lparr>exp_sn := 0, exp_sw_all_count := 0, exp_wildcard := (exp_wildcard tm)\<lparr>q_queue := []\<rparr>, unexp_all := []\<rparr>
      in if \<not> alloc_exp \<or> \<not> alloc_unexp then (UCS_ERR_NO_MEMORY, tm1)
         else (UCS_OK,
           tm1\<lparr>exp_hash := replicate hash_size \<lparr>q_queue = [], q_sw_count = 0, q_block_count = 0\<rparr>,
             unexp_hash := replicate hash_size [], off_tag_hash := Map.empty,
             off_thresh := 2 ^ 64 - 1, off_zcopy_thresh := 2 ^ 64 - 1, off_iface := None\<rparr>))"

section \<open>Expected requests\<close>

definition ucp_tag_exp_push :: "'r ucp_tag_match \<Rightarrow> exp_queue \<Rightarrow> nat \<Rightarrow> 'r ucp_tag_match" where
  "ucp_tag_exp_push tm q req =
     (let tm1 = tm\<lparr>tm_reqs := (tm_reqs tm)(req := (tm_reqs tm req)\<lparr>rq_sn := exp_sn tm\<rparr>), exp_sn := exp_sn tm + 1\<rparr>;
          rq = get_queue tm1 q
      in set_queue tm1 q (rq\<lparr>q_queue := q_queue rq @ [req]\<rparr>))"

text \<open>The iterator is the index of the element to delete.\<close>

definition ucp_tag_exp_delete :: "nat \<Rightarrow> 'r ucp_tag_match \<Rightarrow> exp_queue \<Rightarrow> nat \<Rightarrow> 'r ucp_tag_match" where
  "ucp_tag_exp_delete req tm q iter =
     (let sw = \<not> rq_offloaded (tm_reqs tm req);
          rq = get_queue tm q;
          rq1 = (if sw then rq\<lparr>q_sw_count := dec32 (q_sw_count rq),
                   q_block_count := (if rq_block_offload (tm_reqs tm req) then dec32 (q_block_count rq) else q_block_count rq)\<rparr>
                 else rq);
          tm1 = (if sw then tm\<lparr>exp_sw_all_count := dec32 (exp_sw_all_count tm)\<rparr> else tm)
      in set_queue tm1 q (rq1\<lparr>q_queue := take iter (q_queue rq1) @ drop (Suc iter) (q_queue rq1)\<rparr>))"

definition req_matches :: "'r ucp_tag_match \<Rightarrow> ucp_tag \<Rightarrow> nat \<Rightarrow> bool" where
  "req_matches tm tag req = ucp_tag_is_match tag (rq_tag (tm_reqs tm req)) (rq_tag_mask (tm_reqs tm req))"

text \<open>The sequence number an iterator points to.\<close>

definition ucp_tag_exp_req_seq :: "'r ucp_tag_match \<Rightarrow> nat list \<Rightarrow> nat \<Rightarrow> u64" where
  "ucp_tag_exp_req_seq tm q iter = (if iter < length q then rq_sn (tm_reqs tm (q ! iter)) else - 1)"

function search_all_loop :: "'r ucp_tag_match \<Rightarrow> nat \<Rightarrow> ucp_tag \<Rightarrow> nat \<Rightarrow> nat \<Rightarrow> (nat option \<times> 'r ucp_tag_match) option" where
  "search_all_loop tm b tag hash_iter wild_iter =
     (let hq = q_queue (get_queue tm (Bucket b)); wq = q_queue (get_queue tm Wildcard);
          hash_sn = ucp_tag_exp_req_seq tm hq hash_iter; wild_sn = ucp_tag_exp_req_seq tm wq wild_iter
      in if hash_sn \<noteq> wild_sn then
           if hash_sn < wild_sn then
             if hash_iter < length hq then
               if req_matches tm tag (hq ! hash_iter)
               then Some (Some (hq ! hash_iter), ucp_tag_exp_delete (hq ! hash_iter) tm (Bucket b) hash_iter)
               else search_all_loop tm b tag (hash_iter + 1) wild_iter
             else None
           else
             if wild_iter < length wq then
               if req_matches tm tag (wq ! wild_iter)
               then Some (Some (wq ! wild_iter), ucp_tag_exp_delete (wq ! wild_iter) tm Wildcard wild_iter)
               else search_all_loop tm b tag hash_iter (wild_iter + 1)
             else None
         else if hash_sn = - 1 \<and> length hq \<le> hash_iter \<and> length wq \<le> wild_iter then Some (None, tm) else None)"
  by pat_completeness auto

termination
  by (relation "measure (\<lambda>(tm, b, tag, h, w). (length (q_queue (get_queue tm (Bucket b))) - h) + (length (q_queue (get_queue tm Wildcard)) - w))")
    (auto simp: Let_def)

definition ucp_tag_exp_search_all :: "'r ucp_tag_match \<Rightarrow> nat \<Rightarrow> ucp_tag \<Rightarrow> (nat option \<times> 'r ucp_tag_match) option" where
  "ucp_tag_exp_search_all tm b tag = search_all_loop tm b tag 0 0"

function exp_search_loop :: "'r ucp_tag_match \<Rightarrow> nat \<Rightarrow> ucp_tag \<Rightarrow> nat \<Rightarrow> nat option \<times> 'r ucp_tag_match" where
  "exp_search_loop tm b tag iter =
     (let hq = q_queue (get_queue tm (Bucket b))
      in if iter < length hq then
           if req_matches tm tag (hq ! iter)
           then (Some (hq ! iter), ucp_tag_exp_delete (hq ! iter) tm (Bucket b) iter)
           else exp_search_loop tm b tag (iter + 1)
         else (None, tm))"
  by pat_completeness auto

termination
  by (relation "measure (\<lambda>(tm, b, tag, iter). length (q_queue (get_queue tm (Bucket b))) - iter)") (auto simp: Let_def)

definition ucp_tag_exp_search :: "'r ucp_tag_match \<Rightarrow> ucp_tag \<Rightarrow> (nat option \<times> 'r ucp_tag_match) option" where
  "ucp_tag_exp_search tm tag =
     (let b = ucp_tag_match_calc_hash tag
      in if q_queue (exp_wildcard tm) \<noteq> [] then ucp_tag_exp_search_all tm b tag
         else Some (exp_search_loop tm b tag 0))"

text \<open>Removing a request that is being cancelled; cancelling it in the transport does not change the queues.\<close>

fun index_of :: "nat \<Rightarrow> nat list \<Rightarrow> nat option" where
  "index_of req [] = None"
| "index_of req (r # rs) = (if r = req then Some 0 else map_option Suc (index_of req rs))"

definition ucp_tag_exp_remove :: "'r ucp_tag_match \<Rightarrow> nat \<Rightarrow> (bool \<times> 'r ucp_tag_match) option" where
  "ucp_tag_exp_remove tm req =
     (let q = ucp_tag_exp_get_req_queue (tm_reqs tm req)
      in case index_of req (q_queue (get_queue tm q)) of
           Some iter \<Rightarrow> Some (True, ucp_tag_exp_delete req tm q iter)
         | None \<Rightarrow> do { ucs_assert (\<not> rq_completed (tm_reqs tm req)); Some (False, tm) })"

section \<open>Unexpected messages\<close>

definition ucp_rdesc_get_tag :: "'r ucp_tag_match \<Rightarrow> nat \<Rightarrow> ucp_tag" where
  "ucp_rdesc_get_tag tm rdesc = rdesc_tag tm rdesc"

text \<open>Unlinking a descriptor from the two lists it is on.\<close>

definition ucp_tag_unexp_remove :: "'r ucp_tag_match \<Rightarrow> nat \<Rightarrow> 'r ucp_tag_match" where
  "ucp_tag_unexp_remove tm rdesc =
     tm\<lparr>unexp_hash := map (removeAll rdesc) (unexp_hash tm), unexp_all := removeAll rdesc (unexp_all tm)\<rparr>"

definition ucp_tag_unexp_recv :: "'r ucp_tag_match \<Rightarrow> nat \<Rightarrow> ucp_tag \<Rightarrow> 'r ucp_tag_match" where
  "ucp_tag_unexp_recv tm rdesc tag =
     (let b = ucp_tag_match_calc_hash tag
      in tm\<lparr>unexp_hash := (unexp_hash tm)[b := unexp_hash tm ! b @ [rdesc]], unexp_all := unexp_all tm @ [rdesc]\<rparr>)"

definition ucp_tag_unexp_is_empty :: "'r ucp_tag_match \<Rightarrow> bool" where
  "ucp_tag_unexp_is_empty tm \<longleftrightarrow> unexp_all tm = []"

text \<open>The search stops when the next element is the head of the list again.\<close>

fun unexp_search_list :: "'r ucp_tag_match \<Rightarrow> ucp_tag \<Rightarrow> ucp_tag \<Rightarrow> nat list \<Rightarrow> nat option" where
  "unexp_search_list tm tag tag_mask [] = None"
| "unexp_search_list tm tag tag_mask (rdesc # rest) =
     (if ucp_tag_is_match (ucp_rdesc_get_tag tm rdesc) tag tag_mask then Some rdesc
      else unexp_search_list tm tag tag_mask rest)"

definition ucp_tag_unexp_search :: "'r ucp_tag_match \<Rightarrow> ucp_tag \<Rightarrow> ucp_tag \<Rightarrow> bool \<Rightarrow> nat option \<times> 'r ucp_tag_match" where
  "ucp_tag_unexp_search tm tag tag_mask rem =
     (if unexp_all tm = [] then (None, tm)
      else
        let lst = (if tag_mask = UCP_TAG_MASK_FULL then unexp_hash tm ! ucp_tag_match_calc_hash tag else unexp_all tm)
        in case unexp_search_list tm tag tag_mask lst of
             None \<Rightarrow> (None, tm)
           | Some rdesc \<Rightarrow> (Some rdesc, if rem then ucp_tag_unexp_remove tm rdesc else tm))"

text \<open>Cleanup unlinks and releases what was never matched; the tables are freed.\<close>

definition ucp_tag_match_cleanup :: "'r ucp_tag_match \<Rightarrow> 'r ucp_tag_match" where
  "ucp_tag_match_cleanup tm =
     (foldl ucp_tag_unexp_remove tm (unexp_all tm))\<lparr>off_tag_hash := Map.empty, unexp_hash := [], exp_hash := []\<rparr>"

section \<open>Posting receives to the transport\<close>

text \<open>
  What the transport and the memory registration answer for a request: the status of registering its
  buffer and whether the wanted memory domain is in the resulting map, whether a bounce buffer is
  available, and the status of posting; and two capabilities of an interface.
\<close>

record transport =
  tr_recv_max_zcopy :: "nat \<Rightarrow> nat"
  tr_rndv_max_zcopy :: "nat \<Rightarrow> nat"
  tr_reg :: "nat \<Rightarrow> ucs_status \<times> bool"
  tr_bounce :: "nat \<Rightarrow> bool"
  tr_post :: "nat \<Rightarrow> ucs_status"

definition ucp_tag_offload_iface_activate :: "'r ucp_tag_match \<Rightarrow> nat \<Rightarrow> 'r ucp_tag_match option" where
  "ucp_tag_offload_iface_activate tm iface = do {
     tm1 \<leftarrow> (if off_iface tm = None then do {
        ucs_assert (off_thresh tm = 2 ^ 64 - 1);
        ucs_assert (off_zcopy_thresh tm = 2 ^ 64 - 1);
        Some (tm\<lparr>off_thresh := max (tm_thresh tm) (wi_min_recv (off_ifaces tm iface)),
          off_zcopy_thresh := tm_max_bb_size tm, off_iface := Some iface\<rparr>)
      } else Some tm);
     Some (tm1\<lparr>off_ifaces := (off_ifaces tm1)(iface := (off_ifaces tm1 iface)\<lparr>wi_activated := True\<rparr>)\<rparr>)
   }"

text \<open>An unexpected message on an interface that can match tags.\<close>

definition ucp_tag_offload_unexp :: "'r ucp_tag_match \<Rightarrow> nat \<Rightarrow> ucp_tag \<Rightarrow> nat \<Rightarrow> 'r ucp_tag_match option" where
  "ucp_tag_offload_unexp tm wiface tag len = do {
     let wi = off_ifaces tm wiface;
     let tm0 = tm\<lparr>off_ifaces := (off_ifaces tm)(wiface := wi\<lparr>wi_proxy_recv_count := w32 (wi_proxy_recv_count wi + 1)\<rparr>)\<rparr>;
     tm1 \<leftarrow> (if \<not> wi_activated wi then ucp_tag_offload_iface_activate tm0 wiface else Some tm0);
     if len \<ge> off_thresh tm1 \<and> num_active_ifaces tm1 > 1 then
       let tag_key = tag_sender_mask tm1 AND tag
       in Some (if off_tag_hash tm1 tag_key \<noteq> None then tm1
                else tm1\<lparr>off_tag_hash := (off_tag_hash tm1)(tag_key \<mapsto> wiface)\<rparr>)
     else Some tm1
   }"

definition ucp_tag_offload_iface :: "'r ucp_tag_match \<Rightarrow> ucp_tag \<Rightarrow> nat option option" where
  "ucp_tag_offload_iface tm tag =
     (if num_active_ifaces tm = 1 then do { ucs_assert (off_iface tm \<noteq> None); Some (off_iface tm) }
      else Some (off_tag_hash tm (tag_sender_mask tm AND tag)))"

definition ucp_tag_offload_do_post :: "transport \<Rightarrow> 'r ucp_tag_match \<Rightarrow> nat \<Rightarrow> (ucs_status \<times> 'r ucp_tag_match) option" where
  "ucp_tag_offload_do_post tr tm req = do {
     let r = tm_reqs tm req;
     wi \<leftarrow> ucp_tag_offload_iface tm (rq_tag r);
     case wi of
       None \<Rightarrow> Some (UCS_ERR_NO_RESOURCE, tm)
     | Some wiface \<Rightarrow> do {
         let direct = (rq_length r \<ge> off_zcopy_thresh tm \<or> \<not> rq_host_mem r);
         ucs_assert (direct \<and> rq_length r > tr_recv_max_zcopy tr wiface \<longrightarrow> tr_rndv_max_zcopy tr wiface \<le> tr_recv_max_zcopy tr wiface);
         let (reg_status, md_map) = tr_reg tr req;
             if direct \<and> (reg_status \<noteq> UCS_OK \<or> \<not> md_map) then Some (reg_status, tm)
             else if \<not> direct \<and> \<not> tr_bounce tr req then Some (UCS_ERR_NO_MEMORY, tm)
             else if tr_post tr req \<noteq> UCS_OK then do {
               ucs_assert (tr_post tr req \<in> {UCS_ERR_NO_RESOURCE, UCS_ERR_EXCEEDS_LIMIT, UCS_ERR_ALREADY_EXISTS});
               Some (tr_post tr req, tm)
             }
             else Some (UCS_OK, tm\<lparr>tm_reqs := (tm_reqs tm)(req := r\<lparr>rq_offloaded := True\<rparr>),
               off_ifaces := (off_ifaces tm)(wiface := (off_ifaces tm wiface)\<lparr>wi_post_count := w32 (wi_post_count (off_ifaces tm wiface) + 1)\<rparr>)\<rparr>)
       }
   }"

text \<open>Posting the pending requests of the queue, in order, until one fails.\<close>

fun post_sw_loop :: "transport \<Rightarrow> 'r ucp_tag_match \<Rightarrow> nat \<Rightarrow> exp_queue \<Rightarrow> nat list \<Rightarrow> (bool \<times> 'r ucp_tag_match) option" where
  "post_sw_loop tr tm req q [] = Some (True, tm)"
| "post_sw_loop tr tm req q (r # rs) =
     (if rq_offloaded (tm_reqs tm r) then post_sw_loop tr tm req q rs
      else do {
        ucs_assert (r \<noteq> req);
        (status, tm1) \<leftarrow> ucp_tag_offload_do_post tr tm r;
        if status \<noteq> UCS_OK then Some (False, tm1)
        else
          let rq = get_queue tm1 q
          in post_sw_loop tr ((set_queue tm1 q (rq\<lparr>q_sw_count := dec32 (q_sw_count rq)\<rparr>))
               \<lparr>exp_sw_all_count := dec32 (exp_sw_all_count tm1)\<rparr>) req q rs
      })"

definition ucp_tag_offload_post_sw_reqs :: "transport \<Rightarrow> 'r ucp_tag_match \<Rightarrow> nat \<Rightarrow> exp_queue \<Rightarrow> (bool \<times> 'r ucp_tag_match) option" where
  "ucp_tag_offload_post_sw_reqs tr tm req q =
     (if rq_length (tm_reqs tm req) < tm_force_thresh tm \<or> q_block_count (get_queue tm q) \<noteq> 0 then Some (False, tm)
      else do {
        wi \<leftarrow> ucp_tag_offload_iface tm (rq_tag (tm_reqs tm req));
        case wi of
          None \<Rightarrow> Some (False, tm)
        | Some wiface \<Rightarrow>
            (let max_post = sub64 (wi_max_outstanding (off_ifaces tm wiface)) (wi_post_count (off_ifaces tm wiface))
             in if q_sw_count (get_queue tm q) \<ge> max_post then Some (False, tm)
                else post_sw_loop tr tm req q (q_queue (get_queue tm q)))
      })"

definition ucp_tag_offload_post :: "transport \<Rightarrow> 'r ucp_tag_match \<Rightarrow> nat \<Rightarrow> exp_queue \<Rightarrow> (bool \<times> 'r ucp_tag_match) option" where
  "ucp_tag_offload_post tr tm req q =
     (let r = tm_reqs tm req
      in if \<not> rq_contig r then Some (False, tm)
         else do {
           (blocked, tm1) \<leftarrow>
             (if rq_tag_mask r \<noteq> UCP_TAG_MASK_FULL then
                Some (\<not> ucp_tag_is_specific_source (tag_sender_mask tm) (rq_tag_mask r) \<or> exp_sw_all_count tm \<noteq> 0, tm)
              else if q_sw_count (exp_wildcard tm) \<noteq> 0 then Some (True, tm)
              else if q_sw_count (get_queue tm q) \<noteq> 0 then do {
                (posted, tm1) \<leftarrow> ucp_tag_offload_post_sw_reqs tr tm req q;
                Some (\<not> posted, tm1)
              } else Some (False, tm));
           if blocked then Some (False, tm1)
           else do {
             (status, tm2) \<leftarrow> ucp_tag_offload_do_post tr tm1 req;
             Some (status = UCS_OK, tm2)
           }
         })"

definition ucp_tag_offload_try_post :: "transport \<Rightarrow> 'r ucp_tag_match \<Rightarrow> nat \<Rightarrow> exp_queue \<Rightarrow> 'r ucp_tag_match option" where
  "ucp_tag_offload_try_post tr tm req q = do {
     (posted, tm1) \<leftarrow>
       (if rq_length (tm_reqs tm req) \<ge> off_thresh tm then ucp_tag_offload_post tr tm req q else Some (False, tm));
     if posted then Some tm1
     else
       let rq = get_queue tm1 q
       in Some ((set_queue tm1 q (rq\<lparr>q_sw_count := w32 (q_sw_count rq + 1),
            q_block_count := w32 (q_block_count rq + (if rq_block_offload (tm_reqs tm1 req) then 1 else 0))\<rparr>))
            \<lparr>exp_sw_all_count := w32 (exp_sw_all_count tm1 + 1)\<rparr>)
   }"

text \<open>The transport matched a posted receive and takes it off its queue.\<close>

definition ucp_tag_offload_tag_consumed :: "'r ucp_tag_match \<Rightarrow> nat \<Rightarrow> 'r ucp_tag_match" where
  "ucp_tag_offload_tag_consumed tm req =
     (let q = ucp_tag_exp_get_req_queue (tm_reqs tm req); rq = get_queue tm q
      in set_queue tm q (rq\<lparr>q_queue := removeAll req (q_queue rq)\<rparr>))"

declare search_all_loop.simps [simp del] exp_search_loop.simps [simp del] roundup_pow2_from.simps [simp del]

end
