(* ===== verification/Tag_Match_Correct.thy ===== *)
theory Tag_Match_Correct
  imports Tag_Match
begin

text \<open>
  Correctness of tag matching.  \<open>tm_rep tm ps ds\<close> relates the hashed structures to the list \<open>ps\<close> of
  posted receives, in the order they were posted, and the list \<open>ds\<close> of unexpected messages, in the
  order they arrived.  Searching finds the first match in these lists.  \<open>ord_ok\<close> is the ordering
  condition for receives posted to the transport.
\<close>

section \<open>Hash values\<close>

lemma roundup_1021: "ucs_roundup_pow2 1021 = 1024"
  by (simp add: ucs_roundup_pow2_def roundup_pow2_from.simps push_bit_eq_mult)

lemma hash_size: "ucp_tag_get_hash_size = 1024"
  by (simp add: ucp_tag_get_hash_size_def UCP_TAG_MATCH_HASH_SIZE_def roundup_1021)

lemma xor_less_power: "a < 2 ^ k \<Longrightarrow> b < 2 ^ k \<Longrightarrow> (a XOR b :: nat) < 2 ^ k"
  by (metis take_bit_nat_eq_self take_bit_nat_less_exp take_bit_xor)

lemma hash_bound: "ucp_tag_match_calc_hash tag < 1024"
  using xor_less_power [of _ 10] by (simp add: ucp_tag_match_calc_hash_def UCP_TAG_MATCH_HASH_SIZE_def less_trans [OF mod_less_divisor])

lemma xor_eq_0: "(a :: u64) XOR b = 0 \<longleftrightarrow> a = b"
proof
  assume "a XOR b = 0"
  then have "(a XOR b) XOR b = 0 XOR b" by (rule arg_cong)
  then show "a = b" by (simp add: xor.assoc)
qed simp

lemma full_mask_match: "ucp_tag_is_match tag t UCP_TAG_MASK_FULL \<longleftrightarrow> tag = t"
  by (simp add: ucp_tag_is_match_def UCP_TAG_MASK_FULL_def xor_eq_0)

lemma match_sym: "ucp_tag_is_match a b m = ucp_tag_is_match b a m"
  by (simp add: ucp_tag_is_match_def xor.commute)

section \<open>The representation\<close>

definition is_wild :: "'r ucp_tag_match \<Rightarrow> nat \<Rightarrow> bool" where
  "is_wild tm r \<longleftrightarrow> rq_tag_mask (tm_reqs tm r) \<noteq> UCP_TAG_MASK_FULL"

definition in_sw :: "'r ucp_tag_match \<Rightarrow> nat \<Rightarrow> bool" where
  "in_sw tm r \<longleftrightarrow> \<not> rq_offloaded (tm_reqs tm r)"

definition in_queue :: "'r ucp_tag_match \<Rightarrow> exp_queue \<Rightarrow> nat \<Rightarrow> bool" where
  "in_queue tm q r \<longleftrightarrow> ucp_tag_exp_get_req_queue (tm_reqs tm r) = q"

definition count :: "('a \<Rightarrow> bool) \<Rightarrow> 'a list \<Rightarrow> nat" where
  "count P xs = length (filter P xs)"

definition q_ok :: "'r ucp_tag_match \<Rightarrow> exp_queue \<Rightarrow> nat list \<Rightarrow> bool" where
  "q_ok tm q ps \<longleftrightarrow> q_queue (get_queue tm q) = filter (in_queue tm q) ps \<and>
     q_sw_count (get_queue tm q) = count (\<lambda>r. in_queue tm q r \<and> in_sw tm r) ps \<and>
     q_block_count (get_queue tm q) = count (\<lambda>r. in_queue tm q r \<and> in_sw tm r \<and> rq_block_offload (tm_reqs tm r)) ps"

fun valid_queue :: "exp_queue \<Rightarrow> bool" where
  "valid_queue Wildcard \<longleftrightarrow> True"
| "valid_queue (Bucket b) \<longleftrightarrow> b < 1024"

definition sn_of :: "'r ucp_tag_match \<Rightarrow> nat \<Rightarrow> u64" where
  "sn_of tm r = rq_sn (tm_reqs tm r)"

definition tm_rep :: "'r ucp_tag_match \<Rightarrow> nat list \<Rightarrow> nat list \<Rightarrow> bool" where
  "tm_rep tm ps ds \<longleftrightarrow> length (exp_hash tm) = 1024 \<and> length (unexp_hash tm) = 1024 \<and> length ps < 2 ^ 31 \<and>
     sorted_wrt (\<lambda>a b. sn_of tm a < sn_of tm b) ps \<and> (\<forall>r \<in> set ps. sn_of tm r < exp_sn tm) \<and>
     (\<forall>q. valid_queue q \<longrightarrow> q_ok tm q ps) \<and> exp_sw_all_count tm = count (in_sw tm) ps \<and>
     distinct ds \<and> unexp_all tm = ds \<and>
     (\<forall>b < 1024. unexp_hash tm ! b = filter (\<lambda>d. ucp_tag_match_calc_hash (rdesc_tag tm d) = b) ds)"

lemma tm_repD:
  assumes "tm_rep tm ps ds"
  shows "length (exp_hash tm) = 1024" "length (unexp_hash tm) = 1024" "length ps < 2 ^ 31"
    "sorted_wrt (\<lambda>a b. sn_of tm a < sn_of tm b) ps" "r \<in> set ps \<Longrightarrow> sn_of tm r < exp_sn tm"
    "valid_queue q \<Longrightarrow> q_ok tm q ps" "exp_sw_all_count tm = count (in_sw tm) ps" "distinct ds" "unexp_all tm = ds"
    "b < 1024 \<Longrightarrow> unexp_hash tm ! b = filter (\<lambda>d. ucp_tag_match_calc_hash (rdesc_tag tm d) = b) ds"
  using assms unfolding tm_rep_def by blast+

lemma sorted_sn_distinct: "sorted_wrt (\<lambda>a b. sn_of tm a < sn_of tm b) ps \<Longrightarrow> distinct ps"
  by (induction ps) auto

lemma valid_req_queue: "valid_queue (ucp_tag_exp_get_req_queue r)"
  using hash_bound by (simp add: ucp_tag_exp_get_req_queue_def ucp_tag_exp_get_queue_def ucp_tag_exp_get_queue_for_tag_def)

lemma in_queue_wild: "in_queue tm Wildcard r \<longleftrightarrow> is_wild tm r"
  by (simp add: in_queue_def is_wild_def ucp_tag_exp_get_req_queue_def ucp_tag_exp_get_queue_def ucp_tag_exp_get_queue_for_tag_def)

lemma in_queue_bucket:
  "in_queue tm (Bucket b) r \<longleftrightarrow> \<not> is_wild tm r \<and> ucp_tag_match_calc_hash (rq_tag (tm_reqs tm r)) = b"
  by (auto simp: in_queue_def is_wild_def ucp_tag_exp_get_req_queue_def ucp_tag_exp_get_queue_def ucp_tag_exp_get_queue_for_tag_def)

text \<open>A request that matches a tag is a wildcard or is in the tag's bucket.\<close>

lemma match_in_queue:
  "req_matches tm tag r \<Longrightarrow> in_queue tm Wildcard r \<or> in_queue tm (Bucket (ucp_tag_match_calc_hash tag)) r"
  by (auto simp: req_matches_def in_queue_wild in_queue_bucket is_wild_def full_mask_match)

lemma get_set_queue [simp]:
  "valid_queue q \<Longrightarrow> length (exp_hash tm) = 1024 \<Longrightarrow> get_queue (set_queue tm q x) q = x"
  "q' \<noteq> q \<Longrightarrow> get_queue (set_queue tm q x) q' = get_queue tm q'"
  by (cases q; simp) (cases q; cases q'; simp)

lemma set_queue_frame [simp]:
  "tm_reqs (set_queue tm q x) = tm_reqs tm" "exp_sn (set_queue tm q x) = exp_sn tm"
  "exp_sw_all_count (set_queue tm q x) = exp_sw_all_count tm" "rdesc_tag (set_queue tm q x) = rdesc_tag tm"
  "unexp_all (set_queue tm q x) = unexp_all tm" "unexp_hash (set_queue tm q x) = unexp_hash tm"
  "length (exp_hash (set_queue tm q x)) = length (exp_hash tm)" "off_thresh (set_queue tm q x) = off_thresh tm"
  "off_iface (set_queue tm q x) = off_iface tm" "num_active_ifaces (set_queue tm q x) = num_active_ifaces tm"
  "off_tag_hash (set_queue tm q x) = off_tag_hash tm" "tag_sender_mask (set_queue tm q x) = tag_sender_mask tm"
  by (cases q; simp)+

text \<open>The other fields of the state do not matter for the queues.\<close>

lemma get_queue_update [simp]:
  "get_queue (tm\<lparr>tm_reqs := f\<rparr>) q = get_queue tm q" "get_queue (tm\<lparr>exp_sn := s\<rparr>) q = get_queue tm q"
  "get_queue (tm\<lparr>exp_sw_all_count := n\<rparr>) q = get_queue tm q" "get_queue (tm\<lparr>off_ifaces := i\<rparr>) q = get_queue tm q"
  "get_queue (tm\<lparr>unexp_all := u\<rparr>) q = get_queue tm q" "get_queue (tm\<lparr>unexp_hash := h\<rparr>) q = get_queue tm q"
  by (cases q; simp)+

section \<open>Deleting a request\<close>

lemma count_remove1:
  assumes "distinct ps" "r \<in> set ps"
  shows "count P (remove1 r ps) = (if P r then count P ps - 1 else count P ps)" "P r \<Longrightarrow> 0 < count P ps"
proof -
  have "length (filter P (remove1 r ps)) = length (remove1 r (filter P ps))" by (simp add: filter_remove1)
  then show "count P (remove1 r ps) = (if P r then count P ps - 1 else count P ps)"
    using assms(2) by (auto simp: count_def length_remove1)
  show "P r \<Longrightarrow> 0 < count P ps" using assms(2) by (auto simp: count_def filter_empty_conv)
qed

lemma remove_nth: "distinct xs \<Longrightarrow> i < length xs \<Longrightarrow> take i xs @ drop (Suc i) xs = remove1 (xs ! i) xs"
proof (induction xs arbitrary: i)
  case (Cons x xs)
  then show ?case by (cases i) (auto simp: nth_mem)
qed simp

lemma exp_delete_rep:
  assumes rep: "tm_rep tm ps ds" and q: "in_queue tm q r" and i: "i < length (q_queue (get_queue tm q))" "q_queue (get_queue tm q) ! i = r"
  defines "tm' \<equiv> ucp_tag_exp_delete r tm q i"
  shows "tm_rep tm' (remove1 r ps) ds" "tm_reqs tm' = tm_reqs tm" "rdesc_tag tm' = rdesc_tag tm" "r \<in> set ps"
    "off_iface tm' = off_iface tm" "off_thresh tm' = off_thresh tm"
proof -
  show "off_iface tm' = off_iface tm" "off_thresh tm' = off_thresh tm"
    by (simp_all add: tm'_def ucp_tag_exp_delete_def Let_def)
  note d = tm_repD [OF rep]
  have vq: "valid_queue q" using q valid_req_queue by (auto simp: in_queue_def)
  note qk = d(6) [OF vq, unfolded q_ok_def]
  have dps: "distinct ps" using sorted_sn_distinct [OF d(4)] .
  have r: "r \<in> set ps" using i qk by (metis filter_is_subset nth_mem subsetD)
  then show "r \<in> set ps" .
  have same [simp]: "tm_reqs tm' = tm_reqs tm" "rdesc_tag tm' = rdesc_tag tm" "exp_sn tm' = exp_sn tm"
    "unexp_all tm' = unexp_all tm" "unexp_hash tm' = unexp_hash tm" "length (exp_hash tm') = 1024"
    using d(1) by (auto simp: tm'_def ucp_tag_exp_delete_def Let_def)
  show "tm_reqs tm' = tm_reqs tm" "rdesc_tag tm' = rdesc_tag tm" by simp_all
  have f [simp]: "in_queue tm' = in_queue tm" "in_sw tm' = in_sw tm" "sn_of tm' = sn_of tm"
    by (simp_all add: fun_eq_iff in_queue_def in_sw_def sn_of_def)
  have "q_ok tm' q (remove1 r ps)"
  proof -
    let ?P = "\<lambda>r. in_queue tm q r \<and> in_sw tm r"
    let ?B = "\<lambda>r. in_queue tm q r \<and> in_sw tm r \<and> rq_block_offload (tm_reqs tm r)"
    have dq: "distinct (q_queue (get_queue tm q))" using qk dps by simp
    have "q_queue (get_queue tm' q) = remove1 r (q_queue (get_queue tm q))"
      using remove_nth [OF dq i(1)] i(2) vq d(1) by (simp add: tm'_def ucp_tag_exp_delete_def Let_def)
    moreover have "q_sw_count (get_queue tm' q) = (if in_sw tm r then dec32 (q_sw_count (get_queue tm q)) else q_sw_count (get_queue tm q))"
      using vq d(1) by (simp add: tm'_def ucp_tag_exp_delete_def Let_def in_sw_def)
    moreover have "q_block_count (get_queue tm' q) =
      (if in_sw tm r \<and> rq_block_offload (tm_reqs tm r) then dec32 (q_block_count (get_queue tm q)) else q_block_count (get_queue tm q))"
      using vq d(1) by (simp add: tm'_def ucp_tag_exp_delete_def Let_def in_sw_def)
    ultimately show ?thesis
      using qk q count_remove1 [OF dps r, of ?P] count_remove1 [OF dps r, of ?B]
      unfolding q_ok_def f same by (auto simp: filter_remove1 dec32_def)
  qed
  moreover have "q_ok tm' q' (remove1 r ps)" if "valid_queue q'" "q' \<noteq> q" for q'
  proof -
    have nr: "\<not> in_queue tm q' r" using q that(2) by (simp add: in_queue_def)
    have "get_queue tm' q' = get_queue tm q'"
      using that(2) by (auto simp: tm'_def ucp_tag_exp_delete_def Let_def)
    moreover have "filter (in_queue tm q') (remove1 r ps) = filter (in_queue tm q') ps"
      using nr by (simp add: filter_remove1 remove1_idem)
    ultimately show ?thesis
      using d(6) [OF that(1)] nr count_remove1 (1) [OF dps r]
      by (simp add: q_ok_def)
  qed
  moreover have "exp_sw_all_count tm' = count (in_sw tm) (remove1 r ps)"
  proof -
    have "exp_sw_all_count tm' = (if in_sw tm r then dec32 (exp_sw_all_count tm) else exp_sw_all_count tm)"
      by (simp add: tm'_def ucp_tag_exp_delete_def Let_def in_sw_def)
    then show ?thesis
      using d(7) count_remove1 [OF dps r, of "in_sw tm"] by (cases "in_sw tm r") (simp_all add: dec32_def)
  qed
  moreover have "sorted_wrt (\<lambda>a b. sn_of tm a < sn_of tm b) (remove1 r ps)"
    using d(4) by (induction ps) (auto dest: notin_set_remove1 intro: set_remove1_subset [THEN subsetD])
  moreover have "length (remove1 r ps) < 2 ^ 31" using d(3) by (auto simp: length_remove1)
  ultimately show "tm_rep tm' (remove1 r ps) ds"
    using d(2,5,8-10) unfolding tm_rep_def by (auto dest: notin_set_remove1 set_remove1_subset [THEN subsetD])
qed

section \<open>Searching the expected queues\<close>

lemma drop_Cons_nth: "drop i xs = y # ys \<Longrightarrow> i < length xs \<and> xs ! i = y \<and> drop (Suc i) xs = ys"
  by (metis Cons_nth_drop_Suc drop_eq_Nil list.distinct(1) list.inject not_less)

text \<open>The sequence number under an iterator, in terms of what is left of the queue.\<close>

lemma seq_of_rest:
  "ucp_tag_exp_req_seq tm q i = (case drop i q of [] \<Rightarrow> - 1 | r # _ \<Rightarrow> sn_of tm r)"
  by (auto simp: ucp_tag_exp_req_seq_def sn_of_def split: list.splits dest!: drop_Cons_nth)

lemma word_max_less: "(x :: u64) < y \<Longrightarrow> x < - 1 \<and> x \<noteq> - 1"
  by (metis less_le_trans order_less_irrefl word_n1_ge)

text \<open>The merge of the two queues visits the requests in the order they were posted.\<close>

lemma search_all_loop_correct:
  fixes tm b
  defines "H \<equiv> q_queue (get_queue tm (Bucket b))" and "W \<equiv> q_queue (get_queue tm Wildcard)"
  assumes "drop h H = filter (in_queue tm (Bucket b)) rest" "drop w W = filter (in_queue tm Wildcard) rest"
    "sorted_wrt (\<lambda>a b. sn_of tm a < sn_of tm b) rest" "\<forall>r \<in> set rest. sn_of tm r < - 1"
  shows "case find (\<lambda>r. (in_queue tm (Bucket b) r \<or> in_queue tm Wildcard r) \<and> req_matches tm tag r) rest of
      None \<Rightarrow> search_all_loop tm b tag h w = Some (None, tm)
    | Some r \<Rightarrow> \<exists>q i. in_queue tm q r \<and> i < length (q_queue (get_queue tm q)) \<and> q_queue (get_queue tm q) ! i = r \<and>
        search_all_loop tm b tag h w = Some (Some r, ucp_tag_exp_delete r tm q i)"
  using assms(3-)
proof (induction rest arbitrary: h w)
  case Nil
  then have "ucp_tag_exp_req_seq tm H h = - 1" "ucp_tag_exp_req_seq tm W w = - 1" by (simp_all add: seq_of_rest)
  then show ?case using Nil by (subst search_all_loop.simps) (simp add: Let_def H_def W_def)
next
  case (Cons r rest)
  note srt = Cons.prems(3,4)
  have later: "sn_of tm r < (case filter P rest of [] \<Rightarrow> - 1 | x # _ \<Rightarrow> sn_of tm x)" for P
  proof (cases "filter P rest")
    case (Cons x xs)
    then have "x \<in> set rest" by (metis filter_is_subset list.set_intros(1) subsetD)
    then show ?thesis using Cons srt(1) by simp
  qed (use srt in simp)
  have rec: "sorted_wrt (\<lambda>a b. sn_of tm a < sn_of tm b) rest" "\<forall>r \<in> set rest. sn_of tm r < - 1" using srt by auto
  consider (hash) "in_queue tm (Bucket b) r" | (wild) "in_queue tm Wildcard r" | (other) "\<not> in_queue tm (Bucket b) r" "\<not> in_queue tm Wildcard r" by blast
  then show ?case
  proof cases
    case hash
    then have nw: "\<not> in_queue tm Wildcard r" by (simp add: in_queue_def)
    have h: "h < length H" "H ! h = r" "drop (Suc h) H = filter (in_queue tm (Bucket b)) rest"
      using drop_Cons_nth [of h H r] Cons.prems(1) hash by auto
    have w: "drop w W = filter (in_queue tm Wildcard) rest" using Cons.prems(2) nw by simp
    have lt: "ucp_tag_exp_req_seq tm H h < ucp_tag_exp_req_seq tm W w"
      using later [of "in_queue tm Wildcard"] Cons.prems(1) hash by (simp add: seq_of_rest w)
    have step: "search_all_loop tm b tag h w = (if req_matches tm tag r then Some (Some r, ucp_tag_exp_delete r tm (Bucket b) h)
        else search_all_loop tm b tag (Suc h) w)"
      using lt h by (subst search_all_loop.simps) (auto simp: Let_def H_def W_def)
    show ?thesis
    proof (cases "req_matches tm tag r")
      case True
      then show ?thesis using step hash h unfolding H_def by (auto intro!: exI [of _ "Bucket b"] exI [of _ h])
    next
      case False
      then have st: "search_all_loop tm b tag h w = search_all_loop tm b tag (Suc h) w" using step by simp
      show ?thesis unfolding st using Cons.IH [OF h(3) w rec] False by simp
    qed
  next
    case wild
    then have nh: "\<not> in_queue tm (Bucket b) r" by (simp add: in_queue_def)
    have w: "w < length W" "W ! w = r" "drop (Suc w) W = filter (in_queue tm Wildcard) rest"
      using drop_Cons_nth [of w W r] Cons.prems(2) wild by auto
    have h: "drop h H = filter (in_queue tm (Bucket b)) rest" using Cons.prems(1) nh by simp
    have "ucp_tag_exp_req_seq tm W w < ucp_tag_exp_req_seq tm H h"
      using later [of "in_queue tm (Bucket b)"] Cons.prems(2) wild by (simp add: seq_of_rest h)
    then have gt: "ucp_tag_exp_req_seq tm H h \<noteq> ucp_tag_exp_req_seq tm W w" "\<not> ucp_tag_exp_req_seq tm H h < ucp_tag_exp_req_seq tm W w"
      by auto
    have step: "search_all_loop tm b tag h w = (if req_matches tm tag r then Some (Some r, ucp_tag_exp_delete r tm Wildcard w)
        else search_all_loop tm b tag h (Suc w))"
      using gt w by (subst search_all_loop.simps) (auto simp: Let_def H_def W_def)
    show ?thesis
    proof (cases "req_matches tm tag r")
      case True
      then show ?thesis using step wild w unfolding W_def by (auto intro!: exI [of _ Wildcard] exI [of _ w])
    next
      case False
      then have st: "search_all_loop tm b tag h w = search_all_loop tm b tag h (Suc w)" using step by simp
      show ?thesis unfolding st using Cons.IH [OF h w(3) rec] False by simp
    qed
  next
    case other
    then show ?thesis using Cons.IH [of h w] Cons.prems(1,2) rec by simp
  qed
qed

lemma exp_search_loop_correct:
  fixes tm b
  defines "H \<equiv> q_queue (get_queue tm (Bucket b))"
  assumes "drop h H = rest"
  shows "case find (req_matches tm tag) rest of
      None \<Rightarrow> exp_search_loop tm b tag h = (None, tm)
    | Some r \<Rightarrow> \<exists>i. i < length H \<and> H ! i = r \<and> exp_search_loop tm b tag h = (Some r, ucp_tag_exp_delete r tm (Bucket b) i)"
  using assms(2)
proof (induction rest arbitrary: h)
  case Nil
  then show ?case by (subst exp_search_loop.simps) (simp add: Let_def H_def)
next
  case (Cons r rest)
  have h: "h < length H" "H ! h = r" "drop (Suc h) H = rest" using drop_Cons_nth [OF Cons.prems] by auto
  have step: "exp_search_loop tm b tag h = (if req_matches tm tag r then (Some r, ucp_tag_exp_delete r tm (Bucket b) h)
      else exp_search_loop tm b tag (Suc h))"
    using h by (subst exp_search_loop.simps) (simp add: Let_def H_def)
  show ?case
  proof (cases "req_matches tm tag r")
    case True
    then show ?thesis using step h by auto
  next
    case False
    then have st: "exp_search_loop tm b tag h = exp_search_loop tm b tag (Suc h)" using step by simp
    show ?thesis unfolding st using Cons.IH [OF h(3)] False by simp
  qed
qed

lemma find_restrict: "(\<And>r. Q r \<Longrightarrow> P r) \<Longrightarrow> find (\<lambda>r. P r \<and> Q r) xs = find Q xs"
  by (induction xs) auto

lemma find_filter: "find Q (filter P xs) = find (\<lambda>r. P r \<and> Q r) xs"
  by (induction xs) auto

definition drop_found :: "'a option \<Rightarrow> 'a list \<Rightarrow> 'a list" where
  "drop_found x xs = (case x of None \<Rightarrow> xs | Some y \<Rightarrow> remove1 y xs)"

text \<open>The search finds the request that was posted first among those that match, and takes it out.\<close>

lemma exp_search_correct:
  assumes rep: "tm_rep tm ps ds"
  shows "\<exists>tm'. ucp_tag_exp_search tm tag = Some (find (req_matches tm tag) ps, tm') \<and>
    tm_rep tm' (drop_found (find (req_matches tm tag) ps) ps) ds \<and> tm_reqs tm' = tm_reqs tm \<and> rdesc_tag tm' = rdesc_tag tm \<and>
    off_iface tm' = off_iface tm \<and> off_thresh tm' = off_thresh tm"
proof -
  note d = tm_repD [OF rep]
  let ?b = "ucp_tag_match_calc_hash tag"
  have vb: "valid_queue (Bucket ?b)" "valid_queue Wildcard" using hash_bound by auto
  have H: "q_queue (get_queue tm (Bucket ?b)) = filter (in_queue tm (Bucket ?b)) ps" and
    W: "q_queue (get_queue tm Wildcard) = filter (in_queue tm Wildcard) ps"
    using d(6) [OF vb(1)] d(6) [OF vb(2)] by (auto simp: q_ok_def)
  have sn: "\<forall>r \<in> set ps. sn_of tm r < - 1" using d(5) word_max_less by blast
  have fin: "\<exists>tm'. Some (find (req_matches tm tag) ps, ucp_tag_exp_delete r tm q i) = Some (find (req_matches tm tag) ps, tm') \<and>
      tm_rep tm' (drop_found (find (req_matches tm tag) ps) ps) ds \<and> tm_reqs tm' = tm_reqs tm \<and> rdesc_tag tm' = rdesc_tag tm \<and>
      off_iface tm' = off_iface tm \<and> off_thresh tm' = off_thresh tm"
    if "find (req_matches tm tag) ps = Some r" "in_queue tm q r" "i < length (q_queue (get_queue tm q))" "q_queue (get_queue tm q) ! i = r" for r q i
    using exp_delete_rep [OF rep that(2-4)] that(1) by (simp add: drop_found_def)
  show ?thesis
  proof (cases "q_queue (exp_wildcard tm) = []")
    case False
    have f: "find (\<lambda>r. (in_queue tm (Bucket ?b) r \<or> in_queue tm Wildcard r) \<and> req_matches tm tag r) ps = find (req_matches tm tag) ps"
      by (rule find_restrict) (use match_in_queue in blast)
    have e: "ucp_tag_exp_search tm tag = search_all_loop tm ?b tag 0 0"
      using False by (simp add: ucp_tag_exp_search_def ucp_tag_exp_search_all_def)
    have "case find (req_matches tm tag) ps of
        None \<Rightarrow> search_all_loop tm ?b tag 0 0 = Some (None, tm)
      | Some r \<Rightarrow> \<exists>q i. in_queue tm q r \<and> i < length (q_queue (get_queue tm q)) \<and> q_queue (get_queue tm q) ! i = r \<and>
          search_all_loop tm ?b tag 0 0 = Some (Some r, ucp_tag_exp_delete r tm q i)"
      using search_all_loop_correct [of 0 tm ?b ps 0 tag] H W d(4) sn unfolding f by simp
    then show ?thesis unfolding e using fin rep
      by (cases "find (req_matches tm tag) ps") (auto simp: drop_found_def)
  next
    case True
    have f: "find (req_matches tm tag) (filter (in_queue tm (Bucket ?b)) ps) = find (req_matches tm tag) ps"
    proof -
      have nw: "filter (in_queue tm Wildcard) ps = []" using True W by simp
      have "find (\<lambda>r. in_queue tm (Bucket ?b) r \<and> req_matches tm tag r) ps = find (\<lambda>r. r \<in> set ps \<and> req_matches tm tag r) ps"
        by (rule find_cong) (use nw match_in_queue in \<open>auto simp: filter_empty_conv\<close>)
      also have "\<dots> = find (req_matches tm tag) ps" by (rule find_cong) auto
      finally show ?thesis by (simp add: find_filter)
    qed
    have e: "ucp_tag_exp_search tm tag = Some (exp_search_loop tm ?b tag 0)"
      using True by (simp add: ucp_tag_exp_search_def)
    have "case find (req_matches tm tag) ps of
        None \<Rightarrow> exp_search_loop tm ?b tag 0 = (None, tm)
      | Some r \<Rightarrow> \<exists>i. i < length (q_queue (get_queue tm (Bucket ?b))) \<and> q_queue (get_queue tm (Bucket ?b)) ! i = r \<and>
          exp_search_loop tm ?b tag 0 = (Some r, ucp_tag_exp_delete r tm (Bucket ?b) i)"
      using exp_search_loop_correct [of 0 tm ?b _ tag, OF refl] H unfolding drop_0 by (simp add: f)
    moreover have "in_queue tm (Bucket ?b) r"
      if "i < length (q_queue (get_queue tm (Bucket ?b)))" "q_queue (get_queue tm (Bucket ?b)) ! i = r" for i r
      using nth_mem [OF that(1)] that(2) H by simp
    ultimately show ?thesis unfolding e using fin rep
      by (cases "find (req_matches tm tag) ps") (auto simp: drop_found_def)
  qed
qed

end
