(* ===== verification/Tag_Offload.thy ===== *)
theory Tag_Offload
  imports Tag_Match_Correct
begin

text \<open>
  Correctness of the remaining matching operations: cancelling, unexpected messages, and posting
  receives, in software or to the transport.
\<close>

section \<open>Cancelling\<close>

lemma index_of_Some: "index_of r xs = Some i \<Longrightarrow> i < length xs \<and> xs ! i = r"
  by (induction xs arbitrary: i) (auto split: if_splits)

lemma index_of_None: "index_of r xs = None \<longleftrightarrow> r \<notin> set xs"
  by (induction xs) auto

lemma exp_remove_correct:
  assumes rep: "tm_rep tm ps ds" and r: "r \<in> set ps \<or> \<not> rq_completed (tm_reqs tm r)"
  shows "\<exists>tm'. ucp_tag_exp_remove tm r = Some (r \<in> set ps, tm') \<and> tm_rep tm' (remove1 r ps) ds \<and>
    tm_reqs tm' = tm_reqs tm \<and> rdesc_tag tm' = rdesc_tag tm \<and> off_iface tm' = off_iface tm \<and> off_thresh tm' = off_thresh tm"
proof -
  let ?q = "ucp_tag_exp_get_req_queue (tm_reqs tm r)"
  have iq: "in_queue tm ?q r" by (simp add: in_queue_def)
  have q: "q_queue (get_queue tm ?q) = filter (in_queue tm ?q) ps"
    using tm_repD(6) [OF rep valid_req_queue [of "tm_reqs tm r"]] by (simp add: q_ok_def)
  show ?thesis
  proof (cases "index_of r (q_queue (get_queue tm ?q))")
    case None
    then have "r \<notin> set ps" using q iq by (simp add: index_of_None)
    then show ?thesis using None r rep by (simp add: ucp_tag_exp_remove_def remove1_idem)
  next
    case (Some i)
    note i = index_of_Some [OF Some]
    show ?thesis
      using exp_delete_rep [OF rep iq, of i] i Some by (simp add: ucp_tag_exp_remove_def)
  qed
qed

section \<open>Unexpected messages\<close>

definition desc_matches :: "'r ucp_tag_match \<Rightarrow> ucp_tag \<Rightarrow> ucp_tag \<Rightarrow> nat \<Rightarrow> bool" where
  "desc_matches tm tag tmask d = ucp_tag_is_match (rdesc_tag tm d) tag tmask"

lemma unexp_search_list_find: "unexp_search_list tm tag tmask xs = find (desc_matches tm tag tmask) xs"
  by (induction xs) (auto simp: desc_matches_def ucp_rdesc_get_tag_def)

lemma tm_rep_unexp:
  assumes "tm_rep tm ps ds" "distinct ds'" "length hs = 1024"
    "\<forall>b < 1024. hs ! b = filter (\<lambda>d. ucp_tag_match_calc_hash (rdesc_tag tm d) = b) ds'"
  shows "tm_rep (tm\<lparr>unexp_hash := hs, unexp_all := ds'\<rparr>) ps ds'"
proof -
  let ?tm = "tm\<lparr>unexp_hash := hs, unexp_all := ds'\<rparr>"
  have f: "in_queue ?tm = in_queue tm" "in_sw ?tm = in_sw tm" "sn_of ?tm = sn_of tm"
    by (simp_all add: fun_eq_iff in_queue_def in_sw_def sn_of_def)
  have g: "get_queue ?tm q = get_queue tm q" for q by (cases q) simp_all
  show ?thesis using assms unfolding tm_rep_def q_ok_def f g by simp
qed

lemma unexp_remove_rep:
  assumes "tm_rep tm ps ds"
  shows "tm_rep (ucp_tag_unexp_remove tm d) ps (remove1 d ds)"
proof -
  note r = tm_repD [OF assms]
  have "removeAll d ds = remove1 d ds" using distinct_remove1_removeAll [OF r(8)] by simp
  moreover have "\<forall>b < 1024. map (removeAll d) (unexp_hash tm) ! b =
      filter (\<lambda>e. ucp_tag_match_calc_hash (rdesc_tag tm e) = b) (removeAll d ds)"
    using r(2,10) by (simp add: removeAll_filter_not_eq conj_commute filter_filter)
  ultimately show ?thesis
    using tm_rep_unexp [OF assms, of "remove1 d ds" "map (removeAll d) (unexp_hash tm)"] r(2,8,9)
    by (simp add: ucp_tag_unexp_remove_def)
qed

lemma unexp_recv_rep:
  assumes "tm_rep tm ps ds" "d \<notin> set ds" "rdesc_tag tm d = tag"
  shows "tm_rep (ucp_tag_unexp_recv tm d tag) ps (ds @ [d])"
proof -
  note r = tm_repD [OF assms(1)]
  let ?b = "ucp_tag_match_calc_hash tag"
  have "\<forall>b < 1024. (unexp_hash tm)[?b := unexp_hash tm ! ?b @ [d]] ! b =
      filter (\<lambda>e. ucp_tag_match_calc_hash (rdesc_tag tm e) = b) (ds @ [d])"
    using r(2,10) assms(3) hash_bound [of tag] by (auto simp: nth_list_update)
  then show ?thesis
    using tm_rep_unexp [OF assms(1), of "ds @ [d]" "(unexp_hash tm)[?b := unexp_hash tm ! ?b @ [d]]"] r(2,8,9) assms(2)
    by (simp add: ucp_tag_unexp_recv_def Let_def)
qed

text \<open>The search finds the message that arrived first among those that match.\<close>

lemma unexp_search_correct:
  assumes rep: "tm_rep tm ps ds"
  shows "\<exists>tm'. ucp_tag_unexp_search tm tag tmask rem = (find (desc_matches tm tag tmask) ds, tm') \<and>
    tm_rep tm' ps (if rem then drop_found (find (desc_matches tm tag tmask) ds) ds else ds) \<and>
    tm_reqs tm' = tm_reqs tm \<and> rdesc_tag tm' = rdesc_tag tm \<and> exp_sn tm' = exp_sn tm \<and>
    off_thresh tm' = off_thresh tm \<and> off_iface tm' = off_iface tm"
proof -
  note r = tm_repD [OF rep]
  define l where "l = (if tmask = UCP_TAG_MASK_FULL then unexp_hash tm ! ucp_tag_match_calc_hash tag else unexp_all tm)"
  have f: "find (desc_matches tm tag tmask) l = find (desc_matches tm tag tmask) ds"
  proof (cases "tmask = UCP_TAG_MASK_FULL")
    case True
    then have "find (desc_matches tm tag tmask) l =
        find (\<lambda>d. ucp_tag_match_calc_hash (rdesc_tag tm d) = ucp_tag_match_calc_hash tag \<and> desc_matches tm tag tmask d) ds"
      using r(10) [OF hash_bound, of tag] by (simp add: l_def find_filter)
    also have "\<dots> = find (desc_matches tm tag tmask) ds"
      by (rule find_restrict) (simp add: desc_matches_def True full_mask_match)
    finally show ?thesis .
  qed (use r(9) in \<open>simp add: l_def\<close>)
  show ?thesis
  proof (cases "ds = []")
    case True
    then show ?thesis using rep r(9) by (simp add: ucp_tag_unexp_search_def drop_found_def)
  next
    case False
    then have e: "ucp_tag_unexp_search tm tag tmask rem = (case find (desc_matches tm tag tmask) ds of None \<Rightarrow> (None, tm)
        | Some d \<Rightarrow> (Some d, if rem then ucp_tag_unexp_remove tm d else tm))"
      using r(9) by (simp add: ucp_tag_unexp_search_def unexp_search_list_find f flip: l_def)
    show ?thesis
      using rep unexp_remove_rep [OF rep]
      by (cases "find (desc_matches tm tag tmask) ds") (auto simp: e drop_found_def ucp_tag_unexp_remove_def)
  qed
qed

section \<open>Receives in the transport\<close>

text \<open>The receives that could be confused: an earlier one kept in software and a later one in the
  transport may only differ in their buckets.\<close>

definition apart :: "'r ucp_tag_match \<Rightarrow> nat \<Rightarrow> nat \<Rightarrow> bool" where
  "apart tm a b \<longleftrightarrow> \<not> is_wild tm a \<and> \<not> is_wild tm b \<and>
     ucp_tag_match_calc_hash (rq_tag (tm_reqs tm a)) \<noteq> ucp_tag_match_calc_hash (rq_tag (tm_reqs tm b))"

definition ord_ok :: "'r ucp_tag_match \<Rightarrow> nat list \<Rightarrow> bool" where
  "ord_ok tm ps \<longleftrightarrow> sorted_wrt (\<lambda>a b. in_sw tm a \<and> \<not> in_sw tm b \<longrightarrow> apart tm a b) ps"

lemma apart_no_common_match: "apart tm a b \<Longrightarrow> \<not> (req_matches tm tag a \<and> req_matches tm tag b)"
  by (auto simp: apart_def req_matches_def is_wild_def full_mask_match)

lemma sorted_wrt_remove1: "sorted_wrt P xs \<Longrightarrow> sorted_wrt P (remove1 x xs)"
  by (induction xs) (auto dest: set_remove1_subset [THEN subsetD])

lemma ord_ok_remove1: "ord_ok tm ps \<Longrightarrow> ord_ok tm (remove1 r ps)"
  by (simp add: ord_ok_def sorted_wrt_remove1)

lemma ord_ok_cong: "tm_reqs tm' = tm_reqs tm \<Longrightarrow> ord_ok tm' ps = ord_ok tm ps"
  by (simp add: ord_ok_def in_sw_def apart_def is_wild_def)

text \<open>What the transport is assumed to do: posting succeeds or fails with one of the documented
  errors, and a registration that succeeds covers the wanted memory domain.\<close>

definition tr_ok :: "transport \<Rightarrow> bool" where
  "tr_ok tr \<longleftrightarrow> (\<forall>r. tr_post tr r \<in> {UCS_OK, UCS_ERR_NO_RESOURCE, UCS_ERR_EXCEEDS_LIMIT, UCS_ERR_ALREADY_EXISTS} \<and>
     (fst (tr_reg tr r) = UCS_OK \<longrightarrow> snd (tr_reg tr r))) \<and>
     (\<forall>i. tr_rndv_max_zcopy tr i \<le> tr_recv_max_zcopy tr i)"

definition mark :: "'r ucp_tag_match \<Rightarrow> nat \<Rightarrow> 'r ucp_tag_match" where
  "mark tm r = tm\<lparr>tm_reqs := (tm_reqs tm)(r := (tm_reqs tm r)\<lparr>rq_offloaded := True\<rparr>)\<rparr>"

lemma mark_facts [simp]:
  "in_queue (mark tm r) = in_queue tm" "is_wild (mark tm r) = is_wild tm" "sn_of (mark tm r) = sn_of tm"
  "apart (mark tm r) = apart tm" "req_matches (mark tm r) = req_matches tm" "in_sw (mark tm r) x \<longleftrightarrow> x \<noteq> r \<and> in_sw tm x"
  "rq_block_offload (tm_reqs (mark tm r) x) = rq_block_offload (tm_reqs tm x)" "get_queue (mark tm r) q = get_queue tm q"
  "exp_hash (mark tm r) = exp_hash tm" "unexp_hash (mark tm r) = unexp_hash tm" "unexp_all (mark tm r) = unexp_all tm"
  "exp_sn (mark tm r) = exp_sn tm" "exp_sw_all_count (mark tm r) = exp_sw_all_count tm" "rdesc_tag (mark tm r) = rdesc_tag tm"
  "off_iface (mark tm r) = off_iface tm" "off_thresh (mark tm r) = off_thresh tm" "exp_wildcard (mark tm r) = exp_wildcard tm"
  by (auto simp: mark_def fun_eq_iff in_queue_def is_wild_def sn_of_def apart_def req_matches_def in_sw_def
    ucp_tag_exp_get_req_queue_def)

lemma do_post_cases:
  assumes "tr_ok tr" "off_iface tm \<noteq> None"
  shows "\<exists>st tm1. ucp_tag_offload_do_post tr tm r = Some (st, tm1) \<and>
    (st = UCS_OK \<and> (\<exists>ifs. tm1 = (mark tm r)\<lparr>off_ifaces := ifs\<rparr>) \<or> st \<noteq> UCS_OK \<and> tm1 = tm)"
proof -
  have t: "tr_post tr r \<in> {UCS_OK, UCS_ERR_NO_RESOURCE, UCS_ERR_EXCEEDS_LIMIT, UCS_ERR_ALREADY_EXISTS}"
    "fst (tr_reg tr r) = UCS_OK \<longrightarrow> snd (tr_reg tr r)" "\<And>i. tr_rndv_max_zcopy tr i \<le> tr_recv_max_zcopy tr i"
    using assms(1) unfolding tr_ok_def by blast+
  obtain wi where wi: "ucp_tag_offload_iface tm (rq_tag (tm_reqs tm r)) = Some wi"
    using assms(2) by (cases "num_active_ifaces tm = 1") (simp_all add: ucp_tag_offload_iface_def)
  obtain rs md where rg: "tr_reg tr r = (rs, md)" by fastforce
  then have md: "rs = UCS_OK \<longrightarrow> md" using t(2) by simp
  let ?direct = "rq_length (tm_reqs tm r) \<ge> off_zcopy_thresh tm \<or> \<not> rq_host_mem (tm_reqs tm r)"
  show ?thesis
  proof (cases wi)
    case None
    then show ?thesis using wi by (simp add: ucp_tag_offload_do_post_def)
  next
    case (Some w)
    consider (reg) "?direct" "rs \<noteq> UCS_OK \<or> \<not> md" | (mem) "\<not> ?direct" "\<not> tr_bounce tr r"
      | (post) "\<not> (?direct \<and> (rs \<noteq> UCS_OK \<or> \<not> md))" "\<not> (\<not> ?direct \<and> \<not> tr_bounce tr r)" by blast
    then show ?thesis
    proof cases
      case reg
      then show ?thesis using wi Some rg md by (auto simp: ucp_tag_offload_do_post_def Let_def t(3))
    next
      case mem
      then show ?thesis using wi Some rg by (auto simp: ucp_tag_offload_do_post_def Let_def t(3))
    next
      case post
      show ?thesis
      proof (cases "tr_post tr r = UCS_OK")
        case True
        have "ucp_tag_offload_do_post tr tm r = Some (UCS_OK, (mark tm r)\<lparr>off_ifaces := (off_ifaces tm)(w := (off_ifaces tm w)\<lparr>wi_post_count := w32 (wi_post_count (off_ifaces tm w) + 1)\<rparr>)\<rparr>)"
          unfolding ucp_tag_offload_do_post_def Let_def wi Some rg Option.bind.bind_lunit option.case prod.case
          using post True by (auto simp: mark_def t(3))
        then show ?thesis by blast
      next
        case False
        have "ucp_tag_offload_do_post tr tm r = Some (tr_post tr r, tm)"
          unfolding ucp_tag_offload_do_post_def Let_def wi Some rg Option.bind.bind_lunit option.case prod.case
          using post False t(1) by (auto simp: t(3))
        then show ?thesis using False by blast
      qed
    qed
  qed
qed

text \<open>What posting leaves unchanged.\<close>

definition off_frame :: "'r ucp_tag_match \<Rightarrow> 'r ucp_tag_match \<Rightarrow> bool" where
  "off_frame tm tm' \<longleftrightarrow> (\<forall>x. \<exists>b. tm_reqs tm' x = (tm_reqs tm x)\<lparr>rq_offloaded := b\<rparr>) \<and> rdesc_tag tm' = rdesc_tag tm \<and>
     exp_sn tm' = exp_sn tm \<and> off_iface tm' = off_iface tm \<and> off_thresh tm' = off_thresh tm"

lemma off_frame_refl [simp]: "off_frame tm tm"
proof -
  have "\<exists>b. tm_reqs tm x = (tm_reqs tm x)\<lparr>rq_offloaded := b\<rparr>" for x
    by (rule exI [of _ "rq_offloaded (tm_reqs tm x)"]) simp
  then show ?thesis by (simp add: off_frame_def)
qed

lemma off_frame_trans:
  assumes "off_frame a b" "off_frame b c"
  shows "off_frame a c"
proof -
  have "\<exists>v. tm_reqs c x = (tm_reqs a x)\<lparr>rq_offloaded := v\<rparr>" for x
  proof -
    obtain u v where "tm_reqs b x = (tm_reqs a x)\<lparr>rq_offloaded := u\<rparr>" "tm_reqs c x = (tm_reqs b x)\<lparr>rq_offloaded := v\<rparr>"
      using assms unfolding off_frame_def by blast
    then have "tm_reqs c x = (tm_reqs a x)\<lparr>rq_offloaded := v\<rparr>" by simp
    then show ?thesis ..
  qed
  then show ?thesis using assms unfolding off_frame_def by simp
qed

lemma off_frame_facts:
  assumes "off_frame tm tm'"
  shows "in_queue tm' = in_queue tm" "is_wild tm' = is_wild tm" "apart tm' = apart tm" "req_matches tm' = req_matches tm"
    "rq_block_offload (tm_reqs tm' x) = rq_block_offload (tm_reqs tm x)" "sn_of tm' = sn_of tm" "rdesc_tag tm' = rdesc_tag tm"
    "exp_sn tm' = exp_sn tm" "off_iface tm' = off_iface tm" "off_thresh tm' = off_thresh tm"
proof -
  have e: "rq_tag (tm_reqs tm' x) = rq_tag (tm_reqs tm x) \<and> rq_tag_mask (tm_reqs tm' x) = rq_tag_mask (tm_reqs tm x) \<and>
    rq_sn (tm_reqs tm' x) = rq_sn (tm_reqs tm x) \<and> rq_block_offload (tm_reqs tm' x) = rq_block_offload (tm_reqs tm x)" for x
  proof -
    obtain b where "tm_reqs tm' x = (tm_reqs tm x)\<lparr>rq_offloaded := b\<rparr>" using assms unfolding off_frame_def by blast
    then show ?thesis by simp
  qed
  then show "in_queue tm' = in_queue tm" "is_wild tm' = is_wild tm" "apart tm' = apart tm" "req_matches tm' = req_matches tm"
    "rq_block_offload (tm_reqs tm' x) = rq_block_offload (tm_reqs tm x)" "sn_of tm' = sn_of tm"
    by (simp_all add: fun_eq_iff in_queue_def is_wild_def apart_def req_matches_def sn_of_def ucp_tag_exp_get_req_queue_def)
  show "rdesc_tag tm' = rdesc_tag tm" "exp_sn tm' = exp_sn tm" "off_iface tm' = off_iface tm" "off_thresh tm' = off_thresh tm"
    using assms by (simp_all add: off_frame_def)
qed

lemma off_frame_mark: "off_frame tm ((mark tm r)\<lparr>off_ifaces := ifs\<rparr>)"
proof -
  have "\<exists>b. tm_reqs ((mark tm r)\<lparr>off_ifaces := ifs\<rparr>) x = (tm_reqs tm x)\<lparr>rq_offloaded := b\<rparr>" for x
    by (cases "x = r") (auto simp: mark_def intro: exI [of _ True] exI [of _ "rq_offloaded (tm_reqs tm x)"])
  then show ?thesis by (auto simp: off_frame_def)
qed

lemma ifaces_facts [simp]:
  "in_queue (tm\<lparr>off_ifaces := ifs\<rparr>) = in_queue tm" "in_sw (tm\<lparr>off_ifaces := ifs\<rparr>) = in_sw tm"
  "is_wild (tm\<lparr>off_ifaces := ifs\<rparr>) = is_wild tm" "apart (tm\<lparr>off_ifaces := ifs\<rparr>) = apart tm"
  "sn_of (tm\<lparr>off_ifaces := ifs\<rparr>) = sn_of tm"
  by (simp_all add: fun_eq_iff in_queue_def in_sw_def is_wild_def apart_def sn_of_def)

lemma count_cong: "(\<And>x. x \<in> set xs \<Longrightarrow> P x = Q x) \<Longrightarrow> count P xs = count Q xs"
  by (simp add: count_def cong: filter_cong)

lemma count_except:
  assumes "distinct ps" "x \<in> set ps"
  shows "count (\<lambda>r. P r \<and> r \<noteq> x) ps = (if P x then count P ps - 1 else count P ps)"
proof -
  have "filter (\<lambda>r. P r \<and> r \<noteq> x) ps = filter P (remove1 x ps)"
    using distinct_remove1_removeAll [OF assms(1)] by (auto simp: removeAll_filter_not_eq intro: filter_cong)
  then show ?thesis using count_remove1(1) [OF assms, of P] by (simp add: count_def)
qed

lemma rep_mark_fresh:
  assumes "tm_rep tm ps ds" "r \<notin> set ps"
  shows "tm_rep ((mark tm r)\<lparr>off_ifaces := ifs\<rparr>) ps ds"
proof -
  have c: "count (\<lambda>x. P x \<and> x \<noteq> r \<and> in_sw tm x \<and> Q x) ps = count (\<lambda>x. P x \<and> in_sw tm x \<and> Q x) ps"
    "count (\<lambda>x. P x \<and> x \<noteq> r \<and> in_sw tm x) ps = count (\<lambda>x. P x \<and> in_sw tm x) ps" 
    "count (\<lambda>x. x \<noteq> r \<and> in_sw tm x) ps = count (in_sw tm) ps" for P Q
    using assms(2) by (auto intro!: count_cong)
  have s: "in_sw (mark tm r) = (\<lambda>x. x \<noteq> r \<and> in_sw tm x)" by (simp add: fun_eq_iff)
  show ?thesis using assms(1) unfolding tm_rep_def q_ok_def by (simp add: s c)
qed

lemma rep_mark_in:
  fixes tm :: "'r ucp_tag_match" and ifs
  assumes rep: "tm_rep tm ps ds" and x: "x \<in> set ps" "in_sw tm x" "\<not> rq_block_offload (tm_reqs tm x)" "in_queue tm q x"
  defines "M \<equiv> (mark tm x)\<lparr>off_ifaces := ifs\<rparr>"
  defines "rq \<equiv> get_queue M q"
  shows "tm_rep ((set_queue M q (rq\<lparr>q_sw_count := dec32 (q_sw_count rq)\<rparr>))\<lparr>exp_sw_all_count := dec32 (exp_sw_all_count M)\<rparr>) ps ds"
    (is "tm_rep ?T ps ds")
proof -
  define T where "T = ?T"
  note d = tm_repD [OF rep]
  have dps: "distinct ps" using sorted_sn_distinct [OF d(4)] .
  have vq: "valid_queue q" using x(4) valid_req_queue by (auto simp: in_queue_def)
  have s: "in_sw T = (\<lambda>r. in_sw tm r \<and> r \<noteq> x)" by (auto simp: fun_eq_iff in_sw_def T_def M_def mark_def)
  have f: "in_queue T = in_queue tm" "sn_of T = sn_of tm"
    by (simp_all add: fun_eq_iff in_queue_def sn_of_def T_def M_def mark_def ucp_tag_exp_get_req_queue_def)
  have b: "rq_block_offload (tm_reqs T r) = rq_block_offload (tm_reqs tm r)" for r by (simp add: T_def M_def mark_def)
  have all: "exp_sw_all_count T = count (in_sw T) ps"
    using d(7) count_except [OF dps x(1), of "in_sw tm"] count_remove1(2) [OF dps x(1), of "in_sw tm"] x(2)
    unfolding s by (simp add: T_def M_def dec32_def)
  have gq: "get_queue T q' = (if q' = q then rq\<lparr>q_sw_count := dec32 (q_sw_count rq)\<rparr> else get_queue tm q')" for q'
    using vq d(1) by (simp add: T_def M_def)
  have rq: "rq = get_queue tm q" by (simp add: rq_def M_def)
  have "q_ok T q' ps" if v: "valid_queue q'" for q'
  proof (cases "q' = q")
    case True
    have "count (\<lambda>r. in_queue tm q r \<and> in_sw tm r \<and> r \<noteq> x) ps = count (\<lambda>r. in_queue tm q r \<and> in_sw tm r) ps - 1"
      using count_except [OF dps x(1), of "\<lambda>r. in_queue tm q r \<and> in_sw tm r"] x(2,4) by (simp add: conj_assoc)
    moreover have "0 < count (\<lambda>r. in_queue tm q r \<and> in_sw tm r) ps"
      using count_remove1(2) [OF dps x(1), of "\<lambda>r. in_queue tm q r \<and> in_sw tm r"] x(2,4) by simp
    moreover have "count (\<lambda>r. in_queue tm q r \<and> (in_sw tm r \<and> r \<noteq> x) \<and> rq_block_offload (tm_reqs tm r)) ps =
        count (\<lambda>r. in_queue tm q r \<and> in_sw tm r \<and> rq_block_offload (tm_reqs tm r)) ps"
      using x(3) by (auto intro!: count_cong)
    ultimately show ?thesis using d(6) [OF vq] True unfolding q_ok_def f s b gq rq by (simp add: dec32_def)
  next
    case False
    then have nq: "\<not> in_queue tm q' x" using x(4) by (simp add: in_queue_def)
    have "count (\<lambda>r. in_queue tm q' r \<and> in_sw tm r \<and> r \<noteq> x) ps = count (\<lambda>r. in_queue tm q' r \<and> in_sw tm r) ps"
      "count (\<lambda>r. in_queue tm q' r \<and> (in_sw tm r \<and> r \<noteq> x) \<and> rq_block_offload (tm_reqs tm r)) ps =
        count (\<lambda>r. in_queue tm q' r \<and> in_sw tm r \<and> rq_block_offload (tm_reqs tm r)) ps"
      using nq by (auto intro!: count_cong)
    then show ?thesis using d(6) [OF v] False unfolding q_ok_def f s b gq by simp
  qed
  moreover have "length (exp_hash T) = 1024" "unexp_hash T = unexp_hash tm" "exp_sn T = exp_sn tm" "unexp_all T = unexp_all tm"
    "rdesc_tag T = rdesc_tag tm" using d(1) by (simp_all add: T_def M_def)
  ultimately have "tm_rep T ps ds"
    using d(1-5,8-10) all unfolding tm_rep_def f by simp
  then show ?thesis unfolding T_def .
qed

lemma ord_mark:
  assumes "ord_ok tm (A @ x # B)" "distinct (A @ x # B)" "\<forall>a \<in> set A. in_sw tm a \<longrightarrow> apart tm a x"
    "in_sw tm' = (\<lambda>r. in_sw tm r \<and> r \<noteq> x)" "apart tm' = apart tm"
  shows "ord_ok tm' (A @ x # B)"
proof -
  have m: "sorted_wrt (\<lambda>a b. in_sw tm' a \<and> \<not> in_sw tm' b \<longrightarrow> apart tm' a b) ys"
    if "sorted_wrt (\<lambda>a b. in_sw tm a \<and> \<not> in_sw tm b \<longrightarrow> apart tm a b) ys" "x \<notin> set ys" for ys
    using that(1) by (rule sorted_wrt_mono_rel [rotated]) (use that(2) assms(4,5) in auto)
  show ?thesis
    using assms m [of A] m [of B] unfolding ord_ok_def sorted_wrt_append by auto
qed

end
