(* ===== verification/Tag_Post.thy ===== *)
theory Tag_Post
  imports Tag_Offload
begin

text \<open>
  Posting a receive: the pending requests of the queue, the request itself, and its entry into the
  software queues.
\<close>

lemma post_sw_loop_correct:
  assumes "tr_ok tr" "off_iface tm \<noteq> None" "tm_rep tm ps ds" "ord_ok tm ps" "r \<notin> set ps" "q = Bucket b" "valid_queue q"
    "\<forall>x \<in> set ps. is_wild tm x \<longrightarrow> \<not> in_sw tm x"
    "\<forall>x \<in> set ps. in_queue tm q x \<and> in_sw tm x \<longrightarrow> \<not> rq_block_offload (tm_reqs tm x)"
    "filter (in_queue tm q) ps = pre @ rs" "\<forall>x \<in> set pre. \<not> in_sw tm x"
  shows "\<exists>posted tm'. post_sw_loop tr tm r q rs = Some (posted, tm') \<and> tm_rep tm' ps ds \<and> ord_ok tm' ps \<and> off_frame tm tm' \<and>
    (posted \<longrightarrow> (\<forall>x \<in> set ps. in_queue tm q x \<longrightarrow> \<not> in_sw tm' x)) \<and> (\<forall>x. \<not> in_sw tm x \<longrightarrow> \<not> in_sw tm' x) \<and>
    tm_reqs tm' r = tm_reqs tm r"
  using assms
proof (induction rs arbitrary: tm pre)
  case Nil
  then have "\<forall>x \<in> set ps. in_queue tm q x \<longrightarrow> \<not> in_sw tm x" by (metis append_Nil2 filter_set mem_Collect_eq set_filter)
  then show ?case using Nil.prems by (intro exI [of _ True] exI [of _ tm]) simp
next
  case (Cons x rs)
  note d = tm_repD [OF Cons.prems(3)]
  have dps: "distinct ps" using sorted_sn_distinct [OF d(4)] .
  have x: "x \<in> set ps" "in_queue tm q x"
    using Cons.prems(10) by (metis filter_set in_set_conv_decomp mem_Collect_eq set_filter)+
  show ?case
  proof (cases "in_sw tm x")
    case False
    then have "post_sw_loop tr tm r q (x # rs) = post_sw_loop tr tm r q rs" by (simp add: in_sw_def)
    then show ?thesis using Cons.IH [OF Cons.prems(1-9), of "pre @ [x]"] Cons.prems(10,11) False by simp
  next
    case True
    have xr: "x \<noteq> r" using x Cons.prems(5) by auto
    have nb: "\<not> rq_block_offload (tm_reqs tm x)" using Cons.prems(9) x True by blast
    from do_post_cases [OF Cons.prems(1,2)] obtain st tm1 where p: "ucp_tag_offload_do_post tr tm x = Some (st, tm1)"
      "st = UCS_OK \<and> (\<exists>ifs. tm1 = (mark tm x)\<lparr>off_ifaces := ifs\<rparr>) \<or> st \<noteq> UCS_OK \<and> tm1 = tm" by blast
    show ?thesis
    proof (cases "st = UCS_OK")
      case fail: False
      then have "post_sw_loop tr tm r q (x # rs) = Some (False, tm)" using True xr p by (simp add: in_sw_def)
      then show ?thesis
        using Cons.prems(3,4) by (intro exI [of _ False] exI [of _ tm]) (simp del: post_sw_loop.simps)
    next
      case ok: True
      then obtain ifs where M: "tm1 = (mark tm x)\<lparr>off_ifaces := ifs\<rparr>" using p(2) by blast
      define T where "T = (set_queue tm1 q ((get_queue tm1 q)\<lparr>q_sw_count := dec32 (q_sw_count (get_queue tm1 q))\<rparr>))
        \<lparr>exp_sw_all_count := dec32 (exp_sw_all_count tm1)\<rparr>"
      have step: "post_sw_loop tr tm r q (x # rs) = post_sw_loop tr T r q rs"
        using True xr p ok by (simp add: in_sw_def T_def Let_def)
      have rep: "tm_rep T ps ds" unfolding T_def M by (rule rep_mark_in [OF Cons.prems(3) x(1) True nb x(2)])
      have eqT: "tm_reqs T = tm_reqs tm1" "rdesc_tag T = rdesc_tag tm1" "exp_sn T = exp_sn tm1" "off_iface T = off_iface tm1" "off_thresh T = off_thresh tm1"
        by (simp_all add: T_def)
      have fr: "off_frame tm T"
        using off_frame_mark [where tm = tm and r = x and ifs = ifs] unfolding off_frame_def eqT M [symmetric] by blast
      note ff = off_frame_facts [OF fr]
      have sw: "in_sw T = (\<lambda>r. in_sw tm r \<and> r \<noteq> x)"
        using eqT(1) M by (auto simp: fun_eq_iff in_sw_def mark_def)
      have ord: "ord_ok T ps"
      proof -
        obtain A B where ps: "ps = A @ x # B" using x(1) by (meson split_list)
        have nA: "x \<notin> set A" using dps ps by simp
        have np: "x \<notin> set pre"
        proof -
          have "distinct (pre @ x # rs)" using dps Cons.prems(10) by (metis distinct_filter)
          then show ?thesis by simp
        qed
        have "filter (in_queue tm q) A @ x # filter (in_queue tm q) B = pre @ x # rs"
          using Cons.prems(10) ps x(2) by simp
        moreover have "x \<notin> set (filter (in_queue tm q) A)" "x \<notin> set (filter (in_queue tm q) B)" using dps ps by auto
        ultimately have A: "filter (in_queue tm q) A = pre" using append_Cons_eq_iff by metis
        have "apart tm a x" if a: "a \<in> set A" "in_sw tm a" for a
        proof -
          have "a \<in> set ps" using a(1) ps by simp
          then have nw: "\<not> is_wild tm a" using Cons.prems(8) a(2) by blast
          have "\<not> in_queue tm q a" using A a Cons.prems(11) by (metis filter_set mem_Collect_eq set_filter)
          then show ?thesis using nw x(2) Cons.prems(6) by (auto simp: apart_def in_queue_bucket)
        qed
        then show ?thesis using ord_mark [of tm A x B T] Cons.prems(4) dps ps sw ff(3) by simp
      qed
      have pre': "off_iface T \<noteq> None" "\<forall>y \<in> set ps. is_wild T y \<longrightarrow> \<not> in_sw T y"
        "\<forall>y \<in> set ps. in_queue T q y \<and> in_sw T y \<longrightarrow> \<not> rq_block_offload (tm_reqs T y)"
        "filter (in_queue T q) ps = (pre @ [x]) @ rs" "\<forall>y \<in> set (pre @ [x]). \<not> in_sw T y"
        using Cons.prems(2,8-11) ff sw by auto
      from Cons.IH [OF Cons.prems(1) pre'(1) rep ord Cons.prems(5-7) pre'(2-5)] obtain posted tm' where
        ih: "post_sw_loop tr T r q rs = Some (posted, tm')" "tm_rep tm' ps ds" "ord_ok tm' ps" "off_frame T tm'"
          "posted \<longrightarrow> (\<forall>x \<in> set ps. in_queue T q x \<longrightarrow> \<not> in_sw tm' x)" "\<forall>x. \<not> in_sw T x \<longrightarrow> \<not> in_sw tm' x"
          "tm_reqs tm' r = tm_reqs T r" by blast
      have "tm_reqs T r = tm_reqs tm r" using eqT(1) M xr by (simp add: mark_def)
      then show ?thesis
        unfolding step using ih off_frame_trans [OF fr ih(4)] ff(1) sw by auto
    qed
  qed
qed

lemma count_0_iff: "count P xs = 0 \<longleftrightarrow> (\<forall>x \<in> set xs. \<not> P x)"
  by (simp add: count_def filter_empty_conv)

text \<open>Posting a new request: it ends up in the transport or not, and if it does, no earlier request
  that stays in software can match the same messages.\<close>

lemma do_post_fresh:
  assumes "tr_ok tr" "off_iface tm \<noteq> None" "tm_rep tm ps ds" "ord_ok tm ps" "r \<notin> set ps" "in_sw tm r"
  shows "\<exists>st tm'. ucp_tag_offload_do_post tr tm r = Some (st, tm') \<and> tm_rep tm' ps ds \<and> ord_ok tm' ps \<and> off_frame tm tm' \<and>
    (in_sw tm' r \<longleftrightarrow> st \<noteq> UCS_OK) \<and> (\<forall>x. x \<noteq> r \<longrightarrow> in_sw tm' x = in_sw tm x)"
proof -
  from do_post_cases [OF assms(1,2)] obtain st tm1 where p: "ucp_tag_offload_do_post tr tm r = Some (st, tm1)"
    "st = UCS_OK \<and> (\<exists>ifs. tm1 = (mark tm r)\<lparr>off_ifaces := ifs\<rparr>) \<or> st \<noteq> UCS_OK \<and> tm1 = tm" by blast
  show ?thesis
  proof (cases "st = UCS_OK")
    case True
    then obtain ifs where M: "tm1 = (mark tm r)\<lparr>off_ifaces := ifs\<rparr>" using p(2) by blast
    have "ord_ok tm1 ps"
      using assms(4) unfolding ord_ok_def M
      by (rule sorted_wrt_mono_rel [rotated]) (use assms(5) in auto)
    then show ?thesis
      using p(1) rep_mark_fresh [OF assms(3,5)] off_frame_mark [where tm = tm and r = r and ifs = ifs] True M by auto
  next
    case False
    then show ?thesis using p assms by auto
  qed
qed

lemma offload_post_correct:
  assumes "tr_ok tr" "off_iface tm \<noteq> None" "tm_rep tm ps ds" "ord_ok tm ps" "r \<notin> set ps" "in_sw tm r" "in_queue tm q r"
  shows "\<exists>posted tm'. ucp_tag_offload_post tr tm r q = Some (posted, tm') \<and> tm_rep tm' ps ds \<and> ord_ok tm' ps \<and> off_frame tm tm' \<and>
    (in_sw tm' r \<longleftrightarrow> \<not> posted) \<and> (posted \<longrightarrow> (\<forall>a \<in> set ps. in_sw tm' a \<longrightarrow> apart tm' a r))"
proof -
  note d = tm_repD [OF assms(3)]
  define pre where "pre = (if rq_tag_mask (tm_reqs tm r) \<noteq> UCP_TAG_MASK_FULL then
      Some (\<not> ucp_tag_is_specific_source (tag_sender_mask tm) (rq_tag_mask (tm_reqs tm r)) \<or> exp_sw_all_count tm \<noteq> 0, tm)
    else if q_sw_count (exp_wildcard tm) \<noteq> 0 then Some (True, tm)
    else if q_sw_count (get_queue tm q) \<noteq> 0 then do {
      (posted, tm1) \<leftarrow> ucp_tag_offload_post_sw_reqs tr tm r q;
      Some (\<not> posted, tm1)
    } else Some (False, tm))"
  have "\<exists>blocked tm1. pre = Some (blocked, tm1) \<and> tm_rep tm1 ps ds \<and> ord_ok tm1 ps \<and> off_frame tm tm1 \<and> in_sw tm1 r \<and>
    (\<not> blocked \<longrightarrow> (\<forall>a \<in> set ps. in_sw tm1 a \<longrightarrow> apart tm1 a r))"
  proof (cases "is_wild tm r")
    case True
    then have "pre = Some (\<not> ucp_tag_is_specific_source (tag_sender_mask tm) (rq_tag_mask (tm_reqs tm r)) \<or> exp_sw_all_count tm \<noteq> 0, tm)"
      by (simp add: pre_def is_wild_def)
    then show ?thesis using assms d(7) by (auto simp: count_0_iff)
  next
    case False
    then have mf: "rq_tag_mask (tm_reqs tm r) = UCP_TAG_MASK_FULL" by (simp add: is_wild_def)
    obtain b where q: "q = Bucket b" "b < 1024"
      using assms(7) False hash_bound by (cases q) (auto simp: in_queue_wild in_queue_bucket)
    then have vq: "valid_queue q" by simp
    note qk = d(6) [OF vq, unfolded q_ok_def]
    have wk: "q_sw_count (exp_wildcard tm) = count (\<lambda>x. is_wild tm x \<and> in_sw tm x) ps"
      using d(6) [of Wildcard] by (simp add: q_ok_def in_queue_wild)
    have apart_all: "\<forall>a \<in> set ps. in_sw tm1 a \<longrightarrow> apart tm1 a r"
      if "off_frame tm tm1" "\<forall>x \<in> set ps. is_wild tm x \<longrightarrow> \<not> in_sw tm1 x" "\<forall>x \<in> set ps. in_queue tm q x \<longrightarrow> \<not> in_sw tm1 x" for tm1
      using that(2,3) off_frame_facts [OF that(1)] False assms(7) q(1)
      by (auto simp: apart_def in_queue_bucket)
    show ?thesis
    proof (cases "q_sw_count (exp_wildcard tm) = 0")
      case False
      then show ?thesis using mf assms by (intro exI [of _ True] exI [of _ tm]) (simp add: pre_def)
    next
      case w0: True
      then have wild: "\<forall>x \<in> set ps. is_wild tm x \<longrightarrow> \<not> in_sw tm x" using wk by (auto simp: count_0_iff)
      show ?thesis
      proof (cases "q_sw_count (get_queue tm q) = 0")
        case True
        then have "\<forall>x \<in> set ps. in_queue tm q x \<longrightarrow> \<not> in_sw tm x" using qk by (auto simp: count_0_iff)
        then show ?thesis
          using mf w0 True assms apart_all [OF off_frame_refl wild] by (intro exI [of _ False] exI [of _ tm]) (simp add: pre_def)
      next
        case sw: False
        define S where "S = ucp_tag_offload_post_sw_reqs tr tm r q"
        have pS: "pre = do { (posted, tm1) \<leftarrow> S; Some (\<not> posted, tm1) }" using mf w0 sw by (simp add: pre_def S_def)
        obtain wi where wi: "ucp_tag_offload_iface tm (rq_tag (tm_reqs tm r)) = Some wi"
          using assms(2) by (cases "num_active_ifaces tm = 1") (simp_all add: ucp_tag_offload_iface_def)
        have "S = Some (False, tm) \<or> (S = post_sw_loop tr tm r q (q_queue (get_queue tm q)) \<and> q_block_count (get_queue tm q) = 0)"
          unfolding S_def ucp_tag_offload_post_sw_reqs_def wi by (auto simp: Let_def split: option.split)
        then show ?thesis
        proof
          assume "S = Some (False, tm)"
          then show ?thesis using pS assms by (intro exI [of _ True] exI [of _ tm]) simp
        next
          assume S: "S = post_sw_loop tr tm r q (q_queue (get_queue tm q)) \<and> q_block_count (get_queue tm q) = 0"
          then have nb: "\<forall>x \<in> set ps. in_queue tm q x \<and> in_sw tm x \<longrightarrow> \<not> rq_block_offload (tm_reqs tm x)"
            using qk by (auto simp: count_0_iff)
          have "filter (in_queue tm q) ps = [] @ q_queue (get_queue tm q)" using qk by simp
          from post_sw_loop_correct [OF assms(1-5) q(1) vq wild nb this] obtain posted tm1 where
            l: "S = Some (posted, tm1)" "tm_rep tm1 ps ds" "ord_ok tm1 ps" "off_frame tm tm1"
              "posted \<longrightarrow> (\<forall>x \<in> set ps. in_queue tm q x \<longrightarrow> \<not> in_sw tm1 x)" "\<forall>x. \<not> in_sw tm x \<longrightarrow> \<not> in_sw tm1 x"
              "tm_reqs tm1 r = tm_reqs tm r" using S by auto
          have "in_sw tm1 r" using l(7) assms(6) by (simp add: in_sw_def)
          moreover have "posted \<longrightarrow> (\<forall>a \<in> set ps. in_sw tm1 a \<longrightarrow> apart tm1 a r)"
            using apart_all [OF l(4)] l(5,6) wild by blast
          ultimately show ?thesis using pS l by auto
        qed
      qed
    qed
  qed
  then obtain blocked tm1 where b: "pre = Some (blocked, tm1)" "tm_rep tm1 ps ds" "ord_ok tm1 ps" "off_frame tm tm1" "in_sw tm1 r"
    "\<not> blocked \<longrightarrow> (\<forall>a \<in> set ps. in_sw tm1 a \<longrightarrow> apart tm1 a r)" by blast
  show ?thesis
  proof (cases "\<not> rq_contig (tm_reqs tm r)")
    case True
    then show ?thesis using assms by (intro exI [of _ False] exI [of _ tm]) (simp add: ucp_tag_offload_post_def)
  next
    case False
    then have e: "ucp_tag_offload_post tr tm r q = (if blocked then Some (False, tm1)
        else do { (status, tm2) \<leftarrow> ucp_tag_offload_do_post tr tm1 r; Some (status = UCS_OK, tm2) })"
      unfolding ucp_tag_offload_post_def Let_def pre_def [symmetric] b(1) by simp
    show ?thesis
    proof (cases blocked)
      case True
      then show ?thesis using e b by (intro exI [of _ False] exI [of _ tm1]) simp
    next
      case nb: False
      have oi: "off_iface tm1 \<noteq> None" using off_frame_facts(9) [OF b(4)] assms(2) by simp
      from do_post_fresh [OF assms(1) oi b(2,3) assms(5) b(5)] obtain st tm2 where
        p: "ucp_tag_offload_do_post tr tm1 r = Some (st, tm2)" "tm_rep tm2 ps ds" "ord_ok tm2 ps" "off_frame tm1 tm2"
          "in_sw tm2 r \<longleftrightarrow> st \<noteq> UCS_OK" "\<forall>x. x \<noteq> r \<longrightarrow> in_sw tm2 x = in_sw tm1 x" by blast
      have "\<forall>a \<in> set ps. in_sw tm2 a \<longrightarrow> apart tm2 a r"
        using b(6) nb p(6) assms(5) off_frame_facts(3) [OF p(4)] by (metis (no_types, lifting))
      then show ?thesis using e nb p off_frame_trans [OF b(4) p(4)] by auto
    qed
  qed
qed

end
