(* ===== verification/Tag_Match_Props.thy ===== *)
theory Tag_Match_Props
  imports Tag_Post
begin

text \<open>
  The properties of tag matching: the states a worker can reach by posting receives, receiving
  messages, cancelling, and matching in the transport, and what holds in all of them.
\<close>

section \<open>Posting a receive\<close>







definition post_recv :: "transport \<Rightarrow> 'r ucp_tag_match \<Rightarrow> nat \<Rightarrow> 'r ucp_tag_match option" where
  "post_recv tr tm r = do {
     let q = ucp_tag_exp_get_req_queue (tm_reqs tm r);
     tm1 \<leftarrow> ucp_tag_offload_try_post tr tm r q;
     Some (ucp_tag_exp_push tm1 q r)
   }"



section \<open>A worker\<close>

















section \<open>A worker with two receives\<close>

text \<open>Receive 0 is short and stays in software, receive 1 is long enough for the transport; tags 1 and 2.\<close>

definition sample_tr :: transport where
  "sample_tr = \<lparr>tr_recv_max_zcopy = (\<lambda>_. 100), tr_rndv_max_zcopy = (\<lambda>_. 100), tr_reg = (\<lambda>_. (UCS_OK, True)), tr_bounce = (\<lambda>_. True),
     tr_post = (\<lambda>_. UCS_OK)\<rparr>"

definition sample_req :: "nat \<Rightarrow> tag_req" where
  "sample_req r = \<lparr>rq_offloaded = False, rq_block_offload = False, rq_completed = False, rq_contig = True, rq_host_mem = True,
     rq_length = (if r = 0 then 0 else 8), rq_tag = (if r = 0 then 1 else 2), rq_tag_mask = - 1, rq_sn = 0\<rparr>"

definition sample_worker :: "unit ucp_tag_match" where
  "sample_worker = \<lparr>tm_reqs = sample_req, exp_wildcard = \<lparr>q_queue = [], q_sw_count = 0, q_block_count = 0\<rparr>, exp_hash = [], exp_sn = 0,
     exp_sw_all_count = 0, rdesc_tag = (\<lambda>_. 3), unexp_all = [], unexp_hash = [],
     off_ifaces = (\<lambda>_. \<lparr>wi_max_outstanding = 16, wi_min_recv = 0, wi_post_count = 0, wi_proxy_recv_count = 0, wi_activated = False\<rparr>),
     off_iface = None, off_tag_hash = Map.empty, off_thresh = 0, off_zcopy_thresh = 0, num_active_ifaces = 1, tag_sender_mask = 0,
     tm_thresh = 4, tm_max_bb_size = 4, tm_force_thresh = 4\<rparr>"

definition sample_tm :: "unit ucp_tag_match" where
  "sample_tm = snd (ucp_tag_match_init True True sample_worker)"



lemma sample_hash: "ucp_tag_match_calc_hash 1 = 1" "ucp_tag_match_calc_hash 2 = 2" "ucp_tag_match_calc_hash 3 = 3"
  by (simp_all add: ucp_tag_match_calc_hash_def UCP_TAG_MATCH_HASH_SIZE_def)

lemma sample_fields:
  "tm_reqs sample_tm = sample_req" "exp_wildcard sample_tm = \<lparr>q_queue = [], q_sw_count = 0, q_block_count = 0\<rparr>"
  "exp_hash sample_tm = replicate 1024 \<lparr>q_queue = [], q_sw_count = 0, q_block_count = 0\<rparr>" "exp_sn sample_tm = 0"
  "exp_sw_all_count sample_tm = 0" "rdesc_tag sample_tm = (\<lambda>_. 3)" "unexp_all sample_tm = []" "unexp_hash sample_tm = replicate 1024 []"
  "off_iface sample_tm = None" "off_thresh sample_tm = 2 ^ 64 - 1" "off_zcopy_thresh sample_tm = 2 ^ 64 - 1" "num_active_ifaces sample_tm = 1"
  "tm_thresh sample_tm = 4" "tm_max_bb_size sample_tm = 4" "wi_min_recv (off_ifaces sample_tm i) = 0" "wi_activated (off_ifaces sample_tm i) = False"
  by (simp_all add: sample_tm_def sample_worker_def ucp_tag_match_init_def Let_def hash_size)



section \<open>Properties\<close>










text \<open>C35: When the buffer cannot be registered with the transport's memory domain although the
  registration reports success, the receive is neither given to the transport nor counted as pending in
  software; removing it later makes the pending counter wrap around.\<close>

theorem tag_offload_unregistered_uncounted:
  assumes "tr_reg tr r = (UCS_OK, False)" "tr_rndv_max_zcopy tr i \<le> tr_recv_max_zcopy tr i"
    "num_active_ifaces tm = 1" "off_iface tm = Some i" "off_thresh tm \<le> rq_length (tm_reqs tm r)" "\<not> rq_host_mem (tm_reqs tm r)"
    "rq_contig (tm_reqs tm r)" "\<not> rq_offloaded (tm_reqs tm r)" "rq_tag_mask (tm_reqs tm r) = UCP_TAG_MASK_FULL"
    "q_sw_count (exp_wildcard tm) = 0" "q_sw_count (get_queue tm (ucp_tag_exp_get_req_queue (tm_reqs tm r))) = 0"
    "q_queue (get_queue tm (ucp_tag_exp_get_req_queue (tm_reqs tm r))) = []" "exp_sw_all_count tm = 0" "length (exp_hash tm) = 1024"
  shows "\<exists>tm' tm''. post_recv tr tm r = Some tm' \<and> \<not> rq_offloaded (tm_reqs tm' r) \<and> exp_sw_all_count tm' = 0 \<and>
    ucp_tag_exp_remove tm' r = Some (True, tm'') \<and> exp_sw_all_count tm'' = 2 ^ 32 - 1"
proof -
  define q where "q = ucp_tag_exp_get_req_queue (tm_reqs tm r)"
  obtain b where b: "q = Bucket b" "b < 1024"
    using assms(9) valid_req_queue [of "tm_reqs tm r"] by (auto simp: q_def ucp_tag_exp_get_req_queue_def ucp_tag_exp_get_queue_def
      ucp_tag_exp_get_queue_for_tag_def)
  have "ucp_tag_offload_do_post tr tm r = Some (UCS_OK, tm)"
    using assms(1-4,6) by (simp add: ucp_tag_offload_do_post_def ucp_tag_offload_iface_def)
  then have "ucp_tag_offload_post tr tm r q = Some (True, tm)"
    using assms(7,9-11) by (simp add: ucp_tag_offload_post_def q_def)
  then have tp: "ucp_tag_offload_try_post tr tm r q = Some tm" using assms(5) by (simp add: ucp_tag_offload_try_post_def)
  define tm' where "tm' = ucp_tag_exp_push tm q r"
  have t: "q_queue (get_queue tm' q) = [r]" "exp_sw_all_count tm' = 0" "\<not> rq_offloaded (tm_reqs tm' r)"
    "ucp_tag_exp_get_req_queue (tm_reqs tm' r) = q"
    using assms(8,12-14) b by (simp_all add: tm'_def ucp_tag_exp_push_def Let_def q_def [symmetric])
      (simp add: q_def ucp_tag_exp_get_req_queue_def)
  have "ucp_tag_exp_remove tm' r = Some (True, ucp_tag_exp_delete r tm' q 0)"
    using t(1,4) by (simp add: ucp_tag_exp_remove_def)
  moreover have "exp_sw_all_count (ucp_tag_exp_delete r tm' q 0) = 2 ^ 32 - 1"
    using t(2,3) b by (simp add: ucp_tag_exp_delete_def Let_def dec32_def)
  moreover have "post_recv tr tm r = Some tm'" using tp by (simp add: post_recv_def q_def tm'_def)
  ultimately show ?thesis using t by blast
qed

definition lost_tm :: "unit ucp_tag_match" where
  "lost_tm = sample_tm\<lparr>off_iface := Some 0, off_thresh := 4, off_zcopy_thresh := 4,
     tm_reqs := (\<lambda>r. (sample_req r)\<lparr>rq_host_mem := False\<rparr>)\<rparr>"

theorem tag_offload_unregistered_uncounted_witness:
  "\<exists>tm' tm''. post_recv (sample_tr\<lparr>tr_reg := (\<lambda>_. (UCS_OK, False))\<rparr>) lost_tm 1 = Some tm' \<and> \<not> rq_offloaded (tm_reqs tm' 1) \<and>
    exp_sw_all_count tm' = 0 \<and> ucp_tag_exp_remove tm' 1 = Some (True, tm'') \<and> exp_sw_all_count tm'' = 2 ^ 32 - 1"
  by (rule tag_offload_unregistered_uncounted [where i = 0])
    (simp_all add: lost_tm_def sample_fields sample_tr_def sample_req_def UCP_TAG_MASK_FULL_def ucp_tag_exp_get_req_queue_def
      ucp_tag_exp_get_queue_def ucp_tag_exp_get_queue_for_tag_def sample_hash)

end
