(* ===== verification/Mm_Fifo.thy ===== *)
theory Mm_Fifo
  imports Buffers Status Arbiter
begin

text \<open>
  The shared-memory transport, \<^verbatim>\<open>src/src/uct/sm/mm/base/mm_ep.c\<close>, \<^verbatim>\<open>mm_iface.c\<close>,
  \<^verbatim>\<open>mm_iface.h\<close>.  Several endpoints, each in its own process, write into the receive FIFO of
  one interface without a lock.  The state holds the shared memory, the receiver and the endpoints; an
  operation that touches the shared memory more than once is cut at these accesses, and the program
  counter of its process records how far it got, so that any interleaving of the processes is a sequence
  of steps.  The fences in the code order the accesses as they are written; the model takes them in that
  order.  Receive descriptors are numbers, their buffers a map from these numbers to bytes.
\<close>

section \<open>Elements and messages\<close>

definition UCT_MM_FIFO_ELEM_FLAG_OWNER :: u8 where
  "UCT_MM_FIFO_ELEM_FLAG_OWNER = 1"

definition UCT_MM_FIFO_ELEM_FLAG_INLINE :: u8 where
  "UCT_MM_FIFO_ELEM_FLAG_INLINE = 2"

definition UCT_MM_IFACE_FIFO_HEAD_EVENT_ARMED :: u64 where
  "UCT_MM_IFACE_FIFO_HEAD_EVENT_ARMED = push_bit 63 1"

record uct_mm_fifo_element =
  el_flags :: u8
  el_am_id :: u8
  el_length :: u16
  el_desc :: nat
  el_inline :: bytes

text \<open>What a caller sends: a header word and bytes, bytes packed by a callback, or a list of buffers.\<close>

datatype uct_mm_send_op =
    UCT_MM_SEND_AM_BCOPY bytes
  | UCT_MM_SEND_AM_SHORT u64 bytes
  | UCT_MM_SEND_AM_SHORT_IOV "bytes list"

record mm_msg =
  msg_id :: u8
  msg_op :: uct_mm_send_op

definition header_bytes :: "u64 \<Rightarrow> bytes" where
  "header_bytes h = map (\<lambda>i. ucast (drop_bit (8 * i) h)) [0..<8]"

fun send_payload :: "uct_mm_send_op \<Rightarrow> bytes" where
  "send_payload (UCT_MM_SEND_AM_BCOPY bs) = bs"
| "send_payload (UCT_MM_SEND_AM_SHORT h bs) = header_bytes h @ bs"
| "send_payload (UCT_MM_SEND_AM_SHORT_IOV iov) = concat iov"

fun is_bcopy :: "uct_mm_send_op \<Rightarrow> bool" where
  "is_bcopy (UCT_MM_SEND_AM_BCOPY bs) = True"
| "is_bcopy _ = False"

section \<open>State\<close>

text \<open>Where the process of an endpoint is in \<^verbatim>\<open>uct_mm_ep_am_common_send\<close>: about to load the
  head, about to reload the tail, about to compare-and-swap the head, about to fill its element, about to
  set the flags of its element, about to signal the receiver.\<close>

datatype ep_pc =
    Idle
  | Load mm_msg
  | Retail mm_msg u64
  | Cas mm_msg u64
  | Write mm_msg u64
  | Publish mm_msg u64 u8
  | Signal mm_msg u64

record uct_mm_ep =
  ep_cached_tail :: u64
  ep_group_nonempty :: bool
  ep_ret :: int
  ep_at :: ep_pc

text \<open>Where the receiver is: in \<^verbatim>\<open>uct_mm_iface_poll_fifo\<close> after it saw new data and after it
  raised the read index, in \<^verbatim>\<open>uct_mm_iface_event_fd_arm\<close> after it loaded the head and before it
  reads the signal socket, and asleep after arming succeeded.\<close>

datatype rx_pc = Rx_Idle | Rx_Process | Rx_Tail | Rx_Arm u64 | Rx_Recvfrom | Rx_Asleep

record mm_config =
  fifo_shift :: nat
  fifo_release_factor_mask :: u64
  fifo_max_poll :: nat
  fifo_elem_size :: nat

text \<open>The last four fields are not in memory: the messages in the order in which they got their place in
  the FIFO, the places that were taken and then abandoned, the places whose sender had to wake the receiver
  and got an error from the socket, and what the receiver delivered for each index, \<open>None\<close> for
  nothing.\<close>

record mm_state =
  fifo_head :: u64
  fifo_tail :: u64
  fifo_elems :: "uct_mm_fifo_element list"
  desc_mem :: "nat \<Rightarrow> bytes"
  sig_queue :: nat
  read_index :: u64
  last_recv_desc :: "nat option"
  held_descs :: "nat set"
  fifo_poll_count :: nat
  fifo_prev_wnd_cons :: bool
  rx_at :: rx_pc
  mm_eps :: "nat \<Rightarrow> uct_mm_ep"
  sent_log :: "mm_msg list"
  abandoned :: "nat set"
  unsignalled :: "nat set"
  recv_log :: "(u8 \<times> bytes) option list"

definition fifo_size :: "mm_config \<Rightarrow> nat" where
  "fifo_size cfg = 2 ^ fifo_shift cfg"

definition fifo_mask :: "mm_config \<Rightarrow> u64" where
  "fifo_mask cfg = of_nat (fifo_size cfg - 1)"

definition elem_index :: "mm_config \<Rightarrow> u64 \<Rightarrow> nat" where
  "elem_index cfg i = unat (i AND fifo_mask cfg)"

definition upd_elem :: "nat \<Rightarrow> (uct_mm_fifo_element \<Rightarrow> uct_mm_fifo_element) \<Rightarrow> mm_state \<Rightarrow> mm_state" where
  "upd_elem i f s = s\<lparr>fifo_elems := (fifo_elems s)[i := f (fifo_elems s ! i)]\<rparr>"

definition upd_ep :: "nat \<Rightarrow> (uct_mm_ep \<Rightarrow> uct_mm_ep) \<Rightarrow> mm_state \<Rightarrow> mm_state" where
  "upd_ep e f s = s\<lparr>mm_eps := (mm_eps s)(e := f (mm_eps s e))\<rparr>"

definition go :: "nat \<Rightarrow> ep_pc \<Rightarrow> mm_state \<Rightarrow> mm_state" where
  "go e pc = upd_ep e (\<lambda>ep. ep\<lparr>ep_at := pc\<rparr>)"

definition return_with :: "nat \<Rightarrow> int \<Rightarrow> mm_state \<Rightarrow> mm_state" where
  "return_with e r = upd_ep e (\<lambda>ep. ep\<lparr>ep_at := Idle, ep_ret := r\<rparr>)"

section \<open>Initialisation\<close>

text \<open>The elements get their descriptors from the receive pool.\<close>

definition mm_iface_init :: "mm_config \<Rightarrow> nat list \<Rightarrow> nat \<Rightarrow> mm_state \<Rightarrow> mm_state" where
  "mm_iface_init cfg descs first s =
     s\<lparr>fifo_head := 0, fifo_tail := 0, read_index := 0, last_recv_desc := Some first,
       fifo_prev_wnd_cons := False, fifo_poll_count := fifo_max_poll cfg,
       fifo_elems := map2 (\<lambda>el d. el\<lparr>el_flags := UCT_MM_FIFO_ELEM_FLAG_OWNER, el_desc := d\<rparr>) (fifo_elems s) descs\<rparr>"

text \<open>A new endpoint starts with the current tail.\<close>

definition mm_ep_init :: "mm_state \<Rightarrow> nat \<Rightarrow> mm_state" where
  "mm_ep_init s e = upd_ep e (\<lambda>_. \<lparr>ep_cached_tail = fifo_tail s, ep_group_nonempty = False, ep_ret = 0, ep_at = Idle\<rparr>) s"

section \<open>Sending\<close>

definition UCT_MM_EP_IS_ABLE_TO_SEND :: "u64 \<Rightarrow> u64 \<Rightarrow> nat \<Rightarrow> bool" where
  "UCT_MM_EP_IS_ABLE_TO_SEND head tail sz \<longleftrightarrow> sint (ucast (head - tail) :: u32) < sint (of_nat sz :: u32)"

definition uct_mm_ep_has_tx_resources :: "mm_config \<Rightarrow> mm_state \<Rightarrow> nat \<Rightarrow> bool" where
  "uct_mm_ep_has_tx_resources cfg s e =
     UCT_MM_EP_IS_ABLE_TO_SEND (fifo_head s) (ep_cached_tail (mm_eps s e)) (fifo_size cfg)"

definition uct_mm_ep_update_cached_tail :: "mm_state \<Rightarrow> nat \<Rightarrow> mm_state" where
  "uct_mm_ep_update_cached_tail s e = upd_ep e (\<lambda>ep. ep\<lparr>ep_cached_tail := fifo_tail s\<rparr>) s"

definition uct_mm_ep_no_resources_handle :: "mm_state \<Rightarrow> nat \<Rightarrow> mm_state" where
  "uct_mm_ep_no_resources_handle s e = return_with e (ucs_status_code UCS_ERR_NO_RESOURCE) s"

text \<open>The entry points: a short message must fit into the element.\<close>

definition uct_mm_ep_am_short :: "mm_config \<Rightarrow> mm_state \<Rightarrow> nat \<Rightarrow> u8 \<Rightarrow> u64 \<Rightarrow> bytes \<Rightarrow> mm_state" where
  "uct_mm_ep_am_short cfg s e am_id header payload =
     (if length payload + 8 > fifo_elem_size cfg - 28 then return_with e (ucs_status_code UCS_ERR_INVALID_PARAM) s
      else go e (Load \<lparr>msg_id = am_id, msg_op = UCT_MM_SEND_AM_SHORT header payload\<rparr>) s)"

definition uct_mm_ep_am_short_iov :: "mm_config \<Rightarrow> mm_state \<Rightarrow> nat \<Rightarrow> u8 \<Rightarrow> bytes list \<Rightarrow> mm_state" where
  "uct_mm_ep_am_short_iov cfg s e am_id iov =
     (if length (concat iov) > fifo_elem_size cfg - 28 then return_with e (ucs_status_code UCS_ERR_INVALID_PARAM) s
      else go e (Load \<lparr>msg_id = am_id, msg_op = UCT_MM_SEND_AM_SHORT_IOV iov\<rparr>) s)"

definition uct_mm_ep_am_bcopy :: "mm_state \<Rightarrow> nat \<Rightarrow> u8 \<Rightarrow> bytes \<Rightarrow> mm_state" where
  "uct_mm_ep_am_bcopy s e am_id packed = go e (Load \<lparr>msg_id = am_id, msg_op = UCT_MM_SEND_AM_BCOPY packed\<rparr>) s"

text \<open>\<^verbatim>\<open>uct_mm_ep_am_common_send\<close>, from one access of the shared memory to the next.\<close>

definition send_load :: "mm_config \<Rightarrow> mm_state \<Rightarrow> nat \<Rightarrow> mm_msg \<Rightarrow> mm_state" where
  "send_load cfg s e m =
     (let head = fifo_head s; ep = mm_eps s e
      in if UCT_MM_EP_IS_ABLE_TO_SEND head (ep_cached_tail ep) (fifo_size cfg) then go e (Cas m head) s
         else if ep_group_nonempty ep then uct_mm_ep_no_resources_handle s e
         else go e (Retail m head) s)"

definition send_retail :: "mm_config \<Rightarrow> mm_state \<Rightarrow> nat \<Rightarrow> mm_msg \<Rightarrow> u64 \<Rightarrow> mm_state" where
  "send_retail cfg s e m head =
     (let s1 = uct_mm_ep_update_cached_tail s e
      in if UCT_MM_EP_IS_ABLE_TO_SEND head (ep_cached_tail (mm_eps s1 e)) (fifo_size cfg) then go e (Cas m head) s1
         else uct_mm_ep_no_resources_handle (upd_ep e (\<lambda>ep. ep\<lparr>ep_group_nonempty := True\<rparr>) s1) e)"

text \<open>The compare-and-swap gives the endpoint the element at the head, or sends it back to load the head.\<close>

definition uct_mm_ep_get_remote_elem :: "mm_state \<Rightarrow> nat \<Rightarrow> mm_msg \<Rightarrow> u64 \<Rightarrow> mm_state" where
  "uct_mm_ep_get_remote_elem s e m head =
     (let new_head = (head + 1) AND NOT UCT_MM_IFACE_FIFO_HEAD_EVENT_ARMED
      in if fifo_head s = head then go e (Write m head) (s\<lparr>fifo_head := new_head, sent_log := sent_log s @ [m]\<rparr>)
         else go e (Load m) s)"

text \<open>Filling the element.  \<open>seg_status e d\<close> is the status with which endpoint \<open>e\<close> gets
  the address of the segment of descriptor \<open>d\<close>, attaching it if it has to.\<close>

definition send_write :: "mm_config \<Rightarrow> (nat \<Rightarrow> nat \<Rightarrow> ucs_status) \<Rightarrow> mm_state \<Rightarrow> nat \<Rightarrow> mm_msg \<Rightarrow> u64 \<Rightarrow> mm_state" where
  "send_write cfg seg_status s e m head =
     (let i = elem_index cfg head; el = fifo_elems s ! i; data = send_payload (msg_op m);
          fill = (\<lambda>inl s. upd_elem i (\<lambda>el. el\<lparr>el_length := of_nat (length data), el_am_id := msg_id m,
                   el_inline := (if inl then data @ drop (length data) (el_inline el) else el_inline el)\<rparr>) s)
      in case msg_op m of
           UCT_MM_SEND_AM_BCOPY _ \<Rightarrow>
             if seg_status e (el_desc el) = UCS_OK
             then go e (Publish m head 0)
               (fill False (s\<lparr>desc_mem := (desc_mem s)(el_desc el := data @ drop (length data) (desc_mem s (el_desc el)))\<rparr>))
             else return_with e (ucs_status_code (seg_status e (el_desc el)))
               (s\<lparr>abandoned := insert (unat (head AND NOT UCT_MM_IFACE_FIFO_HEAD_EVENT_ARMED)) (abandoned s)\<rparr>)
         | _ \<Rightarrow> go e (Publish m head UCT_MM_FIFO_ELEM_FLAG_INLINE) (fill True s))"

definition send_publish :: "mm_config \<Rightarrow> mm_state \<Rightarrow> nat \<Rightarrow> mm_msg \<Rightarrow> u64 \<Rightarrow> u8 \<Rightarrow> mm_state" where
  "send_publish cfg s e m head fl =
     go e (Signal m head)
       (upd_elem (elem_index cfg head)
         (\<lambda>el. el\<lparr>el_flags := (if head AND of_nat (fifo_size cfg) \<noteq> 0 then fl OR UCT_MM_FIFO_ELEM_FLAG_OWNER else fl)\<rparr>) s)"

text \<open>One \<^verbatim>\<open>sendto\<close> on the signal socket puts a signal into the queue of the receiver, or is
  interrupted, or fails because that queue is full, because the receiver is gone, or for another reason.
  The sender repeats an interrupted call and ignores the other errors.\<close>

datatype sendto_result = Send_Done | Send_Interrupted | Send_Again | Send_Refused | Send_Failed

definition uct_mm_ep_signal_remote :: "sendto_result \<Rightarrow> nat \<Rightarrow> mm_state \<Rightarrow> mm_state option" where
  "uct_mm_ep_signal_remote ret j s =
     (case ret of
        Send_Interrupted \<Rightarrow> None
      | Send_Done \<Rightarrow> Some (s\<lparr>sig_queue := sig_queue s + 1\<rparr>)
      | Send_Again \<Rightarrow> Some s
      | Send_Refused \<Rightarrow> Some (s\<lparr>unsignalled := insert j (unsignalled s)\<rparr>)
      | Send_Failed \<Rightarrow> Some (s\<lparr>unsignalled := insert j (unsignalled s)\<rparr>))"

definition send_signal :: "sendto_result \<Rightarrow> mm_state \<Rightarrow> nat \<Rightarrow> mm_msg \<Rightarrow> u64 \<Rightarrow> mm_state" where
  "send_signal ret s e m head =
     (let result = (if is_bcopy (msg_op m) then int (length (send_payload (msg_op m))) else ucs_status_code UCS_OK)
      in if head AND UCT_MM_IFACE_FIFO_HEAD_EVENT_ARMED \<noteq> 0 then
           case uct_mm_ep_signal_remote ret (unat (head AND NOT UCT_MM_IFACE_FIFO_HEAD_EVENT_ARMED)) s of
             None \<Rightarrow> s
           | Some s1 \<Rightarrow> return_with e result s1
         else return_with e result s)"

text \<open>The next access of the process of an endpoint.\<close>

definition send_step :: "mm_config \<Rightarrow> (nat \<Rightarrow> nat \<Rightarrow> ucs_status) \<Rightarrow> sendto_result \<Rightarrow> nat \<Rightarrow> mm_state \<Rightarrow> mm_state" where
  "send_step cfg seg_status ret e s =
     (case ep_at (mm_eps s e) of
        Idle \<Rightarrow> s
      | Load m \<Rightarrow> send_load cfg s e m
      | Retail m h \<Rightarrow> send_retail cfg s e m h
      | Cas m h \<Rightarrow> uct_mm_ep_get_remote_elem s e m h
      | Write m h \<Rightarrow> send_write cfg seg_status s e m h
      | Publish m h fl \<Rightarrow> send_publish cfg s e m h fl
      | Signal m h \<Rightarrow> send_signal ret s e m h)"

section \<open>Pending requests\<close>

definition uct_mm_ep_pending_add :: "mm_config \<Rightarrow> mm_state \<Rightarrow> nat \<Rightarrow> (ucs_status \<times> mm_state) option" where
  "uct_mm_ep_pending_add cfg s e =
     (if uct_mm_ep_has_tx_resources cfg s e then do {
        ucs_assert (\<not> ep_group_nonempty (mm_eps s e));
        Some (UCS_ERR_BUSY, s)
      } else Some (UCS_OK, upd_ep e (\<lambda>ep. ep\<lparr>ep_group_nonempty := True\<rparr>) s))"

text \<open>\<open>req\<close> is the outcome of the pending request, or \<open>None\<close> for the placeholder element.\<close>

definition uct_mm_ep_process_pending :: "mm_config \<Rightarrow> mm_state \<Rightarrow> nat \<Rightarrow> ucs_status option \<Rightarrow> ucs_arbiter_cb_result \<times> mm_state" where
  "uct_mm_ep_process_pending cfg s e req =
     (let s1 = uct_mm_ep_update_cached_tail s e
      in if \<not> uct_mm_ep_has_tx_resources cfg s1 e then (UCS_ARBITER_CB_RESULT_RESCHED_GROUP, s1)
         else case req of
           None \<Rightarrow> (UCS_ARBITER_CB_RESULT_REMOVE_ELEM, s1)
         | Some status \<Rightarrow>
             (if status = UCS_OK then UCS_ARBITER_CB_RESULT_REMOVE_ELEM
              else if status = UCS_INPROGRESS then UCS_ARBITER_CB_RESULT_NEXT_GROUP
              else UCS_ARBITER_CB_RESULT_RESCHED_GROUP, s1))"

definition uct_mm_ep_flush :: "mm_config \<Rightarrow> mm_state \<Rightarrow> nat \<Rightarrow> ucs_status \<times> mm_state" where
  "uct_mm_ep_flush cfg s e =
     (if \<not> uct_mm_ep_has_tx_resources cfg s e then
        if ep_group_nonempty (mm_eps s e) then (UCS_ERR_NO_RESOURCE, s)
        else
          let s1 = uct_mm_ep_update_cached_tail s e
          in (if \<not> uct_mm_ep_has_tx_resources cfg s1 e then UCS_ERR_NO_RESOURCE else UCS_OK, s1)
      else (UCS_OK, s))"

section \<open>Receiving\<close>

definition read_index_elem :: "mm_config \<Rightarrow> mm_state \<Rightarrow> uct_mm_fifo_element" where
  "read_index_elem cfg s = fifo_elems s ! elem_index cfg (read_index s)"

definition uct_mm_iface_fifo_has_new_data :: "mm_config \<Rightarrow> mm_state \<Rightarrow> bool" where
  "uct_mm_iface_fifo_has_new_data cfg s \<longleftrightarrow>
     drop_bit (fifo_shift cfg) (read_index s) AND 1 = ucast (el_flags (read_index_elem cfg s) AND 1)"

definition uct_mm_progress_fifo_tail :: "mm_config \<Rightarrow> mm_state \<Rightarrow> mm_state" where
  "uct_mm_progress_fifo_tail cfg s =
     (if read_index s AND fifo_release_factor_mask cfg \<noteq> 0 then s else s\<lparr>fifo_tail := read_index s\<rparr>)"

definition uct_mm_assign_desc_to_fifo_elem :: "nat \<Rightarrow> nat \<Rightarrow> mm_state \<Rightarrow> mm_state" where
  "uct_mm_assign_desc_to_fifo_elem i desc = upd_elem i (\<lambda>el. el\<lparr>el_desc := desc\<rparr>)"

text \<open>
  The receiver delivers the element at its read index to the active message handler.  \<open>got1\<close> and
  \<open>got2\<close> are what the receive pool returns when it is asked for a descriptor at the beginning and at
  the end, \<open>keep\<close> says whether the handler keeps the descriptor.
\<close>

definition deliver :: "(u8 \<times> bytes) option \<Rightarrow> mm_state \<Rightarrow> mm_state" where
  "deliver x s = s\<lparr>recv_log := recv_log s @ [x]\<rparr>"

definition uct_mm_iface_process_recv :: "mm_config \<Rightarrow> nat option \<Rightarrow> bool \<Rightarrow> nat option \<Rightarrow> mm_state \<Rightarrow> mm_state" where
  "uct_mm_iface_process_recv cfg got1 keep got2 s =
     (let i = elem_index cfg (read_index s); el = fifo_elems s ! i; len = unat (el_length el)
      in if el_flags el AND UCT_MM_FIFO_ELEM_FLAG_INLINE \<noteq> 0 then
           deliver (Some (el_am_id el, take len (el_inline el))) s
         else
           let s1 = (if last_recv_desc s = None then s\<lparr>last_recv_desc := got1\<rparr> else s)
           in case last_recv_desc s1 of
                None \<Rightarrow> deliver None s1
              | Some d \<Rightarrow>
                  let s2 = deliver (Some (el_am_id el, take len (desc_mem s1 (el_desc el)))) s1
                  in if keep then
                       (uct_mm_assign_desc_to_fifo_elem i d s2)
                         \<lparr>last_recv_desc := got2, held_descs := insert (el_desc el) (held_descs s2)\<rparr>
                     else s2)"

text \<open>\<^verbatim>\<open>uct_mm_iface_poll_fifo\<close>, from one access of the shared memory to the next.\<close>

definition poll_check :: "mm_config \<Rightarrow> mm_state \<Rightarrow> mm_state option" where
  "poll_check cfg s =
     (if \<not> uct_mm_iface_fifo_has_new_data cfg s then Some s
      else do {
        ucs_assert (read_index s \<le> fifo_head s AND NOT UCT_MM_IFACE_FIFO_HEAD_EVENT_ARMED);
        Some (s\<lparr>rx_at := Rx_Process\<rparr>)
      })"

definition poll_process :: "mm_config \<Rightarrow> nat option \<Rightarrow> bool \<Rightarrow> nat option \<Rightarrow> mm_state \<Rightarrow> mm_state" where
  "poll_process cfg got1 keep got2 s =
     (let s1 = uct_mm_iface_process_recv cfg got1 keep got2 s in s1\<lparr>read_index := read_index s1 + 1, rx_at := Rx_Tail\<rparr>)"

definition poll_tail :: "mm_config \<Rightarrow> mm_state \<Rightarrow> mm_state" where
  "poll_tail cfg s = (uct_mm_progress_fifo_tail cfg s)\<lparr>rx_at := Rx_Idle\<rparr>"

text \<open>A whole poll that no other process interrupts, and the adaptive number of polls.\<close>

definition uct_mm_iface_poll_fifo :: "mm_config \<Rightarrow> nat option \<Rightarrow> bool \<Rightarrow> nat option \<Rightarrow> mm_state \<Rightarrow> (nat \<times> mm_state) option" where
  "uct_mm_iface_poll_fifo cfg got1 keep got2 s = do {
     s1 \<leftarrow> poll_check cfg s;
     if rx_at s1 \<noteq> Rx_Process then Some (0, s1)
     else Some (1, poll_tail cfg (poll_process cfg got1 keep got2 s1))
   }"

definition uct_mm_iface_fifo_window_adjust :: "mm_config \<Rightarrow> nat \<Rightarrow> mm_state \<Rightarrow> mm_state option" where
  "uct_mm_iface_fifo_window_adjust cfg count s =
     (if count < fifo_poll_count s then Some (s\<lparr>fifo_poll_count := max (fifo_poll_count s div 2) 1, fifo_prev_wnd_cons := False\<rparr>)
      else do {
        ucs_assert (count = fifo_poll_count s);
        Some (if fifo_prev_wnd_cons s then s\<lparr>fifo_poll_count := min (w32 (fifo_poll_count s + 1)) (fifo_max_poll cfg)\<rparr>
              else s\<lparr>fifo_prev_wnd_cons := True\<rparr>)
      })"

text \<open>The receiving part of \<^verbatim>\<open>uct_mm_iface_progress\<close>: \<open>polls\<close> are the results of the
  calls of \<^verbatim>\<open>uct_mm_iface_poll_fifo\<close>, with nothing to read after their end.\<close>

fun progress_receive :: "nat \<Rightarrow> nat list \<Rightarrow> nat \<Rightarrow> nat option" where
  "progress_receive window [] total_count = Some total_count"
| "progress_receive window (count # polls) total_count = do {
     ucs_assert (count < 2);
     ucs_assert (total_count + count < 2 ^ 32 - 1);
     if count \<noteq> 0 \<and> total_count + count < window then progress_receive window polls (total_count + count)
     else Some (total_count + count)
   }"

definition uct_mm_iface_progress :: "mm_config \<Rightarrow> nat list \<Rightarrow> mm_state \<Rightarrow> (nat \<times> mm_state) option" where
  "uct_mm_iface_progress cfg polls s = do {
     ucs_assert (fifo_poll_count s \<ge> 1);
     total_count \<leftarrow> progress_receive (fifo_poll_count s) polls 0;
     s1 \<leftarrow> uct_mm_iface_fifo_window_adjust cfg total_count s;
     Some (total_count, s1)
   }"

section \<open>Arming the wake-up event\<close>

definition UCT_EVENT_SEND_COMP :: u32 where
  "UCT_EVENT_SEND_COMP = 1"

definition UCT_EVENT_RECV :: u32 where
  "UCT_EVENT_RECV = 2"

text \<open>\<^verbatim>\<open>uct_mm_iface_event_fd_arm\<close> up to the load of the head; \<open>pending\<close> says whether the
  arbiter of the interface has outstanding sends.\<close>

definition arm_load :: "u32 \<Rightarrow> bool \<Rightarrow> mm_state \<Rightarrow> ucs_status option \<times> mm_state" where
  "arm_load events pending s =
     (let head = fifo_head s
      in if events AND UCT_EVENT_SEND_COMP \<noteq> 0 \<and> pending then (Some UCS_ERR_BUSY, s\<lparr>rx_at := Rx_Idle\<rparr>)
         else if events AND UCT_EVENT_RECV = 0 then (Some UCS_OK, s\<lparr>rx_at := Rx_Idle\<rparr>)
         else if head AND NOT UCT_MM_IFACE_FIFO_HEAD_EVENT_ARMED > read_index s then (Some UCS_ERR_BUSY, s\<lparr>rx_at := Rx_Idle\<rparr>)
         else if head AND UCT_MM_IFACE_FIFO_HEAD_EVENT_ARMED = 0 then (None, s\<lparr>rx_at := Rx_Arm head\<rparr>)
         else (None, s\<lparr>rx_at := Rx_Recvfrom\<rparr>))"

definition arm_cas :: "u64 \<Rightarrow> mm_state \<Rightarrow> (ucs_status option \<times> mm_state) option" where
  "arm_cas head s =
     (if fifo_head s = head then Some (None, s\<lparr>fifo_head := head OR UCT_MM_IFACE_FIFO_HEAD_EVENT_ARMED, rx_at := Rx_Recvfrom\<rparr>)
      else do {
        ucs_assert (fifo_head s AND UCT_MM_IFACE_FIFO_HEAD_EVENT_ARMED = 0);
        Some (Some UCS_ERR_BUSY, s\<lparr>rx_at := Rx_Idle\<rparr>)
      })"

text \<open>Reading the non-blocking signal socket takes one datagram, or finds none, or fails.\<close>

datatype recvfrom_result = Recv_Data | Recv_Again | Recv_Interrupted | Recv_Failed | Recv_Closed

definition arm_recvfrom :: "recvfrom_result \<Rightarrow> mm_state \<Rightarrow> ucs_status \<times> mm_state" where
  "arm_recvfrom ret s =
     (case ret of
        Recv_Data \<Rightarrow> (UCS_ERR_BUSY, s\<lparr>sig_queue := sig_queue s - 1, rx_at := Rx_Idle\<rparr>)
      | Recv_Again \<Rightarrow> (UCS_OK, s\<lparr>rx_at := Rx_Asleep\<rparr>)
      | Recv_Interrupted \<Rightarrow> (UCS_ERR_BUSY, s\<lparr>rx_at := Rx_Idle\<rparr>)
      | Recv_Failed \<Rightarrow> (UCS_ERR_IO_ERROR, s\<lparr>rx_at := Rx_Idle\<rparr>)
      | Recv_Closed \<Rightarrow> (UCS_ERR_CONNECTION_RESET, s\<lparr>rx_at := Rx_Idle\<rparr>))"

end
