(* ===== verification/Mm_Fifo_Index.thy ===== *)
theory Mm_Fifo_Index
  imports Mm_Fifo
begin

text \<open>
  The head of the shared-memory FIFO counts the elements ever written and carries the event bit as its
  top bit.  This theory reads the word operations of the transport as arithmetic on that count.
\<close>

definition enc :: "nat \<Rightarrow> bool \<Rightarrow> u64" where
  "enc j a = of_nat j + (if a then 2 ^ 63 else 0)"

lemma unat_enc: "j < 2 ^ 63 \<Longrightarrow> unat (enc j a) = j + (if a then 2 ^ 63 else 0)"
  by (auto simp: enc_def unat_of_nat take_bit_nat_eq_self unat_word_ariths)

lemma enc_eq_iff: "i < 2 ^ 63 \<Longrightarrow> j < 2 ^ 63 \<Longrightarrow> enc i a = enc j b \<longleftrightarrow> i = j \<and> a = b"
  by (auto simp: unat_enc word_unat_eq_iff split: if_splits)

lemma bit_word_unat: "bit (w :: 'a::len word) n \<longleftrightarrow> bit (unat w) n"
  by (simp add: bit_unsigned_iff)

lemma bit_small: "(j :: nat) < 2 ^ m \<Longrightarrow> m \<le> n \<Longrightarrow> \<not> bit j n"
  by (metis bit_take_bit_iff linorder_not_le take_bit_nat_eq_self)

lemma bit_add_top: "(j :: nat) < 2 ^ m \<Longrightarrow> bit (j + 2 ^ m) n \<longleftrightarrow> n = m \<or> bit j n"
proof -
  assume j: "j < 2 ^ m"
  have "j + 2 ^ m = j OR push_bit m 1"
    using bit_small [OF j] by (subst disjunctive_add [symmetric]) (auto simp: bit_simps push_bit_eq_mult)
  then show ?thesis using bit_small [OF j] by (auto simp: bit_simps)
qed

lemma bit_enc: "j < 2 ^ 63 \<Longrightarrow> bit (enc j a) n \<longleftrightarrow> n = 63 \<and> a \<or> bit j n"
  unfolding bit_word_unat using bit_add_top [of j 63 n] by (cases a) (simp_all add: unat_enc)

lemma bit_armed: "bit UCT_MM_IFACE_FIFO_HEAD_EVENT_ARMED n \<longleftrightarrow> n = 63"
  unfolding UCT_MM_IFACE_FIFO_HEAD_EVENT_ARMED_def bit_push_bit_iff by (auto simp: bit_1_iff)

lemma single_bit_and:
  assumes "\<And>n. bit (v :: u64) n \<longleftrightarrow> n = m"
  shows "w AND v = 0 \<longleftrightarrow> \<not> bit w m"
proof
  assume "w AND v = 0"
  then have "\<not> bit (w AND v) m" by simp
  then show "\<not> bit w m" by (simp add: bit_and_iff assms)
next
  assume "\<not> bit w m"
  then show "w AND v = 0" by (intro bit_word_eqI) (auto simp: bit_and_iff assms)
qed

lemma enc_armed: "j < 2 ^ 63 \<Longrightarrow> enc j a AND UCT_MM_IFACE_FIFO_HEAD_EVENT_ARMED = 0 \<longleftrightarrow> \<not> a"
  using bit_small [of j 63 63] by (simp add: single_bit_and [OF bit_armed] bit_enc)

lemma enc_clear: "j < 2 ^ 63 \<Longrightarrow> enc j a AND NOT UCT_MM_IFACE_FIFO_HEAD_EVENT_ARMED = enc j False"
  using bit_small [of j 63 63] by (intro bit_word_eqI) (auto simp: bit_and_iff bit_not_iff bit_enc bit_armed)

lemma enc_arm: "j < 2 ^ 63 \<Longrightarrow> enc j False OR UCT_MM_IFACE_FIFO_HEAD_EVENT_ARMED = enc j True"
  by (intro bit_word_eqI) (auto simp: bit_or_iff bit_enc bit_armed)

lemma enc_next: "j + 1 < 2 ^ 63 \<Longrightarrow> (enc j a + 1) AND NOT UCT_MM_IFACE_FIFO_HEAD_EVENT_ARMED = enc (j + 1) False"
proof -
  assume "j + 1 < 2 ^ 63"
  moreover have "enc j a + 1 = enc (j + 1) a" by (simp add: enc_def)
  ultimately show ?thesis using enc_clear by simp
qed

lemma enc_index:
  assumes "j < 2 ^ 63" "fifo_shift cfg \<le> 31"
  shows "elem_index cfg (enc j a) = j mod fifo_size cfg"
proof -
  have m: "fifo_mask cfg = mask (fifo_shift cfg)"
    by (simp add: fifo_mask_def fifo_size_def mask_eq_exp_minus_1 of_nat_diff)
  have "2 ^ fifo_shift cfg dvd (2 :: nat) ^ 63" using assms(2) by (intro le_imp_power_dvd) simp
  then have "(j + 2 ^ 63) mod 2 ^ fifo_shift cfg = j mod 2 ^ fifo_shift cfg"
    by (simp add: mod_add_eq [symmetric, of j] dvd_imp_mod_0)
  then have "unat (enc j a) mod 2 ^ fifo_shift cfg = j mod 2 ^ fifo_shift cfg"
    using assms(1) by (cases a) (simp_all add: unat_enc)
  moreover have "unat (enc j a AND mask (fifo_shift cfg)) = unat (enc j a) mod 2 ^ fifo_shift cfg"
    unfolding take_bit_eq_mask [symmetric] unsigned_take_bit_eq take_bit_eq_mod [symmetric] ..
  ultimately show ?thesis by (simp add: elem_index_def m fifo_size_def)
qed

lemma enc_owner:
  assumes "j < 2 ^ 63" "fifo_shift cfg \<le> 31"
  shows "enc j a AND of_nat (fifo_size cfg) \<noteq> 0 \<longleftrightarrow> odd (j div fifo_size cfg)"
proof -
  have b: "bit (of_nat (fifo_size cfg) :: u64) n \<longleftrightarrow> n = fifo_shift cfg" for n
    using assms(2) by (auto simp: fifo_size_def bit_simps)
  have "enc j a AND of_nat (fifo_size cfg) \<noteq> 0 \<longleftrightarrow> bit (enc j a) (fifo_shift cfg)"
    by (simp add: single_bit_and [OF b])
  also have "\<dots> \<longleftrightarrow> odd (j div fifo_size cfg)"
    unfolding bit_enc [OF assms(1)] using assms(2) by (auto simp: bit_iff_odd fifo_size_def)
  finally show ?thesis .
qed

text \<open>The receiver compares the owner bit of an element with the round its read index is in.\<close>

lemma has_new_data_iff:
  assumes "read_index s = enc j False" "j < 2 ^ 63" "fifo_shift cfg \<le> 31"
  shows "uct_mm_iface_fifo_has_new_data cfg s \<longleftrightarrow>
    (odd (j div fifo_size cfg) \<longleftrightarrow> bit (el_flags (fifo_elems s ! (j mod fifo_size cfg))) 0)"
proof -
  let ?f = "el_flags (fifo_elems s ! (j mod fifo_size cfg))"
  have a: "drop_bit (fifo_shift cfg) (enc j False) AND 1 = (if odd (j div fifo_size cfg) then 1 else 0)"
    unfolding and_one_eq mod_2_eq_odd even_drop_bit_iff_not_bit bit_enc [OF assms(2)] by (simp add: bit_iff_odd fifo_size_def)
  have b: "ucast (?f AND 1) = (if bit ?f 0 then 1 else 0 :: u64)"
    by (simp add: and_one_eq mod_2_eq_odd bit_0)
  show ?thesis
    unfolding uct_mm_iface_fifo_has_new_data_def read_index_elem_def assms(1) enc_index [OF assms(2,3)] a b by simp
qed

text \<open>The comparison of 32-bit differences is the comparison of the counts as long as they are less
  than \<open>2 ^ 31\<close> apart.\<close>

lemma ucast_of_nat_32: "ucast (of_nat n :: u64) = (of_nat n :: u32)"
proof -
  have "take_bit 32 (take_bit 64 n) = take_bit 32 n" by (simp add: take_bit_take_bit)
  then have "(of_nat (take_bit 64 n) :: u32) = of_nat n" by (simp add: word_of_nat_eq_iff)
  then show ?thesis by (simp only: unsigned_of_nat) simp
qed

lemma ucast_enc_diff:
  assumes "t \<le> h"
  shows "ucast (enc h a - enc t False) = (of_nat (h - t) :: u32)"
proof -
  have "enc h a - enc t False = of_nat (h - t + (if a then 2 ^ 63 else 0))"
    using assms by (simp add: enc_def of_nat_diff)
  also have "ucast \<dots> = (of_nat (h - t + (if a then 2 ^ 63 else 0)) :: u32)"
    by (rule ucast_of_nat_32)
  also have "\<dots> = of_nat (h - t)"
    by (simp add: word_of_nat_eq_iff take_bit_eq_mod mod_add_eq [symmetric, of "h - t"])
  finally show ?thesis .
qed

lemma sint32_small: "n < 2 ^ 31 \<Longrightarrow> sint (of_nat n :: u32) = int n"
  by (simp add: signed_of_nat signed_take_bit_int_eq_self)

lemma sint32_large:
  assumes "2 ^ 31 \<le> n" "n < 2 ^ 32"
  shows "sint (of_nat n :: u32) < 0"
proof -
  have "(of_nat n :: u32) = of_int (int n - 2 ^ 32)" by simp
  then have "sint (of_nat n :: u32) = signed_take_bit 31 (int n - 2 ^ 32)" by (simp only: signed_of_int) simp
  also have "\<dots> = int n - 2 ^ 32" using assms by (intro signed_take_bit_int_eq_self) auto
  finally show ?thesis using assms(2) by simp
qed

lemma able_iff:
  assumes "t \<le> h" "h - t < 2 ^ 31" "n < 2 ^ 31"
  shows "UCT_MM_EP_IS_ABLE_TO_SEND (enc h a) (enc t False) n \<longleftrightarrow> h - t < n"
  unfolding UCT_MM_EP_IS_ABLE_TO_SEND_def ucast_enc_diff [OF assms(1)] sint32_small [OF assms(2)] sint32_small [OF assms(3)] by simp

text \<open>From \<open>2 ^ 31\<close> on the difference is negative and the comparison always succeeds.\<close>

lemma able_stale:
  assumes "t \<le> h" "2 ^ 31 \<le> h - t" "h - t < 2 ^ 32" "n < 2 ^ 31"
  shows "UCT_MM_EP_IS_ABLE_TO_SEND (enc h a) (enc t False) n"
  using sint32_large [OF assms(2,3)]
  unfolding UCT_MM_EP_IS_ABLE_TO_SEND_def ucast_enc_diff [OF assms(1)] sint32_small [OF assms(4)] by simp

end
