(* ===== verification/Mm_Fifo_Inv.thy ===== *)
theory Mm_Fifo_Inv
  imports Mm_Fifo_Index
begin

text \<open>
  The interleaved steps of the endpoints and the receiver of a shared-memory FIFO, and the invariant that
  relates the words in shared memory to the messages that were sent and delivered.
\<close>

section \<open>Steps\<close>

text \<open>The descriptors that are in use; the receive pool returns others.\<close>

definition used_descs :: "mm_state \<Rightarrow> nat set" where
  "used_descs s = el_desc ` set (fifo_elems s) \<union> set_option (last_recv_desc s) \<union> held_descs s"

abbreviation at :: "mm_state \<Rightarrow> nat \<Rightarrow> ep_pc" where
  "at s e \<equiv> ep_at (mm_eps s e)"

inductive mm_step :: "mm_config \<Rightarrow> (nat \<Rightarrow> nat \<Rightarrow> ucs_status) \<Rightarrow> mm_state \<Rightarrow> mm_state \<Rightarrow> bool" for cfg seg_status where
  st_create: "at s e = Idle \<Longrightarrow> mm_step cfg seg_status s (mm_ep_init s e)"
| st_short: "at s e = Idle \<Longrightarrow> mm_step cfg seg_status s (uct_mm_ep_am_short cfg s e am_id hdr payload)"
| st_short_iov: "at s e = Idle \<Longrightarrow> mm_step cfg seg_status s (uct_mm_ep_am_short_iov cfg s e am_id iov)"
| st_bcopy: "at s e = Idle \<Longrightarrow> mm_step cfg seg_status s (uct_mm_ep_am_bcopy s e am_id packed)"
| st_load: "at s e = Load m \<Longrightarrow> mm_step cfg seg_status s (send_load cfg s e m)"
| st_retail: "at s e = Retail m h \<Longrightarrow> mm_step cfg seg_status s (send_retail cfg s e m h)"
| st_cas: "at s e = Cas m h \<Longrightarrow> mm_step cfg seg_status s (uct_mm_ep_get_remote_elem s e m h)"
| st_write: "at s e = Write m h \<Longrightarrow> mm_step cfg seg_status s (send_write cfg seg_status s e m h)"
| st_publish: "at s e = Publish m h fl \<Longrightarrow> mm_step cfg seg_status s (send_publish cfg s e m h fl)"
| st_signal: "at s e = Signal m h \<Longrightarrow> (ret = Send_Again \<Longrightarrow> sig_queue s > 0) \<Longrightarrow> mm_step cfg seg_status s (send_signal ret s e m h)"
| st_pending_add: "at s e = Idle \<Longrightarrow> uct_mm_ep_pending_add cfg s e = Some (status, s') \<Longrightarrow> mm_step cfg seg_status s s'"
| st_process_pending: "at s e = Idle \<Longrightarrow> uct_mm_ep_process_pending cfg s e req = (result, s') \<Longrightarrow> mm_step cfg seg_status s s'"
| st_group_done: "at s e = Idle \<Longrightarrow> mm_step cfg seg_status s (upd_ep e (\<lambda>ep. ep\<lparr>ep_group_nonempty := False\<rparr>) s)"
| st_flush: "at s e = Idle \<Longrightarrow> uct_mm_ep_flush cfg s e = (status, s') \<Longrightarrow> mm_step cfg seg_status s s'"
| st_poll: "rx_at s \<in> {Rx_Idle, Rx_Asleep} \<Longrightarrow> poll_check cfg s = Some s' \<Longrightarrow> mm_step cfg seg_status s s'"
| st_process: "rx_at s = Rx_Process \<Longrightarrow> set_option got1 \<inter> used_descs s = {} \<Longrightarrow> set_option got2 \<inter> (used_descs s \<union> set_option got1) = {} \<Longrightarrow>
    mm_step cfg seg_status s (poll_process cfg got1 keep got2 s)"
| st_tail: "rx_at s = Rx_Tail \<Longrightarrow> mm_step cfg seg_status s (poll_tail cfg s)"
| st_arm_load: "rx_at s \<in> {Rx_Idle, Rx_Asleep} \<Longrightarrow> mm_step cfg seg_status s (snd (arm_load events pending s))"
| st_arm_cas: "rx_at s = Rx_Arm h \<Longrightarrow> arm_cas h s = Some (status', s') \<Longrightarrow> mm_step cfg seg_status s s'"
| st_recvfrom: "rx_at s = Rx_Recvfrom \<Longrightarrow> (ret = Recv_Data \<Longrightarrow> sig_queue s > 0) \<Longrightarrow> (ret = Recv_Again \<Longrightarrow> sig_queue s = 0) \<Longrightarrow>
    mm_step cfg seg_status s (snd (arm_recvfrom ret s))"
| st_release: "d \<in> held_descs s \<Longrightarrow> mm_step cfg seg_status s (s\<lparr>held_descs := held_descs s - {d}\<rparr>)"

text \<open>A fresh interface: as many elements as the configuration says, distinct descriptors, no message on
  its way, nobody sending.\<close>

definition mm_start :: "mm_config \<Rightarrow> mm_state \<Rightarrow> bool" where
  "mm_start cfg s \<longleftrightarrow> (\<exists>s0 descs first. s = mm_iface_init cfg descs first s0 \<and>
     length (fifo_elems s0) = fifo_size cfg \<and> length descs = fifo_size cfg \<and> distinct (first # descs) \<and>
     held_descs s0 = {} \<and> rx_at s0 = Rx_Idle \<and> sent_log s0 = [] \<and> recv_log s0 = [] \<and> abandoned s0 = {} \<and> unsignalled s0 = {} \<and>
     (\<forall>e. mm_eps s0 e = \<lparr>ep_cached_tail = 0, ep_group_nonempty = False, ep_ret = 0, ep_at = Idle\<rparr>))"

inductive mm_reach :: "mm_config \<Rightarrow> (nat \<Rightarrow> nat \<Rightarrow> ucs_status) \<Rightarrow> mm_state \<Rightarrow> bool" for cfg seg_status where
  reach_start: "mm_start cfg s \<Longrightarrow> mm_reach cfg seg_status s"
| reach_step: "mm_reach cfg seg_status s \<Longrightarrow> mm_step cfg seg_status s s' \<Longrightarrow> mm_reach cfg seg_status s'"

text \<open>Runs in which the receive pool never runs dry: the interface always has a descriptor in reserve.\<close>

inductive mm_fed :: "mm_config \<Rightarrow> (nat \<Rightarrow> nat \<Rightarrow> ucs_status) \<Rightarrow> mm_state \<Rightarrow> bool" for cfg seg_status where
  fed_start: "mm_start cfg s \<Longrightarrow> mm_fed cfg seg_status s"
| fed_step: "mm_fed cfg seg_status s \<Longrightarrow> mm_step cfg seg_status s s' \<Longrightarrow> last_recv_desc s' \<noteq> None \<Longrightarrow> mm_fed cfg seg_status s'"

section \<open>The invariant\<close>

definition idx :: "u64 \<Rightarrow> nat" where
  "idx h = unat (h AND NOT UCT_MM_IFACE_FIFO_HEAD_EVENT_ARMED)"

lemma idx_enc [simp]: "j < 2 ^ 63 \<Longrightarrow> idx (enc j a) = j"
  by (simp add: idx_def enc_clear unat_enc)

text \<open>The message and the head of a process that owns an element.\<close>

fun owned :: "ep_pc \<Rightarrow> (mm_msg \<times> u64) option" where
  "owned (Write m h) = Some (m, h)"
| "owned (Publish m h fl) = Some (m, h)"
| "owned _ = None"

fun publishing :: "ep_pc \<Rightarrow> (mm_msg \<times> u64 \<times> u8) option" where
  "publishing (Publish m h fl) = Some (m, h, fl)"
| "publishing _ = None"

fun pc_head :: "ep_pc \<Rightarrow> u64 option" where
  "pc_head (Write m h) = Some h"
| "pc_head (Publish m h fl) = Some h"
| "pc_head (Signal m h) = Some h"
| "pc_head _ = None"

lemma owned_pc_head: "owned p = Some (m, h) \<Longrightarrow> pc_head p = Some h"
  by (cases p) auto

lemma publishing_owned: "publishing p = Some (m, h, fl) \<Longrightarrow> owned p = Some (m, h)"
  by (cases p) auto

text \<open>The bytes that reach the receiver: the element stores the length in 16 bits.\<close>

definition wire :: "mm_msg \<Rightarrow> u8 \<times> bytes" where
  "wire m = (msg_id m, take (unat (of_nat (length (send_payload (msg_op m))) :: u16)) (send_payload (msg_op m)))"

definition op_flags :: "mm_msg \<Rightarrow> u8" where
  "op_flags m = (if is_bcopy (msg_op m) then 0 else UCT_MM_FIFO_ELEM_FLAG_INLINE)"

definition el_wire :: "(nat \<Rightarrow> bytes) \<Rightarrow> uct_mm_fifo_element \<Rightarrow> bool \<Rightarrow> u8 \<times> bytes" where
  "el_wire mem el bc = (el_am_id el, take (unat (el_length el)) (if bc then mem (el_desc el) else el_inline el))"

text \<open>An index is complete when its element was written and its flags were set.\<close>

definition complete :: "mm_state \<Rightarrow> nat \<Rightarrow> bool" where
  "complete s j \<longleftrightarrow> j < length (sent_log s) \<and> j \<notin> abandoned s \<and> (\<forall>e m h. owned (at s e) = Some (m, h) \<longrightarrow> idx h \<noteq> j)"

abbreviation slot :: "mm_config \<Rightarrow> mm_state \<Rightarrow> nat \<Rightarrow> uct_mm_fifo_element" where
  "slot cfg s j \<equiv> fifo_elems s ! (j mod fifo_size cfg)"

abbreviation rd :: "mm_state \<Rightarrow> nat" where
  "rd s \<equiv> length (recv_log s)"

abbreviation hd_count :: "mm_state \<Rightarrow> nat" where
  "hd_count s \<equiv> length (sent_log s)"

definition owners_ok :: "mm_state \<Rightarrow> bool" where
  "owners_ok s \<longleftrightarrow>
     (\<forall>e m h. owned (at s e) = Some (m, h) \<longrightarrow>
       (\<exists>j a. h = enc j a \<and> rd s \<le> j \<and> j < hd_count s \<and> sent_log s ! j = m \<and> j \<notin> abandoned s)) \<and>
     (\<forall>e e' m m' h h'. owned (at s e) = Some (m, h) \<longrightarrow> owned (at s e') = Some (m', h') \<longrightarrow> idx h = idx h' \<longrightarrow> e = e')"

definition flags_ok :: "mm_config \<Rightarrow> mm_state \<Rightarrow> bool" where
  "flags_ok cfg s \<longleftrightarrow> (\<forall>j. rd s \<le> j \<longrightarrow> j < rd s + fifo_size cfg \<longrightarrow>
     ((bit (el_flags (slot cfg s j)) 0 \<longleftrightarrow> odd (j div fifo_size cfg)) \<longleftrightarrow> complete s j))"

definition content_ok :: "mm_config \<Rightarrow> mm_state \<Rightarrow> bool" where
  "content_ok cfg s \<longleftrightarrow>
     (\<forall>j. rd s \<le> j \<longrightarrow> complete s j \<longrightarrow>
       (el_flags (slot cfg s j) AND UCT_MM_FIFO_ELEM_FLAG_INLINE = 0 \<longleftrightarrow> is_bcopy (msg_op (sent_log s ! j))) \<and>
       el_wire (desc_mem s) (slot cfg s j) (is_bcopy (msg_op (sent_log s ! j))) = wire (sent_log s ! j)) \<and>
     (\<forall>e m h fl. publishing (at s e) = Some (m, h, fl) \<longrightarrow>
       fl = op_flags m \<and> el_wire (desc_mem s) (slot cfg s (idx h)) (is_bcopy (msg_op m)) = wire m)"

definition log_ok :: "mm_state \<Rightarrow> bool" where
  "log_ok s \<longleftrightarrow> rd s \<le> hd_count s \<and> read_index s = enc (rd s) False \<and> (\<forall>j \<in> abandoned s. rd s \<le> j \<and> j < hd_count s) \<and>
     (\<forall>j < rd s. recv_log s ! j = Some (wire (sent_log s ! j)) \<or> recv_log s ! j = None \<and> is_bcopy (msg_op (sent_log s ! j)))"

definition descs_ok :: "mm_config \<Rightarrow> mm_state \<Rightarrow> bool" where
  "descs_ok cfg s \<longleftrightarrow> length (fifo_elems s) = fifo_size cfg \<and> distinct (map el_desc (fifo_elems s)) \<and>
     set_option (last_recv_desc s) \<inter> (el_desc ` set (fifo_elems s) \<union> held_descs s) = {} \<and>
     held_descs s \<inter> el_desc ` set (fifo_elems s) = {}"

fun pc_ok :: "mm_config \<Rightarrow> nat \<Rightarrow> nat \<Rightarrow> ep_pc \<Rightarrow> bool" where
  "pc_ok cfg c H (Retail m h) \<longleftrightarrow> (\<exists>j a. h = enc j a \<and> j \<le> H)"
| "pc_ok cfg c H (Cas m h) \<longleftrightarrow> (\<exists>j a. h = enc j a \<and> j \<le> H \<and> j < c + fifo_size cfg)"
| "pc_ok cfg c H _ \<longleftrightarrow> True"

definition tails_ok :: "mm_config \<Rightarrow> mm_state \<Rightarrow> bool" where
  "tails_ok cfg s \<longleftrightarrow> (\<exists>a. fifo_head s = enc (hd_count s) a) \<and>
     (\<exists>T. fifo_tail s = enc T False \<and> T \<le> rd s \<and> hd_count s \<le> T + fifo_size cfg \<and>
       (\<forall>e. \<exists>c. ep_cached_tail (mm_eps s e) = enc c False \<and> c \<le> T \<and> pc_ok cfg c (hd_count s) (at s e)))"

definition wake :: "mm_state \<Rightarrow> bool" where
  "wake s \<longleftrightarrow> fifo_head s = enc (rd s) True \<or> sig_queue s > 0 \<or> rd s \<in> abandoned s \<or> rd s \<in> unsignalled s \<or>
     (\<exists>e. pc_head (at s e) = Some (enc (rd s) True))"

lemma wakeI: "pc_head (at s e) = Some (enc (rd s) True) \<Longrightarrow> wake s"
  unfolding wake_def by blast

lemma wakeE:
  assumes "wake s"
  obtains "fifo_head s = enc (rd s) True" | "0 < sig_queue s" | "rd s \<in> abandoned s" | "rd s \<in> unsignalled s" | e where "pc_head (at s e) = Some (enc (rd s) True)"
  using assms unfolding wake_def by (elim disjE exE) simp_all

definition rx_ok :: "mm_state \<Rightarrow> bool" where
  "rx_ok s \<longleftrightarrow> (case rx_at s of
       Rx_Process \<Rightarrow> complete s (rd s)
     | Rx_Arm h \<Rightarrow> (\<exists>j. h = enc j False \<and> j \<le> rd s) \<and> fifo_head s = enc (hd_count s) False
     | Rx_Recvfrom \<Rightarrow> wake s
     | Rx_Asleep \<Rightarrow> wake s
     | _ \<Rightarrow> True)"

definition mm_inv :: "mm_config \<Rightarrow> mm_state \<Rightarrow> bool" where
  "mm_inv cfg s \<longleftrightarrow> owners_ok s \<and> flags_ok cfg s \<and> content_ok cfg s \<and> log_ok s \<and> descs_ok cfg s \<and> tails_ok cfg s \<and> rx_ok s"

lemmas mm_inv_defs = owners_ok_def flags_ok_def content_ok_def log_ok_def descs_ok_def tails_ok_def rx_ok_def

definition mm_config_ok :: "mm_config \<Rightarrow> bool" where
  "mm_config_ok cfg \<longleftrightarrow> fifo_shift cfg \<le> 30"

lemma fifo_size_bounds: "mm_config_ok cfg \<Longrightarrow> 0 < fifo_size cfg \<and> fifo_size cfg < 2 ^ 31"
  using power_increasing [of "fifo_shift cfg" 30 "2 :: nat"] by (simp add: mm_config_ok_def fifo_size_def)

section \<open>Steps that only move an endpoint\<close>

text \<open>What an endpoint does while it owns no element leaves the shared elements and the logs alone.\<close>

definition quiet :: "mm_state \<Rightarrow> mm_state \<Rightarrow> bool" where
  "quiet s s' \<longleftrightarrow> fifo_elems s' = fifo_elems s \<and> desc_mem s' = desc_mem s \<and> sent_log s' = sent_log s \<and> recv_log s' = recv_log s \<and>
     abandoned s' = abandoned s \<and> read_index s' = read_index s \<and> last_recv_desc s' = last_recv_desc s \<and> held_descs s' = held_descs s \<and>
     (\<forall>e. owned (at s' e) = owned (at s e) \<and> publishing (at s' e) = publishing (at s e))"

lemma quiet_complete: "quiet s s' \<Longrightarrow> complete s' = complete s"
  by (simp add: quiet_def complete_def fun_eq_iff)

lemma quiet_core:
  assumes "quiet s s'" "mm_inv cfg s"
  shows "owners_ok s'" "flags_ok cfg s'" "content_ok cfg s'" "log_ok s'" "descs_ok cfg s'"
  using assms(2) quiet_complete [OF assms(1)] assms(1)
  unfolding mm_inv_def owners_ok_def flags_ok_def content_ok_def log_ok_def descs_ok_def by (simp_all add: quiet_def)

lemma quiet_inv:
  assumes "quiet s s'" "mm_inv cfg s" "tails_ok cfg s'" "rx_ok s'"
  shows "mm_inv cfg s'"
  using quiet_core [OF assms(1,2)] assms(3,4) by (simp add: mm_inv_def)

text \<open>The receiver does not notice an endpoint that keeps the head and its own wake-up duty.\<close>

lemma rx_keep:
  assumes "rx_ok s" "quiet s s'" "rx_at s' = rx_at s" "fifo_head s' = fifo_head s" "sig_queue s \<le> sig_queue s'"
    "\<forall>e. pc_head (at s' e) = pc_head (at s e) \<or> pc_head (at s e) \<noteq> Some (enc (rd s) True) \<or> 0 < sig_queue s' \<or> rd s \<in> unsignalled s'"
    "unsignalled s \<subseteq> unsignalled s'"
  shows "rx_ok s'"
proof -
  have l: "recv_log s' = recv_log s" "sent_log s' = sent_log s" "abandoned s' = abandoned s" using assms(2) by (simp_all add: quiet_def)
  have w: "wake s'" if w: "wake s"
  proof (rule wakeE [OF w])
    fix e
    assume "pc_head (at s e) = Some (enc (rd s) True)"
    then show ?thesis using assms(6) [rule_format, of e] l wakeI [of s' e] by (auto simp: wake_def)
  qed (use l assms(4,5,7) in \<open>auto simp: wake_def\<close>)
  show ?thesis
    using assms(1,3,4) w quiet_complete [OF assms(2)] l unfolding rx_ok_def by (auto split: rx_pc.splits)
qed

lemma tails_okD:
  assumes "tails_ok cfg s"
  obtains a T where "fifo_head s = enc (hd_count s) a" "fifo_tail s = enc T False" "T \<le> rd s" "hd_count s \<le> T + fifo_size cfg"
    "\<And>e. \<exists>c. ep_cached_tail (mm_eps s e) = enc c False \<and> c \<le> T \<and> pc_ok cfg c (hd_count s) (at s e)"
  using assms unfolding tails_ok_def by blast

lemma tails_okI:
  assumes "fifo_head s = enc (hd_count s) a" "fifo_tail s = enc T False" "T \<le> rd s" "hd_count s \<le> T + fifo_size cfg"
    "\<And>e. \<exists>c. ep_cached_tail (mm_eps s e) = enc c False \<and> c \<le> T \<and> pc_ok cfg c (hd_count s) (at s e)"
  shows "tails_ok cfg s"
  using assms unfolding tails_ok_def by blast

text \<open>One endpoint moves: its new cached tail and program counter are all there is to check.\<close>

lemma ep_move:
  assumes inv: "mm_inv cfg s" and s': "s' = upd_ep e f s"
    and pcs: "owned (at s e) = None" "owned (ep_at (f (mm_eps s e))) = None" "publishing (ep_at (f (mm_eps s e))) = None"
      "pc_head (at s e) = pc_head (ep_at (f (mm_eps s e)))"
    and tail: "ep_cached_tail (f (mm_eps s e)) = ep_cached_tail (mm_eps s e) \<or> ep_cached_tail (f (mm_eps s e)) = fifo_tail s"
    and pc: "\<And>c. ep_cached_tail (f (mm_eps s e)) = enc c False \<Longrightarrow> c \<le> rd s \<Longrightarrow> hd_count s \<le> rd s + fifo_size cfg \<Longrightarrow>
      pc_ok cfg c (hd_count s) (ep_at (f (mm_eps s e)))"
  shows "mm_inv cfg s'"
proof -
  have pub: "publishing (at s e) = None" using pcs(1) by (cases "at s e") auto
  have q: "quiet s s'" using pcs pub by (simp add: quiet_def s' upd_ep_def)
  have "tails_ok cfg s" "rx_ok s" using inv by (simp_all add: mm_inv_def)
  from tails_okD [OF this(1)] obtain a T where t: "fifo_head s = enc (hd_count s) a" "fifo_tail s = enc T False" "T \<le> rd s"
    "hd_count s \<le> T + fifo_size cfg"
    "\<And>e. \<exists>c. ep_cached_tail (mm_eps s e) = enc c False \<and> c \<le> T \<and> pc_ok cfg c (hd_count s) (at s e)" by metis
  have "\<exists>c. ep_cached_tail (f (mm_eps s e)) = enc c False \<and> c \<le> T" using tail t(2) t(5) [of e] by auto
  then obtain c where c: "ep_cached_tail (f (mm_eps s e)) = enc c False" "c \<le> T" by blast
  have "pc_ok cfg c (hd_count s) (ep_at (f (mm_eps s e)))" using pc [OF c(1)] c(2) t(3,4) by simp
  then have "tails_ok cfg s'"
    using t c by (intro tails_okI [of s' a T]) (auto simp: s' upd_ep_def)
  moreover have "rx_ok s'" by (rule rx_keep [OF \<open>rx_ok s\<close> q]) (use pcs(4) in \<open>simp_all add: s' upd_ep_def\<close>)
  ultimately show ?thesis by (rule quiet_inv [OF q inv])
qed

lemmas ep_ops = mm_ep_init_def uct_mm_ep_am_short_def uct_mm_ep_am_short_iov_def uct_mm_ep_am_bcopy_def go_def return_with_def
  uct_mm_ep_no_resources_handle_def uct_mm_ep_update_cached_tail_def Let_def

lemma upd_ep_upd_ep: "upd_ep e f (upd_ep e g s) = upd_ep e (\<lambda>ep. f (g ep)) s"
  by (simp add: upd_ep_def)

lemma upd_ep_id: "upd_ep e (\<lambda>ep. ep) s = s"
  by (simp add: upd_ep_def)

lemma idle_inv:
  assumes "mm_inv cfg s" "at s e = Idle" "\<forall>ep. ep_at ep = Idle \<longrightarrow> (\<exists>m. ep_at (f ep) = Idle \<or> ep_at (f ep) = Load m)"
    "\<forall>ep. ep_cached_tail (f ep) = ep_cached_tail ep \<or> ep_cached_tail (f ep) = fifo_tail s"
  shows "mm_inv cfg (upd_ep e f s)"
  by (rule ep_move [OF assms(1) refl]) (use assms(2-4) in \<open>fastforce+\<close>)

lemma start_inv:
  assumes "mm_inv cfg s" "at s e = Idle"
  shows "mm_inv cfg (mm_ep_init s e)" "mm_inv cfg (uct_mm_ep_am_short cfg s e i h p)" "mm_inv cfg (uct_mm_ep_am_short_iov cfg s e i iov)"
    "mm_inv cfg (uct_mm_ep_am_bcopy s e i b)" "mm_inv cfg (upd_ep e (\<lambda>ep. ep\<lparr>ep_group_nonempty := v\<rparr>) s)"
    "mm_inv cfg (uct_mm_ep_update_cached_tail s e)"
  by (auto simp: ep_ops intro!: idle_inv [OF assms])

lemma load_inv:
  assumes inv: "mm_inv cfg s" and at: "at s e = Load m" and cfg: "mm_config_ok cfg" and H: "hd_count s < 2 ^ 31"
  shows "mm_inv cfg (send_load cfg s e m)"
proof -
  obtain a where h: "fifo_head s = enc (hd_count s) a" using inv by (auto simp: mm_inv_def tails_ok_def)
  have le: "rd s \<le> hd_count s" using inv by (simp add: mm_inv_def log_ok_def)
  have cas: "mm_inv cfg (go e (Cas m (fifo_head s)) s)"
    if able: "UCT_MM_EP_IS_ABLE_TO_SEND (fifo_head s) (ep_cached_tail (mm_eps s e)) (fifo_size cfg)"
    unfolding go_def
  proof (rule ep_move [OF inv refl])
    fix c
    assume c: "ep_cached_tail (mm_eps s e\<lparr>ep_at := Cas m (fifo_head s)\<rparr>) = enc c False" "c \<le> rd s"
    have "hd_count s - c < fifo_size cfg"
      using able able_iff [of c "hd_count s" "fifo_size cfg" a] c le H fifo_size_bounds [OF cfg] by (simp add: h)
    then show "pc_ok cfg c (hd_count s) (ep_at (mm_eps s e\<lparr>ep_at := Cas m (fifo_head s)\<rparr>))" using h by auto
  qed (use at in simp_all)
  have "mm_inv cfg (uct_mm_ep_no_resources_handle s e)"
    unfolding ep_ops by (rule ep_move [OF inv refl]) (use at in simp_all)
  moreover have "mm_inv cfg (go e (Retail m (fifo_head s)) s)"
    unfolding go_def by (rule ep_move [OF inv refl]) (use at h in auto)
  ultimately show ?thesis using cas by (simp add: send_load_def Let_def)
qed

lemma retail_inv:
  assumes inv: "mm_inv cfg s" and at: "at s e = Retail m h" and cfg: "mm_config_ok cfg" and H: "hd_count s < 2 ^ 31"
  shows "mm_inv cfg (send_retail cfg s e m h)"
proof -
  obtain j a where h: "h = enc j a" "j \<le> hd_count s" using inv at by (auto simp: mm_inv_def tails_ok_def) (metis pc_ok.simps(1))
  have cas: "mm_inv cfg (go e (Cas m h) (uct_mm_ep_update_cached_tail s e))"
    if able: "UCT_MM_EP_IS_ABLE_TO_SEND h (fifo_tail s) (fifo_size cfg)"
    unfolding go_def uct_mm_ep_update_cached_tail_def upd_ep_upd_ep
  proof (rule ep_move [OF inv refl])
    fix c
    assume c: "ep_cached_tail (mm_eps s e\<lparr>ep_cached_tail := fifo_tail s, ep_at := Cas m h\<rparr>) = enc c False" "c \<le> rd s"
    have "j < c + fifo_size cfg"
    proof (cases "c \<le> j")
      case True
      then show ?thesis
        using able able_iff [of c j "fifo_size cfg" a] c h H fifo_size_bounds [OF cfg] by simp
    qed (use fifo_size_bounds [OF cfg] in simp)
    then show "pc_ok cfg c (hd_count s) (ep_at (mm_eps s e\<lparr>ep_cached_tail := fifo_tail s, ep_at := Cas m h\<rparr>))" using h by auto
  qed (use at in simp_all)
  have "mm_inv cfg (uct_mm_ep_no_resources_handle (upd_ep e (\<lambda>ep. ep\<lparr>ep_group_nonempty := True\<rparr>) (uct_mm_ep_update_cached_tail s e)) e)"
    unfolding ep_ops upd_ep_upd_ep by (rule ep_move [OF inv refl]) (use at in simp_all)
  then show ?thesis using cas by (auto simp: send_retail_def Let_def uct_mm_ep_update_cached_tail_def upd_ep_def)
qed

section \<open>Taking an element\<close>

lemma cas_fail_inv:
  assumes inv: "mm_inv cfg s" and at: "at s e = Cas m h"
  shows "mm_inv cfg (go e (Load m) s)"
  unfolding go_def by (rule ep_move [OF inv refl]) (use at in simp_all)

lemma cas_inv:
  assumes inv: "mm_inv cfg s" and at: "at s e = Cas m h" and H: "Suc (hd_count s) < 2 ^ 31" and hd: "fifo_head s = h"
  defines "s' \<equiv> go e (Write m h) (s\<lparr>fifo_head := (h + 1) AND NOT UCT_MM_IFACE_FIFO_HEAD_EVENT_ARMED, sent_log := sent_log s @ [m]\<rparr>)"
  shows "mm_inv cfg s'"
proof -
  have i: "owners_ok s" "flags_ok cfg s" "content_ok cfg s" "log_ok s" "descs_ok cfg s" "tails_ok cfg s" "rx_ok s"
    using inv by (simp_all add: mm_inv_def)
  let ?H = "hd_count s"
  from tails_okD [OF i(6)] obtain a T where t: "fifo_head s = enc ?H a" "fifo_tail s = enc T False" "T \<le> rd s" "?H \<le> T + fifo_size cfg"
    "\<And>e. \<exists>c. ep_cached_tail (mm_eps s e) = enc c False \<and> c \<le> T \<and> pc_ok cfg c ?H (at s e)" by metis
  have b: "?H < 2 ^ 63" "?H + 1 < 2 ^ 63" using H by simp_all
  have h: "h = enc ?H a" using t(1) hd by simp
  have ix: "idx h = ?H" using b h by simp
  have room: "?H < T + fifo_size cfg"
  proof -
    obtain c j a' where c: "c \<le> T" "h = enc j a'" "j \<le> ?H" "j < c + fifo_size cfg" using t(5) [of e] at by auto
    have "j < 2 ^ 63" using c(3) b by simp
    then have "j = ?H" using c(2) h b enc_eq_iff by metis
    then show ?thesis using c by simp
  qed
  have f: "fifo_elems s' = fifo_elems s" "desc_mem s' = desc_mem s" "sent_log s' = sent_log s @ [m]" "recv_log s' = recv_log s"
    "abandoned s' = abandoned s" "read_index s' = read_index s" "last_recv_desc s' = last_recv_desc s" "held_descs s' = held_descs s"
    "fifo_tail s' = fifo_tail s" "rx_at s' = rx_at s" "sig_queue s' = sig_queue s" "fifo_head s' = enc (?H + 1) False"
    "ep_cached_tail (mm_eps s' x) = ep_cached_tail (mm_eps s x)" "at s' x = (if x = e then Write m h else at s x)" "unsignalled s' = unsignalled s" for x
    using enc_next [OF b(2)] by (simp_all add: s'_def go_def upd_ep_def h)
  have lo: "rd s \<le> ?H" "?H \<notin> abandoned s" using i(4) by (auto simp: log_ok_def)
  have old: "owned (at s x) = Some (m', h') \<Longrightarrow> \<exists>j a. h' = enc j a \<and> rd s \<le> j \<and> j < ?H \<and> sent_log s ! j = m' \<and> j \<notin> abandoned s" for x m' h'
    using i(1) unfolding owners_ok_def by blast
  have oldi: "owned (at s x) = Some (m', h') \<Longrightarrow> idx h' < ?H" for x m' h'
    using old [of x m' h'] b by (auto simp: idx_enc)
  have comp: "complete s' j = complete s j" for j
  proof (cases "j = ?H")
    case True
    then show ?thesis using ix by (auto simp: complete_def f)
  next
    case False
    have "(\<forall>x m' h'. owned (at s' x) = Some (m', h') \<longrightarrow> idx h' \<noteq> j) \<longleftrightarrow> (\<forall>x m' h'. owned (at s x) = Some (m', h') \<longrightarrow> idx h' \<noteq> j)"
    proof (intro iffI allI impI)
      fix x m' h'
      assume A: "\<forall>x m' h'. owned (at s' x) = Some (m', h') \<longrightarrow> idx h' \<noteq> j" and o: "owned (at s x) = Some (m', h')"
      then have "x \<noteq> e" using at by auto
      then show "idx h' \<noteq> j" using A [rule_format, of x m' h'] o by (simp add: f(14))
    next
      fix x m' h'
      assume A: "\<forall>x m' h'. owned (at s x) = Some (m', h') \<longrightarrow> idx h' \<noteq> j" and o: "owned (at s' x) = Some (m', h')"
      then show "idx h' \<noteq> j" using A [rule_format, of x m' h'] ix False by (cases "x = e") (simp_all add: f(14))
    qed
    then show ?thesis using False by (auto simp: complete_def f(3,5) less_Suc_eq)
  qed
  have "owners_ok s'"
    unfolding owners_ok_def
  proof (intro conjI allI impI)
    fix x m' h'
    assume "owned (at s' x) = Some (m', h')"
    then show "\<exists>j a. h' = enc j a \<and> rd s' \<le> j \<and> j < hd_count s' \<and> sent_log s' ! j = m' \<and> j \<notin> abandoned s'"
      using old [of x m' h'] lo h by (cases "x = e") (auto simp: f nth_append)
  next
    fix x y m1 m2 h1 h2
    assume o: "owned (at s' x) = Some (m1, h1)" "owned (at s' y) = Some (m2, h2)" "idx h1 = idx h2"
    then show "x = y"
      using oldi [of x m1 h1] oldi [of y m2 h2] i(1) ix unfolding owners_ok_def by (auto simp: f split: if_splits)
  qed
  moreover have "flags_ok cfg s'" using i(2) by (simp add: flags_ok_def f comp)
  moreover have "content_ok cfg s'"
  proof -
    have "complete s j \<Longrightarrow> j < ?H" for j by (simp add: complete_def)
    then show ?thesis using i(3) unfolding content_ok_def comp by (auto simp: f nth_append)
  qed
  moreover have "log_ok s'" using i(4) by (auto simp: log_ok_def f nth_append)
  moreover have "descs_ok cfg s'" using i(5) by (simp add: descs_ok_def f)
  moreover have "tails_ok cfg s'"
  proof (rule tails_okI [of s' False T])
    fix x
    obtain c where c: "ep_cached_tail (mm_eps s x) = enc c False" "c \<le> T" "pc_ok cfg c ?H (at s x)" using t(5) by blast
    then have "pc_ok cfg c (hd_count s') (at s' x)" by (cases "at s x") (auto simp: f intro: le_SucI)
    then show "\<exists>c. ep_cached_tail (mm_eps s' x) = enc c False \<and> c \<le> T \<and> pc_ok cfg c (hd_count s') (at s' x)"
      using c by (auto simp: f)
  qed (use t room in \<open>simp_all add: f\<close>)
  moreover have "rx_ok s'"
  proof -
    have "wake s'" if w: "wake s"
    proof (rule wakeE [OF w])
      assume "fifo_head s = enc (rd s) True"
      then have "pc_head (at s' e) = Some (enc (rd s') True)" using hd by (simp add: f)
      then show ?thesis by (rule wakeI)
    next
      fix x
      assume "pc_head (at s x) = Some (enc (rd s) True)"
      then have "pc_head (at s' x) = Some (enc (rd s') True)" using at by (cases "x = e") (simp_all add: f)
      then show ?thesis by (rule wakeI)
    qed (simp_all add: wake_def f)
    then show ?thesis using i(7) unfolding rx_ok_def by (auto simp: f comp split: rx_pc.splits)
  qed
  ultimately show ?thesis by (simp add: mm_inv_def)
qed

section \<open>Filling an element\<close>

lemma slot_neq:
  assumes "r \<le> i" "i < r + n" "r \<le> j" "j < r + n" "i \<noteq> (j :: nat)"
  shows "i mod n \<noteq> j mod n"
proof (rule ccontr)
  assume "\<not> i mod n \<noteq> j mod n"
  then have "n dvd max i j - min i j"
    using mod_eq_dvd_iff_nat [of i j n] mod_eq_dvd_iff_nat [of j i n] by (auto simp: max_def min_def)
  moreover have "0 < max i j - min i j" "max i j - min i j < n" using assms by auto
  ultimately show False using nat_dvd_not_less by blast
qed

text \<open>Facts about an endpoint that owns an element, used by the next steps.\<close>

lemma owner_facts:
  assumes inv: "mm_inv cfg s" and o: "owned (at s e) = Some (m, h)" and cfg: "mm_config_ok cfg" and H: "hd_count s < 2 ^ 31"
  defines "j \<equiv> idx h"
  shows "\<exists>a. h = enc j a" "rd s \<le> j" "j < hd_count s" "sent_log s ! j = m" "j \<notin> abandoned s" "j < 2 ^ 63"
    "elem_index cfg h = j mod fifo_size cfg" "j mod fifo_size cfg < length (fifo_elems s)" "\<not> complete s j"
    "\<And>x m' h'. owned (at s x) = Some (m', h') \<Longrightarrow> x \<noteq> e \<Longrightarrow> idx h' \<noteq> j"
    "\<And>k. rd s \<le> k \<Longrightarrow> k < rd s + fifo_size cfg \<Longrightarrow> k \<noteq> j \<Longrightarrow> k mod fifo_size cfg \<noteq> j mod fifo_size cfg"
    "hd_count s \<le> rd s + fifo_size cfg"
proof -
  have i: "owners_ok s" "tails_ok cfg s" "descs_ok cfg s" using inv by (simp_all add: mm_inv_def)
  obtain j' a where j': "h = enc j' a" "rd s \<le> j'" "j' < hd_count s" "sent_log s ! j' = m" "j' \<notin> abandoned s"
    using i(1) o unfolding owners_ok_def by blast
  have j63: "j' < 2 ^ 63" using j'(3) H by simp
  have [simp]: "j' = j" using j'(1) j63 by (simp add: j_def)
  show "\<exists>a. h = enc j a" "rd s \<le> j" "j < hd_count s" "sent_log s ! j = m" "j \<notin> abandoned s" "j < 2 ^ 63" using j' j63 by auto
  show top: "hd_count s \<le> rd s + fifo_size cfg" using i(2) by (auto simp: tails_ok_def)
  show "elem_index cfg h = j mod fifo_size cfg"
    using enc_index [OF j63] cfg j'(1) by (simp add: mm_config_ok_def)
  show "j mod fifo_size cfg < length (fifo_elems s)" using i(3) fifo_size_bounds [OF cfg] by (simp add: descs_ok_def)
  show "\<not> complete s j" using o unfolding complete_def j_def by blast
  show "idx h' \<noteq> j" if "owned (at s x) = Some (m', h')" "x \<noteq> e" for x m' h'
    using i(1) o that unfolding owners_ok_def j_def by blast
  show "k mod fifo_size cfg \<noteq> j mod fifo_size cfg" if "rd s \<le> k" "k < rd s + fifo_size cfg" "k \<noteq> j" for k
    using slot_neq [of "rd s" k "fifo_size cfg" j] that j' top by simp
qed

lemma write_inv:
  assumes inv: "mm_inv cfg s" and at: "at s e = Write m h" and cfg: "mm_config_ok cfg" and H: "hd_count s < 2 ^ 31"
    and f: "fifo_elems s' = (fifo_elems s)[elem_index cfg h := el']" "sent_log s' = sent_log s" "recv_log s' = recv_log s" "abandoned s' = abandoned s"
      "read_index s' = read_index s" "last_recv_desc s' = last_recv_desc s" "held_descs s' = held_descs s" "fifo_tail s' = fifo_tail s"
      "rx_at s' = rx_at s" "sig_queue s' = sig_queue s" "fifo_head s' = fifo_head s"
      "\<And>x. ep_cached_tail (mm_eps s' x) = ep_cached_tail (mm_eps s x)" "\<And>x. at s' x = (if x = e then Publish m h (op_flags m) else at s x)" "unsignalled s' = unsignalled s"
    and el: "el_flags el' = el_flags (fifo_elems s ! elem_index cfg h)" "el_desc el' = el_desc (fifo_elems s ! elem_index cfg h)"
      "\<And>d. d \<noteq> el_desc el' \<Longrightarrow> desc_mem s' d = desc_mem s d" "el_wire (desc_mem s') el' (is_bcopy (msg_op m)) = wire m"
  shows "mm_inv cfg s'"
proof -
  have i: "owners_ok s" "flags_ok cfg s" "content_ok cfg s" "log_ok s" "descs_ok cfg s" "tails_ok cfg s" "rx_ok s"
    using inv by (simp_all add: mm_inv_def)
  have o: "owned (at s e) = Some (m, h)" using at by simp
  let ?j = "idx h"
  note j = owner_facts [OF inv o cfg H]
  have own: "owned (at s' x) = owned (at s x)" for x using o by (simp add: f(13))
  have comp: "complete s' = complete s" by (rule ext) (simp only: complete_def own f(2,4))
  have flag: "el_flags (fifo_elems s' ! k) = el_flags (fifo_elems s ! k)" if "k < length (fifo_elems s)" for k
    using that el(1) by (cases "k = elem_index cfg h") (simp_all add: f(1))
  have desc: "map el_desc (fifo_elems s') = map el_desc (fifo_elems s)"
    using el(2) j(7,8) by (simp add: f(1) map_update) (metis list_update_id nth_map)
  have keep: "slot cfg s' k = slot cfg s k" "el_wire (desc_mem s') (slot cfg s k) bc = el_wire (desc_mem s) (slot cfg s k) bc"
    if "rd s \<le> k" "k < hd_count s" "k \<noteq> ?j" for k bc
  proof -
    have n: "k mod fifo_size cfg \<noteq> ?j mod fifo_size cfg" using j(11,12) that by simp
    then show "slot cfg s' k = slot cfg s k" by (simp add: f(1) j(7))
    have "k mod fifo_size cfg < length (fifo_elems s)" using i(5) fifo_size_bounds [OF cfg] by (simp add: descs_ok_def)
    then have "el_desc (slot cfg s k) \<noteq> el_desc (slot cfg s ?j)"
      using n j(8) i(5) nth_eq_iff_index_eq [of "map el_desc (fifo_elems s)"] by (auto simp: descs_ok_def)
    then show "el_wire (desc_mem s') (slot cfg s k) bc = el_wire (desc_mem s) (slot cfg s k) bc"
      using el(2,3) j(7) by (simp add: el_wire_def)
  qed
  have "owners_ok s'" using i(1) unfolding owners_ok_def own f(2-4) .
  moreover have "flags_ok cfg s'"
    using i(2) flag i(5) fifo_size_bounds [OF cfg] unfolding flags_ok_def comp by (simp add: f(3) descs_ok_def)
  moreover have "content_ok cfg s'"
    unfolding content_ok_def
  proof (intro conjI allI impI)
    fix k
    assume k: "rd s' \<le> k" "complete s' k"
    then have k': "rd s \<le> k" "complete s k" "k < hd_count s" "k \<noteq> ?j" using comp f j(9) by (auto simp: complete_def)
    show "(el_flags (slot cfg s' k) AND UCT_MM_FIFO_ELEM_FLAG_INLINE = 0) = is_bcopy (msg_op (sent_log s' ! k))"
      "el_wire (desc_mem s') (slot cfg s' k) (is_bcopy (msg_op (sent_log s' ! k))) = wire (sent_log s' ! k)"
      using i(3) k' unfolding keep [OF k'(1,3,4)] f(2) content_ok_def by simp_all
  next
    fix x m' h' fl
    assume p: "publishing (at s' x) = Some (m', h', fl)"
    show "fl = op_flags m'"
      using p i(3) unfolding content_ok_def by (cases "x = e") (auto simp: f(13))
    show "el_wire (desc_mem s') (slot cfg s' (idx h')) (is_bcopy (msg_op m')) = wire m'"
    proof (cases "x = e")
      case True
      then show ?thesis using p el(4) j(7,8) by (auto simp: f(1,13))
    next
      case False
      then have p': "publishing (at s x) = Some (m', h', fl)" using p by (simp add: f(13))
      then have ox: "owned (at s x) = Some (m', h')" by (rule publishing_owned)
      obtain k b where k: "h' = enc k b" "rd s \<le> k" "k < hd_count s" using i(1) ox unfolding owners_ok_def by blast
      have kx: "idx h' = k" using k(1,3) H by simp
      have kj: "k \<noteq> ?j" using j(10) [OF ox False] kx by simp
      then show ?thesis
        using i(3) p' unfolding kx keep [OF k(2,3) kj] content_ok_def by (metis kx)
    qed
  qed
  moreover have "log_ok s'" using i(4) by (simp add: log_ok_def f)
  moreover have "descs_ok cfg s'"
    using i(5) desc unfolding descs_ok_def f(6,7) by (simp add: f(1)) (metis desc f(1) list.set_map)
  moreover have "tails_ok cfg s'"
  proof -
    have "pc_ok cfg c H (at s' x)" if "pc_ok cfg c H (at s x)" for c H x using that by (cases "x = e") (simp_all add: f(13))
    then show ?thesis using i(6) unfolding tails_ok_def by (simp add: f(2,3,8,11,12)) blast
  qed
  moreover have "rx_ok s'"
  proof -
    have ph: "pc_head (at s' x) = pc_head (at s x)" for x using at by (simp add: f(13))
    then have "wake s' = wake s" by (simp add: wake_def f(3,4,10,11,14))
    then show ?thesis using i(7) unfolding rx_ok_def comp by (simp add: f(2,3,9,11) cong: rx_pc.case_cong)
  qed
  ultimately show ?thesis by (simp add: mm_inv_def)
qed

lemma take_wire: "take (unat (of_nat (length xs) :: u16)) (xs @ ys) = take (unat (of_nat (length xs) :: u16)) xs"
  by (simp add: unat_of_nat take_bit_eq_mod)

lemma abandon_inv:
  fixes r :: int
  assumes inv: "mm_inv cfg s" and at: "at s e = Write m h" and cfg: "mm_config_ok cfg" and H: "hd_count s < 2 ^ 31"
  defines "s' \<equiv> return_with e r (s\<lparr>abandoned := insert (idx h) (abandoned s)\<rparr>)"
  shows "mm_inv cfg s'"
proof -
  have i: "owners_ok s" "flags_ok cfg s" "content_ok cfg s" "log_ok s" "descs_ok cfg s" "tails_ok cfg s" "rx_ok s"
    using inv by (simp_all add: mm_inv_def)
  have o: "owned (at s e) = Some (m, h)" using at by simp
  note j = owner_facts [OF inv o cfg H]
  have f: "fifo_elems s' = fifo_elems s" "desc_mem s' = desc_mem s" "sent_log s' = sent_log s" "recv_log s' = recv_log s"
    "abandoned s' = insert (idx h) (abandoned s)" "read_index s' = read_index s" "last_recv_desc s' = last_recv_desc s" "held_descs s' = held_descs s"
    "fifo_tail s' = fifo_tail s" "rx_at s' = rx_at s" "sig_queue s' = sig_queue s" "fifo_head s' = fifo_head s"
    "ep_cached_tail (mm_eps s' x) = ep_cached_tail (mm_eps s x)" "at s' x = (if x = e then Idle else at s x)" "unsignalled s' = unsignalled s" for x
    by (simp_all add: s'_def return_with_def upd_ep_def)
  have own: "owned (at s' x) = Some (m', h') \<longleftrightarrow> x \<noteq> e \<and> owned (at s x) = Some (m', h')" for x m' h' by (simp add: f(14))
  have pub: "publishing (at s' x) = publishing (at s x)" for x using at by (simp add: f(14))
  have comp: "complete s' k = complete s k" for k
  proof (cases "k = idx h")
    case True
    then show ?thesis using j(9) by (simp add: complete_def f(5))
  next
    case False
    then have "(\<forall>x m' h'. owned (at s' x) = Some (m', h') \<longrightarrow> idx h' \<noteq> k) \<longleftrightarrow> (\<forall>x m' h'. owned (at s x) = Some (m', h') \<longrightarrow> idx h' \<noteq> k)"
      unfolding own using o by (metis Pair_inject option.inject)
    then show ?thesis using False by (simp add: complete_def f(3,5))
  qed
  have "owners_ok s'"
    unfolding owners_ok_def own f(3,4,5)
  proof (intro conjI allI impI, goal_cases)
    case (1 x m' h')
    then show ?case using owner_facts(1-5) [OF inv _ cfg H, of x m' h'] j(10) [of x m' h'] by blast
  next
    case (2 x y m1 m2 h1 h2)
    then show ?case using i(1) unfolding owners_ok_def by blast
  qed
  moreover have "flags_ok cfg s'" using i(2) unfolding flags_ok_def comp f(1,4) .
  moreover have "content_ok cfg s'" using i(3) unfolding content_ok_def comp pub f(1,2,3,4) .
  moreover have "log_ok s'" using i(4) j(2,3) by (auto simp: log_ok_def f)
  moreover have "descs_ok cfg s'" using i(5) by (simp add: descs_ok_def f)
  moreover have "tails_ok cfg s'"
  proof -
    have "pc_ok cfg c H (at s' x)" if "pc_ok cfg c H (at s x)" for c H x using that by (cases "x = e") (simp_all add: f(14))
    then show ?thesis using i(6) unfolding tails_ok_def by (simp add: f(3,4,9,12,13)) blast
  qed
  moreover have "rx_ok s'"
  proof -
    have "wake s'" if w: "wake s"
    proof (rule wakeE [OF w])
      fix x
      assume p: "pc_head (at s x) = Some (enc (rd s) True)"
      show ?thesis
      proof (cases "x = e")
        case True
        then have "h = enc (rd s) True" using p at by simp
        moreover have "rd s < 2 ^ 63" using i(4) H by (simp add: log_ok_def)
        ultimately have "idx h = rd s" by simp
        then show ?thesis by (simp add: wake_def f)
      next
        case False
        then show ?thesis using p wakeI [of s' x] by (simp add: f(4,14))
      qed
    qed (simp_all add: wake_def f)
    then show ?thesis using i(7) comp unfolding rx_ok_def by (auto simp: f(3,4,10,12) split: rx_pc.splits)
  qed
  ultimately show ?thesis by (simp add: mm_inv_def)
qed

lemma step_write_inv:
  assumes inv: "mm_inv cfg s" and at: "at s e = Write m h" and cfg: "mm_config_ok cfg" and H: "hd_count s < 2 ^ 31"
  shows "mm_inv cfg (send_write cfg seg_status s e m h)"
proof -
  let ?el = "fifo_elems s ! elem_index cfg h" and ?d = "send_payload (msg_op m)"
  let ?el' = "\<lambda>inl. ?el\<lparr>el_length := of_nat (length ?d), el_am_id := msg_id m,
    el_inline := (if inl then ?d @ drop (length ?d) (el_inline ?el) else el_inline ?el)\<rparr>"
  have len: "elem_index cfg h < length (fifo_elems s)" using owner_facts(7,8) [OF inv _ cfg H, of e m h] at by simp
  note defs = send_write_def Let_def go_def upd_ep_def upd_elem_def op_flags_def
  consider bs where "msg_op m = UCT_MM_SEND_AM_BCOPY bs" "seg_status e (el_desc ?el) = UCS_OK"
    | bs where "msg_op m = UCT_MM_SEND_AM_BCOPY bs" "seg_status e (el_desc ?el) \<noteq> UCS_OK"
    | "\<not> is_bcopy (msg_op m)" by (cases "msg_op m") auto
  then show ?thesis
  proof cases
    case (1 bs)
    have w: "el_wire ((desc_mem s)(el_desc ?el := ?d @ drop (length ?d) (desc_mem s (el_desc ?el)))) (?el' False) (is_bcopy (msg_op m)) = wire m"
      using 1 take_wire [of ?d] by (simp add: el_wire_def wire_def del: take_append)
    show ?thesis
      by (rule write_inv [OF inv at cfg H, where el' = "?el' False"]) (use 1 w in \<open>simp_all add: defs\<close>)
  next
    case (2 bs)
    then show ?thesis using abandon_inv [OF inv at cfg H] by (simp add: send_write_def Let_def idx_def)
  next
    case 3
    have w: "el_wire (desc_mem s) (?el' True) (is_bcopy (msg_op m)) = wire m"
      using 3 take_wire [of ?d] by (simp add: el_wire_def wire_def del: take_append)
    show ?thesis
      by (rule write_inv [OF inv at cfg H, where el' = "?el' True"])
        (use 3 w in \<open>auto simp: defs split: uct_mm_send_op.splits\<close>)
  qed
qed

section \<open>Publishing and signalling\<close>

lemma op_flags_bits:
  "bit (op_flags m OR UCT_MM_FIFO_ELEM_FLAG_OWNER) 0" "\<not> bit (op_flags m) 0"
  "(op_flags m OR UCT_MM_FIFO_ELEM_FLAG_OWNER) AND UCT_MM_FIFO_ELEM_FLAG_INLINE = 0 \<longleftrightarrow> is_bcopy (msg_op m)"
  "op_flags m AND UCT_MM_FIFO_ELEM_FLAG_INLINE = 0 \<longleftrightarrow> is_bcopy (msg_op m)"
  by (simp_all add: op_flags_def UCT_MM_FIFO_ELEM_FLAG_OWNER_def UCT_MM_FIFO_ELEM_FLAG_INLINE_def)

lemma publish_inv:
  assumes inv: "mm_inv cfg s" and at: "at s e = Publish m h fl" and cfg: "mm_config_ok cfg" and H: "hd_count s < 2 ^ 31"
  defines "s' \<equiv> send_publish cfg s e m h fl"
  shows "mm_inv cfg s'"
proof -
  have i: "owners_ok s" "flags_ok cfg s" "content_ok cfg s" "log_ok s" "descs_ok cfg s" "tails_ok cfg s" "rx_ok s"
    using inv by (simp_all add: mm_inv_def)
  have o: "owned (at s e) = Some (m, h)" and p: "publishing (at s e) = Some (m, h, fl)" using at by simp_all
  let ?j = "idx h"
  note j = owner_facts [OF inv o cfg H]
  define nf where "nf = (if h AND of_nat (fifo_size cfg) \<noteq> 0 then fl OR UCT_MM_FIFO_ELEM_FLAG_OWNER else fl)"
  define el' where "el' = (slot cfg s ?j)\<lparr>el_flags := nf\<rparr>"
  have fl: "fl = op_flags m" "el_wire (desc_mem s) (slot cfg s ?j) (is_bcopy (msg_op m)) = wire m"
    using i(3) p unfolding content_ok_def by blast+
  have ow: "h AND of_nat (fifo_size cfg) \<noteq> 0 \<longleftrightarrow> odd (?j div fifo_size cfg)"
  proof -
    obtain a where a: "h = enc ?j a" using j(1) by blast
    have "fifo_shift cfg \<le> 31" using cfg by (simp add: mm_config_ok_def)
    from enc_owner [OF j(6) this, of a] show ?thesis unfolding a [symmetric] .
  qed
  have nf: "bit nf 0 \<longleftrightarrow> odd (?j div fifo_size cfg)" "nf AND UCT_MM_FIFO_ELEM_FLAG_INLINE = 0 \<longleftrightarrow> is_bcopy (msg_op m)"
    using ow op_flags_bits [of m] by (auto simp: nf_def fl(1))
  have f: "fifo_elems s' = (fifo_elems s)[?j mod fifo_size cfg := el']" "desc_mem s' = desc_mem s" "sent_log s' = sent_log s" "recv_log s' = recv_log s"
    "abandoned s' = abandoned s" "read_index s' = read_index s" "last_recv_desc s' = last_recv_desc s" "held_descs s' = held_descs s"
    "fifo_tail s' = fifo_tail s" "rx_at s' = rx_at s" "sig_queue s' = sig_queue s" "fifo_head s' = fifo_head s"
    "ep_cached_tail (mm_eps s' x) = ep_cached_tail (mm_eps s x)" "at s' x = (if x = e then Signal m h else at s x)" "unsignalled s' = unsignalled s" for x
    by (simp_all add: s'_def send_publish_def go_def upd_ep_def upd_elem_def el'_def nf_def j(7))
  have own: "owned (at s' x) = Some (m', h') \<longleftrightarrow> x \<noteq> e \<and> owned (at s x) = Some (m', h')" for x m' h' by (simp add: f(14))
  have pub: "publishing (at s' x) = Some y \<longleftrightarrow> x \<noteq> e \<and> publishing (at s x) = Some y" for x y by (simp add: f(14))
  have slot': "slot cfg s' k = (if k = ?j then el' else slot cfg s k)" if "rd s \<le> k" "k < rd s + fifo_size cfg" for k
    using j(8) j(11) [OF that] by (auto simp: f(1))
  have comp: "complete s' k \<longleftrightarrow> k = ?j \<or> complete s k" for k
  proof (cases "k = ?j")
    case True
    then show ?thesis using j(3,5,10) by (auto simp: complete_def own f(3,5))
  next
    case False
    have "(\<forall>x m' h'. owned (at s' x) = Some (m', h') \<longrightarrow> idx h' \<noteq> k) \<longleftrightarrow> (\<forall>x m' h'. owned (at s x) = Some (m', h') \<longrightarrow> idx h' \<noteq> k)"
      unfolding own using o False by (metis Pair_inject option.inject)
    then show ?thesis using False by (simp add: complete_def f(3,5))
  qed
  have rng: "k < rd s + fifo_size cfg" if "complete s k" for k using that j(12) by (auto simp: complete_def)
  have desc: "map el_desc (fifo_elems s') = map el_desc (fifo_elems s)"
    using j(8) by (simp add: f(1) el'_def map_update) (metis list_update_id nth_map)
  have "owners_ok s'"
    unfolding owners_ok_def own f(3,4,5)
  proof (intro conjI allI impI, goal_cases)
    case (1 x m' h')
    then show ?case using owner_facts(1-5) [OF inv _ cfg H, of x m' h'] by blast
  next
    case (2 x y m1 m2 h1 h2)
    then show ?case using i(1) unfolding owners_ok_def by blast
  qed
  moreover have "flags_ok cfg s'"
    unfolding flags_ok_def f(4)
  proof (intro allI impI)
    fix k
    assume k: "rd s \<le> k" "k < rd s + fifo_size cfg"
    show "((bit (el_flags (slot cfg s' k)) 0 \<longleftrightarrow> odd (k div fifo_size cfg)) \<longleftrightarrow> complete s' k)"
      using i(2) [unfolded flags_ok_def, rule_format, OF k] nf(1) unfolding slot' [OF k] comp by (simp add: el'_def)
  qed
  moreover have "content_ok cfg s'"
    unfolding content_ok_def f(2,3,4)
  proof (intro conjI allI impI)
    fix k
    assume k: "rd s \<le> k" "complete s' k"
    then have k': "k < rd s + fifo_size cfg" using j(3,12) rng comp by auto
    have old: "complete s k \<Longrightarrow> (el_flags (slot cfg s k) AND UCT_MM_FIFO_ELEM_FLAG_INLINE = 0) = is_bcopy (msg_op (sent_log s ! k)) \<and>
      el_wire (desc_mem s) (slot cfg s k) (is_bcopy (msg_op (sent_log s ! k))) = wire (sent_log s ! k)"
      using i(3) k(1) unfolding content_ok_def by blast
    show "(el_flags (slot cfg s' k) AND UCT_MM_FIFO_ELEM_FLAG_INLINE = 0) = is_bcopy (msg_op (sent_log s ! k))"
      "el_wire (desc_mem s) (slot cfg s' k) (is_bcopy (msg_op (sent_log s ! k))) = wire (sent_log s ! k)"
      using k(2) old nf(2) fl(2) j(4) unfolding slot' [OF k(1) k'] comp by (auto simp: el'_def el_wire_def)
  next
    fix x m' h' fl'
    assume "publishing (at s' x) = Some (m', h', fl')"
    then have x: "x \<noteq> e" "publishing (at s x) = Some (m', h', fl')" using pub by auto
    then have ox: "owned (at s x) = Some (m', h')" using publishing_owned by blast
    note jx = owner_facts [OF inv ox cfg H]
    have "idx h' \<noteq> ?j" using j(10) [OF ox x(1)] .
    then have "slot cfg s' (idx h') = slot cfg s (idx h')" using slot' [of "idx h'"] jx(2,3) j(12) by auto
    then show "fl' = op_flags m'" "el_wire (desc_mem s) (slot cfg s' (idx h')) (is_bcopy (msg_op m')) = wire m'"
      using i(3) x(2) unfolding content_ok_def by auto
  qed
  moreover have "log_ok s'" using i(4) by (simp add: log_ok_def f)
  moreover have "descs_ok cfg s'"
    using i(5) desc unfolding descs_ok_def f(7,8) by (simp add: f(1)) (metis desc f(1) list.set_map)
  moreover have "tails_ok cfg s'"
  proof -
    have "pc_ok cfg c H (at s' x)" if "pc_ok cfg c H (at s x)" for c H x using that by (cases "x = e") (simp_all add: f(14))
    then show ?thesis using i(6) unfolding tails_ok_def by (simp add: f(3,4,9,12,13)) blast
  qed
  moreover have "rx_ok s'"
  proof -
    have ph: "pc_head (at s' x) = pc_head (at s x)" for x using at by (simp add: f(14))
    then have "wake s' = wake s" by (simp add: wake_def f(4,5,11,12,15))
    then show ?thesis using i(7) comp unfolding rx_ok_def by (auto simp: f(3,4,10,12) split: rx_pc.splits)
  qed
  ultimately show ?thesis by (simp add: mm_inv_def)
qed

lemma signal_done:
  assumes inv: "mm_inv cfg s" and at: "at s e = Signal m h" and H: "hd_count s < 2 ^ 31"
    and f: "h AND UCT_MM_IFACE_FIFO_HEAD_EVENT_ARMED \<noteq> 0 \<Longrightarrow> 0 < q \<or> idx h \<in> U" "sig_queue s \<le> q" "unsignalled s \<subseteq> U"
  shows "mm_inv cfg (return_with e r (s\<lparr>sig_queue := q, unsignalled := U\<rparr>))" (is "mm_inv cfg ?s")
proof -
  have i: "tails_ok cfg s" "rx_ok s" "log_ok s" using inv by (simp_all add: mm_inv_def)
  have a: "at ?s x = (if x = e then Idle else at s x)" for x by (simp add: return_with_def upd_ep_def)
  have q: "quiet s ?s" using at by (simp add: quiet_def return_with_def upd_ep_def)
  have "tails_ok cfg ?s"
  proof -
    have "pc_ok cfg c H (at ?s x)" if "pc_ok cfg c H (at s x)" for c H x using that by (cases "x = e") (simp_all add: a)
    moreover have "ep_cached_tail (mm_eps ?s x) = ep_cached_tail (mm_eps s x)" for x by (simp add: return_with_def upd_ep_def)
    ultimately show ?thesis using i(1) unfolding tails_ok_def by (simp add: return_with_def upd_ep_def) blast
  qed
  moreover have "rx_ok ?s"
  proof (rule rx_keep [OF i(2) q])
    have r: "rd s < 2 ^ 63" using i(3) H by (simp add: log_ok_def)
    have "0 < q \<or> rd s \<in> U" if "pc_head (at s e) = Some (enc (rd s) True)"
      using that at f(1) enc_armed [OF r, of True] r by simp
    then show "\<forall>x. pc_head (at ?s x) = pc_head (at s x) \<or> pc_head (at s x) \<noteq> Some (enc (rd s) True) \<or> 0 < sig_queue ?s \<or> rd s \<in> unsignalled ?s"
      by (auto simp: return_with_def upd_ep_def)
  qed (simp_all add: return_with_def upd_ep_def f)
  ultimately show ?thesis by (rule quiet_inv [OF q inv])
qed

lemma signal_inv:
  assumes inv: "mm_inv cfg s" and at: "at s e = Signal m h" and H: "hd_count s < 2 ^ 31" and q: "ret = Send_Again \<Longrightarrow> sig_queue s > 0"
  shows "mm_inv cfg (send_signal ret s e m h)"
proof -
  note d = signal_done [OF inv at H]
  let ?r = "if is_bcopy (msg_op m) then int (length (send_payload (msg_op m))) else ucs_status_code UCS_OK" and ?U = "insert (idx h) (unsignalled s)"
  show ?thesis
  proof (cases "h AND UCT_MM_IFACE_FIFO_HEAD_EVENT_ARMED \<noteq> 0")
    case False
    then show ?thesis using d [of "sig_queue s" "unsignalled s" ?r] by (simp add: send_signal_def)
  next
    case True
    have "mm_inv cfg (return_with e ?r (s\<lparr>sig_queue := sig_queue s + 1\<rparr>))" "mm_inv cfg (return_with e ?r (s\<lparr>unsignalled := ?U\<rparr>))"
      using d [of "sig_queue s + 1" "unsignalled s" ?r] d [of "sig_queue s" ?U ?r, OF _ _ subset_insertI] by auto
    moreover have "mm_inv cfg (return_with e ?r s)" if "ret = Send_Again"
      using d [of "sig_queue s" "unsignalled s" ?r] q that by simp
    ultimately show ?thesis
      using True inv unfolding send_signal_def uct_mm_ep_signal_remote_def idx_def [symmetric] by (cases ret) simp_all
  qed
qed

end
