(* ===== verification/Mm_Fifo_Recv.thy ===== *)
theory Mm_Fifo_Recv
  imports Mm_Fifo_Inv
begin

text \<open>
  The receiver's steps keep the invariant of the shared-memory FIFO, so it holds in every state that an
  interleaving of the processes reaches while fewer than \<open>2 ^ 31\<close> messages were sent.
\<close>

section \<open>Polling\<close>

lemma complete_iff_new_data:
  assumes inv: "mm_inv cfg s" and cfg: "mm_config_ok cfg" and H: "hd_count s < 2 ^ 31"
  shows "uct_mm_iface_fifo_has_new_data cfg s \<longleftrightarrow> complete s (rd s)"
proof -
  have i: "flags_ok cfg s" "log_ok s" using inv by (simp_all add: mm_inv_def)
  have r: "read_index s = enc (rd s) False" "rd s < 2 ^ 63" using i(2) H by (simp_all add: log_ok_def)
  have "fifo_shift cfg \<le> 31" using cfg by (simp add: mm_config_ok_def)
  from has_new_data_iff [OF r this] i(1) [unfolded flags_ok_def, rule_format, of "rd s"] fifo_size_bounds [OF cfg]
  show ?thesis by auto
qed

lemma rx_change_inv:
  assumes "mm_inv cfg s" "rx_ok (s\<lparr>rx_at := p\<rparr>)"
  shows "mm_inv cfg (s\<lparr>rx_at := p\<rparr>)"
proof (rule quiet_inv [OF _ assms(1) _ assms(2)])
  show "quiet s (s\<lparr>rx_at := p\<rparr>)" by (simp add: quiet_def)
  show "tails_ok cfg (s\<lparr>rx_at := p\<rparr>)" using assms(1) by (simp add: mm_inv_def tails_ok_def)
qed

lemma poll_check_inv:
  assumes inv: "mm_inv cfg s" and cfg: "mm_config_ok cfg" and H: "hd_count s < 2 ^ 31" and p: "poll_check cfg s = Some s'"
  shows "mm_inv cfg s'"
proof (cases "uct_mm_iface_fifo_has_new_data cfg s")
  case True
  then have s': "s' = s\<lparr>rx_at := Rx_Process\<rparr>" using p by (auto simp: poll_check_def ucs_assert_def split: if_splits)
  have "complete (s\<lparr>rx_at := Rx_Process\<rparr>) = complete s" by (simp add: complete_def fun_eq_iff)
  then have "rx_ok (s\<lparr>rx_at := Rx_Process\<rparr>)" using True complete_iff_new_data [OF inv cfg H] by (simp add: rx_ok_def)
  then show ?thesis unfolding s' by (rule rx_change_inv [OF inv])
next
  case False
  then show ?thesis using p inv by (simp add: poll_check_def)
qed

lemma poll_check_never_fails:
  assumes inv: "mm_inv cfg s" and H: "hd_count s < 2 ^ 31"
  shows "poll_check cfg s \<noteq> None"
proof -
  have i: "log_ok s" "tails_ok cfg s" using inv by (simp_all add: mm_inv_def)
  obtain a where h: "fifo_head s = enc (hd_count s) a" using i(2) by (auto simp: tails_ok_def)
  have b: "hd_count s < 2 ^ 63" "rd s < 2 ^ 63" using H i(1) by (simp_all add: log_ok_def)
  have "read_index s \<le> fifo_head s AND NOT UCT_MM_IFACE_FIFO_HEAD_EVENT_ARMED"
    using i(1) unfolding h enc_clear [OF b(1)] log_ok_def word_le_nat_alt by (simp add: unat_enc [OF b(1)] unat_enc [OF b(2)])
  then show ?thesis by (simp add: poll_check_def)
qed

text \<open>What a receive does to the state, apart from the program counter.\<close>

lemma process_recv_cases:
  fixes got1 got2 :: "nat option" and keep :: bool
  assumes inv: "mm_inv cfg s" and cfg: "mm_config_ok cfg" and H: "hd_count s < 2 ^ 31" and c: "complete s (rd s)"
  defines "r \<equiv> rd s" and "i \<equiv> rd s mod fifo_size cfg"
  defines "m \<equiv> sent_log s ! rd s" and "s' \<equiv> uct_mm_iface_process_recv cfg got1 keep got2 s"
  shows "\<exists>x l k d. s' = s\<lparr>recv_log := recv_log s @ [x], last_recv_desc := l, held_descs := k,
      fifo_elems := (fifo_elems s)[i := (fifo_elems s ! i)\<lparr>el_desc := d\<rparr>]\<rparr> \<and>
    (x = Some (wire m) \<or> x = None \<and> is_bcopy (msg_op m) \<and> last_recv_desc s = None \<and> got1 = None) \<and>
    (d = el_desc (fifo_elems s ! i) \<and> k = held_descs s \<and> (l = last_recv_desc s \<or> last_recv_desc s = None \<and> l = got1) \<or>
     k = insert (el_desc (fifo_elems s ! i)) (held_descs s) \<and> l = got2 \<and> (last_recv_desc s = Some d \<or> got1 = Some d))"
proof -
  have i: "content_ok cfg s" "log_ok s" using inv by (simp_all add: mm_inv_def)
  have r: "read_index s = enc r False" "r < 2 ^ 63" using i(2) H by (simp_all add: log_ok_def r_def)
  have ei: "elem_index cfg (read_index s) = i"
    using enc_index [OF r(2), of cfg False] cfg by (simp add: r mm_config_ok_def i_def r_def)
  let ?el = "fifo_elems s ! i"
  have el: "(el_flags ?el AND UCT_MM_FIFO_ELEM_FLAG_INLINE = 0) = is_bcopy (msg_op m)"
    "(el_am_id ?el, take (unat (el_length ?el)) (if is_bcopy (msg_op m) then desc_mem s (el_desc ?el) else el_inline ?el)) = wire m"
    using i(1) c unfolding content_ok_def el_wire_def i_def m_def by auto
  note defs = s'_def uct_mm_iface_process_recv_def Let_def ei deliver_def
  have idu: "(fifo_elems s)[i := ?el\<lparr>el_desc := el_desc ?el\<rparr>] = fifo_elems s" by simp
  consider (inl) "\<not> is_bcopy (msg_op m)" | (drop) "is_bcopy (msg_op m)" "last_recv_desc s = None" "got1 = None"
    | (keep) d where "is_bcopy (msg_op m)" "last_recv_desc s = Some d \<or> last_recv_desc s = None \<and> got1 = Some d"
    by (cases "is_bcopy (msg_op m)"; cases "last_recv_desc s"; cases got1) auto
  then show ?thesis
  proof cases
    case inl
    then have "s' = s\<lparr>recv_log := recv_log s @ [Some (wire m)], last_recv_desc := last_recv_desc s, held_descs := held_descs s,
        fifo_elems := (fifo_elems s)[i := ?el\<lparr>el_desc := el_desc ?el\<rparr>]\<rparr>"
      using el unfolding idu by (simp add: defs)
    then show ?thesis by blast
  next
    case drop
    then have "s' = s\<lparr>recv_log := recv_log s @ [None], last_recv_desc := last_recv_desc s, held_descs := held_descs s,
        fifo_elems := (fifo_elems s)[i := ?el\<lparr>el_desc := el_desc ?el\<rparr>]\<rparr>"
      using el unfolding idu by (simp add: defs)
    then show ?thesis using drop by blast
  next
    case (keep d)
    show ?thesis
    proof (cases "keep")
      case True
      have "s' = s\<lparr>recv_log := recv_log s @ [Some (wire m)], last_recv_desc := got2, held_descs := insert (el_desc ?el) (held_descs s),
          fifo_elems := (fifo_elems s)[i := ?el\<lparr>el_desc := d\<rparr>]\<rparr>"
        using el keep True by (auto simp: defs uct_mm_assign_desc_to_fifo_elem_def upd_elem_def)
      then show ?thesis using keep by blast
    next
      case False
      have "s' = s\<lparr>recv_log := recv_log s @ [Some (wire m)], last_recv_desc := Some d, held_descs := held_descs s,
          fifo_elems := (fifo_elems s)[i := ?el\<lparr>el_desc := el_desc ?el\<rparr>]\<rparr>"
        using el keep False unfolding idu by (auto simp: defs)
      then show ?thesis
        using keep by (intro exI [of _ "Some (wire m)"] exI [of _ "Some d"] exI [of _ "held_descs s"] exI [of _ "el_desc ?el"]) auto
    qed
  qed
qed

text \<open>The descriptors of the elements, the spare one and those the user holds stay apart.\<close>

lemma desc_swap:
  assumes "distinct D" "set_option spare \<inter> (set D \<union> held) = {}" "held \<inter> set D = {}"
    "set_option got1 \<inter> (set D \<union> set_option spare \<union> held) = {}"
    "set_option got2 \<inter> (set D \<union> set_option spare \<union> held \<union> set_option got1) = {}" "old \<in> set D"
    "d = old \<and> k = held \<and> (l = spare \<or> spare = None \<and> l = got1) \<or> k = insert old held \<and> l = got2 \<and> (spare = Some d \<or> got1 = Some d)"
  shows "d \<notin> set D - {old} \<and> set_option l \<inter> (insert d (set D - {old}) \<union> k) = {} \<and> k \<inter> insert d (set D - {old}) = {}"
  using assms(7)
proof (elim disjE conjE)
  assume "k = insert old held" "l = got2" "spare = Some d"
  then show ?thesis using assms(2-6) by auto
next
  assume "k = insert old held" "l = got2" "got1 = Some d"
  then show ?thesis using assms(2-6) by auto
qed (use assms(2-6) in auto)

lemma process_inv:
  fixes got1 got2 :: "nat option" and keep :: bool
  assumes inv: "mm_inv cfg s" and cfg: "mm_config_ok cfg" and H: "hd_count s < 2 ^ 31" and rx: "rx_at s = Rx_Process"
    and got: "set_option got1 \<inter> used_descs s = {}" "set_option got2 \<inter> (used_descs s \<union> set_option got1) = {}"
  defines "s' \<equiv> poll_process cfg got1 keep got2 s"
  shows "mm_inv cfg s'"
proof -
  have i: "owners_ok s" "flags_ok cfg s" "content_ok cfg s" "log_ok s" "descs_ok cfg s" "tails_ok cfg s" "rx_ok s"
    using inv by (simp_all add: mm_inv_def)
  have c: "complete s (rd s)" using i(7) rx by (simp add: rx_ok_def)
  let ?N = "fifo_size cfg" and ?i = "rd s mod fifo_size cfg"
  let ?el = "fifo_elems s ! ?i" and ?m = "sent_log s ! rd s"
  obtain x l k d where p: "uct_mm_iface_process_recv cfg got1 keep got2 s = s\<lparr>recv_log := recv_log s @ [x], last_recv_desc := l, held_descs := k,
      fifo_elems := (fifo_elems s)[?i := ?el\<lparr>el_desc := d\<rparr>]\<rparr>"
    and x: "x = Some (wire ?m) \<or> x = None \<and> is_bcopy (msg_op ?m)"
    and d: "d = el_desc ?el \<and> k = held_descs s \<and> (l = last_recv_desc s \<or> last_recv_desc s = None \<and> l = got1) \<or>
     k = insert (el_desc ?el) (held_descs s) \<and> l = got2 \<and> (last_recv_desc s = Some d \<or> got1 = Some d)"
    using process_recv_cases [OF inv cfg H c, of got1 keep got2] by blast
  have f: "fifo_elems s' = (fifo_elems s)[?i := ?el\<lparr>el_desc := d\<rparr>]" "desc_mem s' = desc_mem s" "sent_log s' = sent_log s"
    "recv_log s' = recv_log s @ [x]" "abandoned s' = abandoned s" "read_index s' = read_index s + 1" "last_recv_desc s' = l" "held_descs s' = k"
    "fifo_tail s' = fifo_tail s" "rx_at s' = Rx_Tail" "fifo_head s' = fifo_head s" "mm_eps s' = mm_eps s"
    by (simp_all add: s'_def poll_process_def Let_def p)
  have N: "0 < ?N" using fifo_size_bounds [OF cfg] by simp
  have il: "?i < length (fifo_elems s)" using i(5) N by (simp add: descs_ok_def)
  have comp: "complete s' = complete s" by (simp add: complete_def fun_eq_iff f)
  have RH: "rd s < hd_count s" "rd s \<notin> abandoned s" using c by (simp_all add: complete_def)
  have top: "hd_count s \<le> rd s + ?N" using i(6) by (auto simp: tails_ok_def)
  have flag: "el_flags (slot cfg s' n) = el_flags (slot cfg s n)" for n
    using il N i(5) by (cases "n mod ?N = ?i") (simp_all add: f(1) descs_ok_def)
  have keep: "slot cfg s' n = slot cfg s n" if "rd s < n" "n < rd s + ?N" for n
    using slot_neq [of "rd s" n ?N "rd s"] that N by (simp add: f(1))
  have own: "rd s < idx h" if "owned (at s e) = Some (m, h)" for e m h
  proof -
    have "idx h \<noteq> rd s" using c that unfolding complete_def by blast
    then show ?thesis using owner_facts(2) [OF inv that cfg H] by simp
  qed
  have "owners_ok s'"
    unfolding owners_ok_def f(3,5,12)
  proof (intro conjI allI impI, goal_cases)
    case (1 e m h)
    then show ?case using owner_facts(1-5) [OF inv 1 cfg H] own [OF 1] by (auto simp: f(4))
  next
    case (2 x y m1 m2 h1 h2)
    then show ?case using i(1) unfolding owners_ok_def by blast
  qed
  moreover have "flags_ok cfg s'"
    unfolding flags_ok_def comp flag
  proof (intro allI impI)
    fix n
    assume n: "rd s' \<le> n" "n < rd s' + ?N"
    show "((bit (el_flags (slot cfg s n)) 0 \<longleftrightarrow> odd (n div ?N)) \<longleftrightarrow> complete s n)"
    proof (cases "n = rd s + ?N")
      case True
      have "(bit (el_flags (slot cfg s (rd s))) 0 \<longleftrightarrow> odd (rd s div ?N))" using i(2) c N unfolding flags_ok_def by auto
      moreover have "\<not> complete s n" using True top by (simp add: complete_def)
      moreover have "n div ?N = Suc (rd s div ?N)" "n mod ?N = ?i" using True N by (simp_all add: div_add_self2)
      ultimately show ?thesis by simp
    next
      case False
      then show ?thesis using n i(2) unfolding flags_ok_def by (simp add: f(4))
    qed
  qed
  moreover have "content_ok cfg s'"
    unfolding content_ok_def comp f(2,3,12)
  proof (intro conjI allI impI)
    fix n
    assume n: "rd s' \<le> n" "complete s n"
    then have "slot cfg s' n = slot cfg s n" using keep [of n] top by (simp add: f(4) complete_def)
    then show "(el_flags (slot cfg s' n) AND UCT_MM_FIFO_ELEM_FLAG_INLINE = 0) = is_bcopy (msg_op (sent_log s ! n))"
      "el_wire (desc_mem s) (slot cfg s' n) (is_bcopy (msg_op (sent_log s ! n))) = wire (sent_log s ! n)"
      using i(3) n unfolding content_ok_def by (simp_all add: f(4))
  next
    fix e m h fl
    assume e: "publishing (at s e) = Some (m, h, fl)"
    note o = publishing_owned [OF e]
    have "slot cfg s' (idx h) = slot cfg s (idx h)" using keep [OF own [OF o]] owner_facts(3) [OF inv o cfg H] top by simp
    then show "fl = op_flags m" "el_wire (desc_mem s) (slot cfg s' (idx h)) (is_bcopy (msg_op m)) = wire m"
      using i(3) e unfolding content_ok_def by auto
  qed
  moreover have "log_ok s'"
  proof -
    have "read_index s' = enc (rd s') False" using i(4) by (simp add: f log_ok_def enc_def)
    moreover have "\<forall>j \<in> abandoned s. rd s' \<le> j \<and> j < hd_count s" using i(4) RH(2) by (auto simp: log_ok_def f(4) le_less Suc_le_eq)
    ultimately show ?thesis using i(4) x RH(1) by (auto simp: log_ok_def f nth_append less_Suc_eq)
  qed
  moreover have "descs_ok cfg s'"
  proof -
    let ?D = "map el_desc (fifo_elems s)"
    have o: "distinct ?D" "length ?D = ?N" "set_option (last_recv_desc s) \<inter> (set ?D \<union> held_descs s) = {}" "held_descs s \<inter> set ?D = {}"
      using i(5) by (simp_all add: descs_ok_def)
    have g: "set_option got1 \<inter> (set ?D \<union> set_option (last_recv_desc s) \<union> held_descs s) = {}"
      "set_option got2 \<inter> (set ?D \<union> set_option (last_recv_desc s) \<union> held_descs s \<union> set_option got1) = {}"
      using got by (simp_all add: used_descs_def)
    have el: "?D ! ?i = el_desc ?el" "?i < length ?D" "el_desc ?el \<in> set ?D" using il by (simp_all add: nth_mem)
    have D': "map el_desc (fifo_elems s') = ?D[?i := d]" by (simp add: f(1) map_update)
    have S': "set (?D[?i := d]) = insert d (set ?D - {el_desc ?el})"
      using set_update_distinct [OF o(1) el(2), of d] unfolding el(1) .
    have "distinct (?D[?i := d]) \<and> set_option l \<inter> (set (?D[?i := d]) \<union> k) = {} \<and> k \<inter> set (?D[?i := d]) = {}"
      using desc_swap [OF o(1,3,4) g el(3) d] distinct_list_update [OF o(1), of d ?i] unfolding S' el(1) by blast
    then show ?thesis
      unfolding descs_ok_def f(7,8) list.set_map [symmetric] D' using o(2) by (simp add: f(1))
  qed
  moreover have "tails_ok cfg s'"
  proof -
    from tails_okD [OF i(6)] obtain a T where t: "fifo_head s = enc (hd_count s) a" "fifo_tail s = enc T False" "T \<le> rd s" "hd_count s \<le> T + ?N"
      "\<And>e. \<exists>c. ep_cached_tail (mm_eps s e) = enc c False \<and> c \<le> T \<and> pc_ok cfg c (hd_count s) (at s e)" by metis
    then show ?thesis by (intro tails_okI [of s' a T]) (simp_all add: f)
  qed
  moreover have "rx_ok s'" by (simp add: rx_ok_def f)
  ultimately show ?thesis by (simp add: mm_inv_def)
qed

lemma tail_inv:
  assumes inv: "mm_inv cfg s"
  shows "mm_inv cfg (poll_tail cfg s)"
proof -
  have i: "tails_ok cfg s" "log_ok s" using inv by (simp_all add: mm_inv_def)
  from tails_okD [OF i(1)] obtain a T where t: "fifo_head s = enc (hd_count s) a" "fifo_tail s = enc T False" "T \<le> rd s"
    "hd_count s \<le> T + fifo_size cfg"
    "\<And>e. \<exists>c. ep_cached_tail (mm_eps s e) = enc c False \<and> c \<le> T \<and> pc_ok cfg c (hd_count s) (at s e)" by metis
  have "tails_ok cfg (s\<lparr>fifo_tail := read_index s, rx_at := Rx_Idle\<rparr>)"
  proof (rule tails_okI [of _ a "rd s"])
    fix e
    show "\<exists>c. ep_cached_tail (mm_eps (s\<lparr>fifo_tail := read_index s, rx_at := Rx_Idle\<rparr>) e) = enc c False \<and> c \<le> rd s \<and>
      pc_ok cfg c (hd_count (s\<lparr>fifo_tail := read_index s, rx_at := Rx_Idle\<rparr>)) (at (s\<lparr>fifo_tail := read_index s, rx_at := Rx_Idle\<rparr>) e)"
      using t(5) [of e] t(3) by fastforce
  qed (use t i(2) in \<open>simp_all add: log_ok_def\<close>)
  moreover have "tails_ok cfg (s\<lparr>rx_at := Rx_Idle\<rparr>)" using i(1) by (simp add: tails_ok_def)
  ultimately have p: "tails_ok cfg (poll_tail cfg s)" by (simp add: poll_tail_def uct_mm_progress_fifo_tail_def)
  show ?thesis
    by (rule quiet_inv [OF _ inv p]) (simp_all add: quiet_def rx_ok_def poll_tail_def uct_mm_progress_fifo_tail_def)
qed

section \<open>Arming\<close>

lemma wake_rx [simp]: "wake (s\<lparr>rx_at := p\<rparr>) = wake s"
  by (simp add: wake_def)

lemma arm_load_inv:
  assumes inv: "mm_inv cfg s" and H: "hd_count s < 2 ^ 31"
  shows "mm_inv cfg (snd (arm_load events pending s))"
proof -
  have i: "log_ok s" "tails_ok cfg s" using inv by (simp_all add: mm_inv_def)
  obtain a where h: "fifo_head s = enc (hd_count s) a" using i(2) by (auto simp: tails_ok_def)
  have b: "hd_count s < 2 ^ 63" "rd s < 2 ^ 63" "rd s \<le> hd_count s" using H i(1) by (simp_all add: log_ok_def)
  have eq: "hd_count s = rd s" if "\<not> fifo_head s AND NOT UCT_MM_IFACE_FIFO_HEAD_EVENT_ARMED > read_index s"
    using that i(1) b(3) unfolding h enc_clear [OF b(1)] log_ok_def word_less_nat_alt by (simp add: unat_enc [OF b(1)] unat_enc [OF b(2)])
  have arm: "fifo_head s AND UCT_MM_IFACE_FIFO_HEAD_EVENT_ARMED = 0 \<longleftrightarrow> \<not> a" unfolding h by (rule enc_armed [OF b(1)])
  have "rx_ok (snd (arm_load events pending s))"
    using eq arm h by (auto simp: arm_load_def Let_def rx_ok_def wake_def)
  moreover have "\<exists>p. snd (arm_load events pending s) = s\<lparr>rx_at := p\<rparr>" by (auto simp: arm_load_def Let_def)
  ultimately show ?thesis using rx_change_inv [OF inv] by auto
qed

lemma arm_cas_ok:
  assumes inv: "mm_inv cfg s" and H: "hd_count s < 2 ^ 31" and rx: "rx_at s = Rx_Arm h"
  shows "\<exists>status s'. arm_cas h s = Some (status, s') \<and> mm_inv cfg s'"
proof -
  have i: "log_ok s" "tails_ok cfg s" "rx_ok s" using inv by (simp_all add: mm_inv_def)
  have b: "hd_count s < 2 ^ 63" "rd s \<le> hd_count s" using H i(1) by (simp_all add: log_ok_def)
  obtain j where j: "h = enc j False" "j \<le> rd s" "fifo_head s = enc (hd_count s) False" using i(3) rx by (auto simp: rx_ok_def)
  show ?thesis
  proof (cases "fifo_head s = h")
    case True
    have "j < 2 ^ 63" using j(2) b by simp
    then have e: "hd_count s = rd s" "j = rd s" using True j b enc_eq_iff [of "hd_count s" j False False] by auto
    let ?s = "s\<lparr>fifo_head := h OR UCT_MM_IFACE_FIFO_HEAD_EVENT_ARMED, rx_at := Rx_Recvfrom\<rparr>"
    have hd: "h OR UCT_MM_IFACE_FIFO_HEAD_EVENT_ARMED = enc (rd s) True"
      using enc_arm [of "rd s"] b e(1) j(1) by (simp add: e(2))
    have "quiet s ?s" by (simp add: quiet_def)
    moreover have "tails_ok cfg ?s" using i(2) e hd unfolding tails_ok_def by auto
    moreover have "rx_ok ?s" using hd by (simp add: rx_ok_def wake_def)
    ultimately have "mm_inv cfg ?s" by (metis quiet_inv inv)
    then show ?thesis using True by (simp add: arm_cas_def)
  next
    case False
    have "mm_inv cfg (s\<lparr>rx_at := Rx_Idle\<rparr>)" by (rule rx_change_inv [OF inv]) (simp add: rx_ok_def)
    then show ?thesis using False enc_armed [OF b(1), of False] j(3) by (simp add: arm_cas_def)
  qed
qed

lemma recvfrom_inv:
  assumes inv: "mm_inv cfg s" and rx: "rx_at s = Rx_Recvfrom"
  shows "mm_inv cfg (snd (arm_recvfrom ret s))"
proof -
  have i: "tails_ok cfg s" "rx_ok s" using inv by (simp_all add: mm_inv_def)
  have "mm_inv cfg (s\<lparr>sig_queue := sig_queue s - 1, rx_at := Rx_Idle\<rparr>)"
    by (rule quiet_inv [OF _ inv]) (use i(1) in \<open>simp_all add: quiet_def rx_ok_def tails_ok_def\<close>)
  moreover have "mm_inv cfg (s\<lparr>rx_at := Rx_Asleep\<rparr>)" "mm_inv cfg (s\<lparr>rx_at := Rx_Idle\<rparr>)"
    by (rule rx_change_inv [OF inv], use i(2) rx in \<open>simp add: rx_ok_def\<close>)+
  ultimately show ?thesis by (simp add: arm_recvfrom_def split: recvfrom_result.splits)
qed

lemma release_inv:
  assumes inv: "mm_inv cfg s"
  shows "mm_inv cfg (s\<lparr>held_descs := held_descs s - {d}\<rparr>)"
proof -
  let ?s = "s\<lparr>held_descs := held_descs s - {d}\<rparr>"
  have i: "owners_ok s" "flags_ok cfg s" "content_ok cfg s" "log_ok s" "descs_ok cfg s" "tails_ok cfg s" "rx_ok s"
    using inv by (simp_all add: mm_inv_def)
  have c: "complete ?s = complete s" "wake ?s = wake s" by (simp_all add: complete_def wake_def fun_eq_iff)
  have "owners_ok ?s" "flags_ok cfg ?s" "content_ok cfg ?s" "log_ok ?s" "tails_ok cfg ?s"
    using i(1-4,6) unfolding owners_ok_def flags_ok_def content_ok_def log_ok_def tails_ok_def c by simp_all
  moreover have "rx_ok ?s" using i(7) c unfolding rx_ok_def by (cases "rx_at s") simp_all
  moreover have "descs_ok cfg ?s" using i(5) unfolding descs_ok_def by auto
  ultimately show ?thesis by (simp add: mm_inv_def)
qed

section \<open>Every reachable state\<close>

lemmas mm_ops = mm_ep_init_def uct_mm_ep_am_short_def uct_mm_ep_am_short_iov_def uct_mm_ep_am_bcopy_def go_def return_with_def upd_ep_def upd_elem_def
  uct_mm_ep_no_resources_handle_def uct_mm_ep_update_cached_tail_def Let_def send_load_def send_retail_def uct_mm_ep_get_remote_elem_def
  send_write_def send_publish_def send_signal_def uct_mm_ep_signal_remote_def uct_mm_ep_pending_add_def uct_mm_ep_process_pending_def uct_mm_ep_flush_def poll_check_def
  poll_process_def uct_mm_iface_process_recv_def deliver_def uct_mm_assign_desc_to_fifo_elem_def poll_tail_def uct_mm_progress_fifo_tail_def
  arm_load_def arm_cas_def arm_recvfrom_def ucs_assert_def

lemma sent_mono: "mm_step cfg seg_status s s' \<Longrightarrow> hd_count s \<le> hd_count s'"
  by (induction rule: mm_step.induct) (auto simp: mm_ops split: if_splits option.splits uct_mm_send_op.splits recvfrom_result.splits sendto_result.splits)

lemma mm_step_inv:
  assumes "mm_step cfg seg_status s s'" "mm_inv cfg s" "mm_config_ok cfg" "hd_count s' < 2 ^ 31"
  shows "mm_inv cfg s'"
proof -
  have H: "hd_count s < 2 ^ 31" using sent_mono [OF assms(1)] assms(4) by simp
  note inv = assms(2) and cfg = assms(3)
  from assms(1) show ?thesis
  proof cases
    case (st_cas e m h)
    then show ?thesis
      using cas_inv [OF inv st_cas(2)] cas_fail_inv [OF inv st_cas(2)] assms(4) by (auto simp: uct_mm_ep_get_remote_elem_def Let_def go_def upd_ep_def split: if_splits)
  next
    case (st_pending_add e status)
    then show ?thesis using inv start_inv(5) [OF inv st_pending_add(1)] by (auto simp: uct_mm_ep_pending_add_def ucs_assert_def split: if_splits)
  next
    case (st_process_pending e req result)
    then show ?thesis using start_inv(6) [OF inv st_process_pending(1)] by (auto simp: uct_mm_ep_process_pending_def Let_def split: if_splits option.splits)
  next
    case (st_flush e status)
    then show ?thesis using inv start_inv(6) [OF inv st_flush(1)] by (auto simp: uct_mm_ep_flush_def Let_def split: if_splits)
  next
    case (st_arm_cas h status')
    then show ?thesis using arm_cas_ok [OF inv H st_arm_cas(1)] by auto
  qed (use start_inv [OF inv] load_inv [OF inv _ cfg H] retail_inv [OF inv _ cfg H] step_write_inv [OF inv _ cfg H] publish_inv [OF inv _ cfg H]
      signal_inv [OF inv _ H] poll_check_inv [OF inv cfg H] process_inv [OF inv cfg H] tail_inv [OF inv] arm_load_inv [OF inv H]
      recvfrom_inv [OF inv] release_inv [OF inv] in \<open>simp_all\<close>)
qed

lemma mm_start_inv:
  assumes "mm_start cfg s" "mm_config_ok cfg"
  shows "mm_inv cfg s"
proof -
  obtain s0 descs first where s: "s = mm_iface_init cfg descs first s0" and
    s0: "length (fifo_elems s0) = fifo_size cfg" "length descs = fifo_size cfg" "distinct (first # descs)"
     "held_descs s0 = {}" "rx_at s0 = Rx_Idle" "sent_log s0 = []" "recv_log s0 = []" "abandoned s0 = {}"
     "\<And>e. mm_eps s0 e = \<lparr>ep_cached_tail = 0, ep_group_nonempty = False, ep_ret = 0, ep_at = Idle\<rparr>"
    using assms(1) unfolding mm_start_def by blast
  have len: "length (fifo_elems s) = fifo_size cfg" and
    el: "\<And>i. i < fifo_size cfg \<Longrightarrow> el_flags (fifo_elems s ! i) = UCT_MM_FIFO_ELEM_FLAG_OWNER \<and> el_desc (fifo_elems s ! i) = descs ! i"
    using s0 by (auto simp: s mm_iface_init_def)
  have d: "map el_desc (fifo_elems s) = descs" using len el s0(2) by (auto intro!: nth_equalityI)
  have c: "\<not> complete s j" for j by (simp add: complete_def s mm_iface_init_def s0)
  have f: "sent_log s = []" "recv_log s = []" "abandoned s = {}" "rx_at s = Rx_Idle" "held_descs s = {}" "last_recv_desc s = Some first"
    "read_index s = enc 0 False" "fifo_head s = enc 0 False" "fifo_tail s = enc 0 False" "ep_cached_tail (mm_eps s e) = enc 0 False" "at s e = Idle" for e
    using s0 by (simp_all add: s mm_iface_init_def enc_def)
  have "flags_ok cfg s"
    unfolding flags_ok_def using el c by (simp add: f UCT_MM_FIFO_ELEM_FLAG_OWNER_def)
  moreover have "descs_ok cfg s"
    using d len s0(3) unfolding descs_ok_def list.set_map [symmetric] d by (simp add: f)
  moreover have "tails_ok cfg s" by (rule tails_okI [of s False 0]) (auto simp: f intro: exI [of _ 0])
  ultimately show ?thesis using c by (simp add: mm_inv_def owners_ok_def content_ok_def log_ok_def rx_ok_def f)
qed

lemma mm_reach_inv:
  assumes "mm_reach cfg seg_status s" "mm_config_ok cfg"
  shows "hd_count s < 2 ^ 31 \<Longrightarrow> mm_inv cfg s"
  using assms(1)
proof (induction rule: mm_reach.induct)
  case (reach_start s)
  then show ?case using mm_start_inv assms(2) by blast
next
  case (reach_step s s')
  then show ?case using mm_step_inv [OF reach_step.hyps(2) _ assms(2)] sent_mono [OF reach_step.hyps(2)] by fastforce
qed

lemma fed_reach: "mm_fed cfg seg_status s \<Longrightarrow> mm_reach cfg seg_status s"
  by (induction rule: mm_fed.induct) (auto intro: mm_reach.intros)

lemma step_delivers:
  "mm_step cfg seg_status s s' \<Longrightarrow> last_recv_desc s \<noteq> None \<Longrightarrow> None \<notin> set (recv_log s) \<Longrightarrow> None \<notin> set (recv_log s')"
  by (induction rule: mm_step.induct) (auto simp: mm_ops split: if_splits option.splits uct_mm_send_op.splits recvfrom_result.splits sendto_result.splits)

lemma fed_delivers: "mm_fed cfg seg_status s \<Longrightarrow> last_recv_desc s \<noteq> None \<and> None \<notin> set (recv_log s)"
proof (induction rule: mm_fed.induct)
  case (fed_start s)
  then show ?case by (auto simp: mm_start_def mm_iface_init_def)
next
  case (fed_step s s')
  then show ?case using step_delivers by blast
qed

end
