(* ===== verification/Mm_Fifo_Runs.thy ===== *)
theory Mm_Fifo_Runs
  imports Mm_Fifo_Recv
begin

text \<open>
  Runs of the shared-memory FIFO: an endpoint that sees room sends, a receiver that sees data reads, and
  concrete runs that reach the situations the properties speak about.
\<close>

section \<open>A run\<close>

text \<open>The receiver goes to sleep, endpoint 0 sends a short message and is about to signal; then the
  receiver polls.\<close>

definition sample_cfg :: mm_config where
  "sample_cfg = \<lparr>fifo_shift = 1, fifo_release_factor_mask = 0, fifo_max_poll = 16, fifo_elem_size = 64\<rparr>"

definition sample_msg :: mm_msg where
  "sample_msg = \<lparr>msg_id = 7, msg_op = UCT_MM_SEND_AM_SHORT_IOV [[1, 2]]\<rparr>"

definition sample_memory :: mm_state where
  "sample_memory =
     \<lparr>fifo_head = 0, fifo_tail = 0, fifo_elems = replicate 2 \<lparr>el_flags = 0, el_am_id = 0, el_length = 0, el_desc = 0, el_inline = []\<rparr>,
      desc_mem = (\<lambda>_. []), sig_queue = 0, read_index = 0, last_recv_desc = None, held_descs = {}, fifo_poll_count = 0,
      fifo_prev_wnd_cons = False, rx_at = Rx_Idle,
      mm_eps = (\<lambda>_. \<lparr>ep_cached_tail = 0, ep_group_nonempty = False, ep_ret = 0, ep_at = Idle\<rparr>),
      sent_log = [], abandoned = {}, unsignalled = {}, recv_log = []\<rparr>"

definition sample_start :: mm_state where
  "sample_start = mm_iface_init sample_cfg [0, 1] 2 sample_memory"

lemma sample_start_ok: "mm_start sample_cfg sample_start" "mm_config_ok sample_cfg"
  unfolding mm_start_def sample_start_def
  by (rule exI [of _ sample_memory], rule exI [of _ "[0, 1]"], rule exI [of _ 2])
    (simp_all add: sample_memory_def sample_cfg_def fifo_size_def mm_config_ok_def)

definition sample_asleep :: mm_state where
  "sample_asleep = snd (arm_recvfrom Recv_Again (snd (the (arm_cas 0 (snd (arm_load UCT_EVENT_RECV False sample_start))))))"

lemma sample_asleep_fed: "mm_fed sample_cfg seg_status sample_asleep"
proof -
  let ?s0 = sample_start
  let ?s1 = "snd (arm_load UCT_EVENT_RECV False ?s0)"
  let ?s2 = "snd (the (arm_cas 0 ?s1))"
  let ?s3 = "snd (arm_recvfrom Recv_Again ?s2)"
  note d = arm_recvfrom_def arm_cas_def arm_load_def UCT_EVENT_SEND_COMP_def UCT_EVENT_RECV_def sample_start_def sample_memory_def mm_iface_init_def Let_def
    UCT_MM_IFACE_FIFO_HEAD_EVENT_ARMED_def
  have f: "rx_at ?s0 = Rx_Idle" "rx_at ?s1 = Rx_Arm 0" "arm_cas 0 ?s1 = Some (None, ?s2)" "rx_at ?s2 = Rx_Recvfrom" "sig_queue ?s2 = 0"
    by (simp_all add: d)
  have l: "last_recv_desc ?s1 \<noteq> None" "last_recv_desc ?s2 \<noteq> None" "last_recv_desc ?s3 \<noteq> None" by (simp_all add: d)
  have "mm_step sample_cfg seg_status ?s0 ?s1" by (rule st_arm_load) (simp add: f(1))
  then have "mm_fed sample_cfg seg_status ?s1" using fed_step [OF fed_start [OF sample_start_ok(1)]] l(1) by blast
  then have "mm_fed sample_cfg seg_status ?s2" using st_arm_cas [OF f(2,3)] l(2) by (rule fed_step)
  moreover have "mm_step sample_cfg seg_status ?s2 ?s3" by (rule st_recvfrom [OF f(4)]) (simp_all add: f(5))
  ultimately show ?thesis unfolding sample_asleep_def using l(3) by (rule fed_step)
qed

lemma sample_asleep_eq: "sample_asleep = sample_start\<lparr>fifo_head := UCT_MM_IFACE_FIFO_HEAD_EVENT_ARMED, rx_at := Rx_Asleep\<rparr>"
  by (simp add: sample_asleep_def arm_recvfrom_def arm_cas_def arm_load_def UCT_EVENT_SEND_COMP_def UCT_EVENT_RECV_def sample_start_def sample_memory_def mm_iface_init_def Let_def)

text \<open>The endpoint's way to the point where it signals.\<close>

definition sample_sent :: mm_state where
  "sample_sent = go 0 (Signal sample_msg UCT_MM_IFACE_FIFO_HEAD_EVENT_ARMED)
     (upd_elem 0 (\<lambda>el. el\<lparr>el_flags := 2, el_length := 2, el_am_id := 7, el_inline := [1, 2]\<rparr>)
       (sample_asleep\<lparr>fifo_head := 1, sent_log := [sample_msg]\<rparr>))"

lemma sample_sent_fed: "mm_fed sample_cfg seg_status sample_sent"
proof -
  let ?A = "UCT_MM_IFACE_FIFO_HEAD_EVENT_ARMED" and ?m = sample_msg
  let ?s1 = "go 0 (Load ?m) sample_asleep" and ?s2 = "go 0 (Cas ?m ?A) sample_asleep"
  let ?s3 = "go 0 (Write ?m ?A) (sample_asleep\<lparr>fifo_head := 1, sent_log := [?m]\<rparr>)"
  let ?s4 = "go 0 (Publish ?m ?A 2) (upd_elem 0 (\<lambda>el. el\<lparr>el_length := 2, el_am_id := 7, el_inline := [1, 2]\<rparr>)
    (sample_asleep\<lparr>fifo_head := 1, sent_log := [?m]\<rparr>))"
  have eA: "?A = enc 0 True" "(0 :: u64) = enc 0 False" by (simp_all add: UCT_MM_IFACE_FIFO_HEAD_EVENT_ARMED_def enc_def)
  have f: "mm_eps sample_asleep 0 = \<lparr>ep_cached_tail = 0, ep_group_nonempty = False, ep_ret = 0, ep_at = Idle\<rparr>" "fifo_head sample_asleep = ?A"
    "sent_log sample_asleep = []" "fifo_elems sample_asleep = [\<lparr>el_flags = 1, el_am_id = 0, el_length = 0, el_desc = 0, el_inline = []\<rparr>,
      \<lparr>el_flags = 1, el_am_id = 0, el_length = 0, el_desc = 1, el_inline = []\<rparr>]"
    by (simp_all add: sample_asleep_eq sample_start_def sample_memory_def mm_iface_init_def UCT_MM_FIFO_ELEM_FLAG_OWNER_def numeral_2_eq_2)
  note go = go_def upd_ep_def
  have i: "elem_index sample_cfg ?A = 0" using enc_index [of 0 sample_cfg True] by (simp add: eA sample_cfg_def)
  have "UCT_MM_EP_IS_ABLE_TO_SEND ?A 0 2" unfolding eA using able_iff [of 0 0 2 True] by simp
  then have s2: "send_load sample_cfg ?s1 0 ?m = ?s2" by (simp add: send_load_def Let_def go f sample_cfg_def fifo_size_def)
  have "(enc 0 True + 1) AND NOT ?A = enc 1 False" using enc_next [of 0 True] by simp
  then have nx: "(?A + 1) AND NOT ?A = 1" unfolding eA(1) [symmetric] enc_def [of 1] by simp
  have "enc 0 True AND of_nat (fifo_size sample_cfg) = 0" using enc_owner [of 0 sample_cfg True] by (simp add: sample_cfg_def)
  then have ow: "?A AND of_nat (fifo_size sample_cfg) = 0" unfolding eA(1) [symmetric] .
  have s3: "uct_mm_ep_get_remote_elem ?s2 0 ?m ?A = ?s3"
    by (simp add: uct_mm_ep_get_remote_elem_def Let_def go f nx)
  have s4: "send_write sample_cfg seg_status ?s3 0 ?m ?A = ?s4"
    by (simp add: send_write_def Let_def i go upd_elem_def f sample_msg_def UCT_MM_FIFO_ELEM_FLAG_INLINE_def)
  have s5: "send_publish sample_cfg ?s4 0 ?m ?A 2 = sample_sent"
    by (simp add: send_publish_def sample_sent_def i ow go upd_elem_def f)
  have l: "last_recv_desc ?s1 \<noteq> None" "last_recv_desc ?s2 \<noteq> None" "last_recv_desc ?s3 \<noteq> None" "last_recv_desc ?s4 \<noteq> None" "last_recv_desc sample_sent \<noteq> None"
    using fed_delivers [OF sample_asleep_fed] by (simp_all add: go upd_elem_def sample_sent_def)
  have "mm_step sample_cfg seg_status sample_asleep ?s1"
    using st_short_iov [of sample_asleep 0 sample_cfg seg_status 7 "[[1, 2]]"]
    by (simp add: f uct_mm_ep_am_short_iov_def sample_cfg_def sample_msg_def)
  then have "mm_fed sample_cfg seg_status ?s1" using fed_step [OF sample_asleep_fed] l(1) by blast
  then have "mm_fed sample_cfg seg_status ?s2" using fed_step st_load [of ?s1 0 ?m sample_cfg seg_status] s2 l(2) by (simp add: go)
  then have "mm_fed sample_cfg seg_status ?s3" using fed_step st_cas [of ?s2 0 ?m ?A sample_cfg seg_status] s3 l(3) by (simp add: go)
  then have "mm_fed sample_cfg seg_status ?s4" using fed_step st_write [of ?s3 0 ?m ?A sample_cfg seg_status] s4 l(4) by (simp add: go)
  then show ?thesis using fed_step st_publish [of ?s4 0 ?m ?A 2 sample_cfg seg_status] s5 l(5) by (simp add: go)
qed

lemmas sample_sent_reach = fed_reach [OF sample_sent_fed]

lemma sample_sent_fields:
  "sent_log sample_sent = [sample_msg]" "rx_at sample_sent = Rx_Asleep" "recv_log sample_sent = []" "read_index sample_sent = enc 0 False"
  "at sample_sent 0 = Signal sample_msg UCT_MM_IFACE_FIFO_HEAD_EVENT_ARMED" "el_flags (fifo_elems sample_sent ! 0) = 2"
  by (simp_all add: sample_sent_def go_def upd_ep_def upd_elem_def sample_asleep_eq sample_start_def sample_memory_def mm_iface_init_def enc_def numeral_2_eq_2)

lemma sample_new_data: "uct_mm_iface_fifo_has_new_data sample_cfg sample_sent"
  using has_new_data_iff [OF sample_sent_fields(4), of sample_cfg] sample_sent_fields(6) by (simp add: sample_cfg_def)

definition sample_delivered :: mm_state where
  "sample_delivered = poll_process sample_cfg None False None (sample_sent\<lparr>rx_at := Rx_Process\<rparr>)"

lemma sample_delivered_fed: "mm_fed sample_cfg seg_status sample_delivered"
proof -
  have inv: "mm_inv sample_cfg sample_sent"
    using mm_reach_inv [OF sample_sent_reach sample_start_ok(2)] by (simp add: sample_sent_fields)
  have "poll_check sample_cfg sample_sent \<noteq> None" by (rule poll_check_never_fails [OF inv]) (simp add: sample_sent_fields)
  then have "poll_check sample_cfg sample_sent = Some (sample_sent\<lparr>rx_at := Rx_Process\<rparr>)"
    using sample_new_data by (auto simp: poll_check_def ucs_assert_def split: if_splits)
  then have s: "mm_step sample_cfg seg_status sample_sent (sample_sent\<lparr>rx_at := Rx_Process\<rparr>)"
    using st_poll [of sample_sent sample_cfg _ seg_status] by (simp add: sample_sent_fields)
  obtain d where l: "last_recv_desc sample_sent = Some d" using fed_delivers [OF sample_sent_fed] by blast
  then have "mm_fed sample_cfg seg_status (sample_sent\<lparr>rx_at := Rx_Process\<rparr>)" using fed_step [OF sample_sent_fed s] by simp
  then show ?thesis unfolding sample_delivered_def
    by (rule fed_step) (rule st_process, simp_all add: poll_process_def uct_mm_iface_process_recv_def deliver_def Let_def l)
qed

lemmas sample_delivered_reach = fed_reach [OF sample_delivered_fed]

lemma sample_delivered_fields: "sent_log sample_delivered = [sample_msg]" "length (recv_log sample_delivered) = 1"
  by (simp_all add: sample_delivered_def poll_process_def Let_def uct_mm_iface_process_recv_def deliver_def uct_mm_assign_desc_to_fifo_elem_def
    upd_elem_def sample_sent_fields split: option.splits)

lemma abandoned_mono: "mm_step cfg seg_status y z \<Longrightarrow> abandoned y \<subseteq> abandoned z"
  by (induction rule: mm_step.induct) (auto simp: mm_ops split: if_splits option.splits uct_mm_send_op.splits recvfrom_result.splits sendto_result.splits)

lemma step_elems_length: "mm_step cfg seg_status y z \<Longrightarrow> length (fifo_elems z) = length (fifo_elems y)"
  by (induction rule: mm_step.induct) (auto simp: mm_ops split: if_splits option.splits uct_mm_send_op.splits recvfrom_result.splits sendto_result.splits)

lemma elems_length: "mm_reach cfg seg_status s \<Longrightarrow> length (fifo_elems s) = fifo_size cfg"
  by (induction rule: mm_reach.induct) (auto simp: mm_start_def mm_iface_init_def step_elems_length)

section \<open>Progress\<close>

text \<open>An endpoint that sees room sends its message in five steps if nobody interferes.\<close>

definition rx_same :: "mm_state \<Rightarrow> mm_state \<Rightarrow> bool" where
  "rx_same s s' \<longleftrightarrow> recv_log s' = recv_log s \<and> rx_at s' = rx_at s \<and> last_recv_desc s' = last_recv_desc s \<and>
     held_descs s' = held_descs s \<and> fifo_tail s' = fifo_tail s \<and> (\<forall>e. ep_cached_tail (mm_eps s' e) = ep_cached_tail (mm_eps s e))"

lemma send_step_reach1:
  assumes "mm_reach cfg seg_status s"
  shows "mm_reach cfg seg_status (send_step cfg seg_status Send_Done e s)"
  using assms by (cases "at s e") (auto simp: send_step_def intro: reach_step [OF assms] mm_step.intros)

lemma send_step_reach:
  "mm_reach cfg seg_status s \<Longrightarrow> mm_reach cfg seg_status ((send_step cfg seg_status Send_Done e ^^ n) s)"
  by (induction n) (simp_all add: send_step_reach1)

lemma send_signal_eq:
  assumes "ret \<noteq> Send_Interrupted"
  shows "send_signal ret s e m h = return_with e (if is_bcopy (msg_op m) then int (length (send_payload (msg_op m))) else ucs_status_code UCS_OK)
    (s\<lparr>sig_queue := sig_queue (send_signal ret s e m h), unsignalled := unsignalled (send_signal ret s e m h)\<rparr>)"
  using assms by (cases ret) (simp_all add: send_signal_def uct_mm_ep_signal_remote_def return_with_def upd_ep_def Let_def)

lemma send_five:
  assumes at: "at s e = Load m" and able: "uct_mm_ep_has_tx_resources cfg s e" and ret: "ret \<noteq> Send_Interrupted"
    and seg: "is_bcopy (msg_op m) \<Longrightarrow> seg_status e (el_desc (fifo_elems s ! elem_index cfg (fifo_head s))) = UCS_OK"
  defines "h \<equiv> fifo_head s" and "i \<equiv> elem_index cfg (fifo_head s)" and "s' \<equiv> (send_step cfg seg_status ret e ^^ 5) s"
  shows "at s' e = Idle" "sent_log s' = sent_log s @ [m]" "abandoned s' = abandoned s" "rx_same s s'" "x \<noteq> e \<Longrightarrow> mm_eps s' x = mm_eps s x"
    "read_index s' = read_index s" "k \<noteq> i \<Longrightarrow> fifo_elems s' ! k = fifo_elems s ! k" "length (fifo_elems s') = length (fifo_elems s)"
    "fifo_head s' = (h + 1) AND NOT UCT_MM_IFACE_FIFO_HEAD_EVENT_ARMED"
    "i < length (fifo_elems s) \<Longrightarrow> el_flags (fifo_elems s' ! i) =
       (if h AND of_nat (fifo_size cfg) \<noteq> 0 then op_flags m OR UCT_MM_FIFO_ELEM_FLAG_OWNER else op_flags m)"
proof -
  let ?f = "send_step cfg seg_status ret e"
  define s2 s3 s4 where "s2 = uct_mm_ep_get_remote_elem (go e (Cas m h) s) e m h" and "s3 = send_write cfg seg_status s2 e m h"
    and "s4 = send_publish cfg s3 e m h (op_flags m)"
  have 1: "?f s = go e (Cas m h) s" using at able by (simp add: send_step_def send_load_def uct_mm_ep_has_tx_resources_def h_def Let_def)
  have 2: "?f (go e (Cas m h) s) = s2" by (simp add: send_step_def go_def upd_ep_def s2_def)
  have e2: "s2 = go e (Write m h) (s\<lparr>fifo_head := (h + 1) AND NOT UCT_MM_IFACE_FIFO_HEAD_EVENT_ARMED, sent_log := sent_log s @ [m]\<rparr>)"
    by (simp add: s2_def uct_mm_ep_get_remote_elem_def h_def Let_def go_def upd_ep_def)
  have 3: "?f s2 = s3" by (simp add: send_step_def e2 s3_def go_def upd_ep_def)
  have e3: "at s3 e = Publish m h (op_flags m)"
    using seg by (cases "msg_op m") (simp_all add: s3_def e2 send_write_def h_def Let_def go_def upd_ep_def upd_elem_def op_flags_def)
  have 4: "?f s3 = s4" by (simp add: send_step_def e3 s4_def)
  have "(?f ^^ 5) s = ?f (?f (?f (?f (?f s))))" by (simp add: eval_nat_numeral)
  then have s': "s' = send_signal ret s4 e m h"
    unfolding s'_def 1 2 3 4 by (simp add: send_step_def s4_def send_publish_def go_def upd_ep_def)
  note d = s4_def s3_def e2 send_publish_def send_write_def Let_def go_def upd_ep_def upd_elem_def rx_same_def return_with_def
  note f3 = d i_def h_def
  obtain U q r where u: "s' = return_with e r (s4\<lparr>sig_queue := q, unsignalled := U\<rparr>)"
    using send_signal_eq [OF ret] unfolding s' by blast
  show "at s' e = Idle" by (simp add: u return_with_def upd_ep_def)
  show "sent_log s' = sent_log s @ [m]" "abandoned s' = abandoned s" "rx_same s s'" "x \<noteq> e \<Longrightarrow> mm_eps s' x = mm_eps s x"
    "read_index s' = read_index s" "k \<noteq> i \<Longrightarrow> fifo_elems s' ! k = fifo_elems s ! k" "length (fifo_elems s') = length (fifo_elems s)"
    "fifo_head s' = (h + 1) AND NOT UCT_MM_IFACE_FIFO_HEAD_EVENT_ARMED"
    "i < length (fifo_elems s) \<Longrightarrow> el_flags (fifo_elems s' ! i) =
       (if h AND of_nat (fifo_size cfg) \<noteq> 0 then op_flags m OR UCT_MM_FIFO_ELEM_FLAG_OWNER else op_flags m)"
    using seg by (cases "msg_op m"; simp add: u f3)+
qed

lemma send_progress:
  assumes reach: "mm_reach cfg seg_status s" and cfg: "mm_config_ok cfg" and H: "hd_count s < 2 ^ 31" and at: "at s e = Load m"
    and able: "uct_mm_ep_has_tx_resources cfg s e" and seg: "\<And>d. seg_status e d = UCS_OK"
  shows "\<exists>s'. mm_reach cfg seg_status s' \<and> at s' e = Idle \<and> sent_log s' = sent_log s @ [m] \<and> rx_same s s' \<and> complete s' (hd_count s)"
proof -
  let ?s = "(send_step cfg seg_status Send_Done e ^^ 5) s"
  have inv: "mm_inv cfg s" using mm_reach_inv [OF reach cfg H] .
  note f = send_five [OF at able, of Send_Done seg_status, simplified seg, simplified]
  have "idx h' \<noteq> hd_count s" if "owned (at ?s x) = Some (m', h')" for x m' h'
    using owner_facts(3) [OF inv _ cfg H, of x m' h'] that f(1) f(5) [of x] by (cases "x = e") auto
  moreover have "hd_count s \<notin> abandoned s" using inv by (auto simp: mm_inv_def log_ok_def)
  ultimately have "complete ?s (hd_count s)" by (simp add: complete_def f(2,3))
  then show ?thesis using f(1,2,4) send_step_reach [OF reach, of 5 e] by blast
qed

lemma reach_steps: "(mm_step cfg seg_status)\<^sup>*\<^sup>* s s' \<Longrightarrow> mm_reach cfg seg_status s \<Longrightarrow> mm_reach cfg seg_status s'"
  by (induction rule: rtranclp_induct) (auto intro: reach_step)

lemma poll_progress:
  assumes reach: "mm_reach cfg seg_status s" and cfg: "mm_config_ok cfg" and H: "hd_count s < 2 ^ 31" and rx: "rx_at s = Rx_Idle"
    and c: "complete s (rd s)"
  shows "mm_reach cfg seg_status (s\<lparr>rx_at := Rx_Process\<rparr>)"
proof -
  note inv = mm_reach_inv [OF reach cfg H]
  have "poll_check cfg s = Some (s\<lparr>rx_at := Rx_Process\<rparr>)"
    using poll_check_never_fails [OF inv H] complete_iff_new_data [OF inv cfg H] c by (auto simp: poll_check_def ucs_assert_def split: if_splits)
  then show ?thesis using reach_step [OF reach st_poll [of s cfg _ seg_status]] rx by blast
qed

text \<open>Two copied messages: the user keeps the descriptor of the first, and the pool has no other.\<close>

abbreviation copied :: "bytes \<Rightarrow> mm_msg" where
  "copied bs \<equiv> \<lparr>msg_id = 9, msg_op = UCT_MM_SEND_AM_BCOPY bs\<rparr>"

lemma copied_sent:
  assumes reach: "mm_reach sample_cfg (\<lambda>_ _. UCS_OK) s" and "at s 0 = Idle" "ep_cached_tail (mm_eps s 0) = 0" "hd_count s < 2"
  shows "\<exists>s'. mm_reach sample_cfg (\<lambda>_ _. UCS_OK) s' \<and> at s' 0 = Idle \<and> sent_log s' = sent_log s @ [copied bs] \<and> rx_same s s' \<and> complete s' (hd_count s)"
proof -
  let ?s = "uct_mm_ep_am_bcopy s 0 9 bs"
  have r: "mm_reach sample_cfg (\<lambda>_ _. UCS_OK) ?s" by (rule reach_step [OF reach st_bcopy [OF assms(2)]])
  have e: "at ?s 0 = Load (copied bs)" "ep_cached_tail (mm_eps ?s 0) = enc 0 False" "sent_log ?s = sent_log s" "rx_same s ?s"
    using assms(3) by (simp_all add: uct_mm_ep_am_bcopy_def go_def upd_ep_def enc_def rx_same_def)
  have "uct_mm_ep_has_tx_resources sample_cfg ?s 0"
    using able_iff [of 0 "hd_count ?s" 2] mm_reach_inv [OF r sample_start_ok(2)] assms(4) e(2,3)
    by (auto simp: uct_mm_ep_has_tx_resources_def mm_inv_def tails_ok_def fifo_size_def sample_cfg_def)
  then show ?thesis
    using send_progress [OF r sample_start_ok(2) _ e(1)] assms(4) e(3,4) by (auto simp: rx_same_def)
qed

lemma copied_received:
  "\<exists>s. mm_reach sample_cfg (\<lambda>_ _. UCS_OK) s \<and> at s 0 = Idle \<and> ep_cached_tail (mm_eps s 0) = 0 \<and> sent_log s = [copied bs] \<and>
     rx_at s = Rx_Tail \<and> last_recv_desc s = (if keep then None else Some 2) \<and> (keep \<longrightarrow> held_descs s \<noteq> {}) \<and> recv_log s = [Some (wire (copied bs))]"
proof -
  have st: "at sample_start 0 = Idle" "ep_cached_tail (mm_eps sample_start 0) = 0" "sent_log sample_start = []" "recv_log sample_start = []"
    "last_recv_desc sample_start = Some 2" "rx_at sample_start = Rx_Idle"
    by (simp_all add: sample_start_def sample_memory_def mm_iface_init_def)
  have start: "mm_reach sample_cfg (\<lambda>_ _. UCS_OK) sample_start" using sample_start_ok by (simp add: reach_start)
  from copied_sent [OF start st(1,2), of bs] obtain s where s: "mm_reach sample_cfg (\<lambda>_ _. UCS_OK) s" "at s 0 = Idle" "sent_log s = [copied bs]"
    "rx_same sample_start s" "complete s 0" by (auto simp: st)
  have f: "recv_log s = []" "last_recv_desc s = Some 2" "rx_at s = Rx_Idle" "ep_cached_tail (mm_eps s 0) = 0" using s(4) by (simp_all add: rx_same_def st)
  let ?p = "s\<lparr>rx_at := Rx_Process\<rparr>" and ?i = "elem_index sample_cfg (read_index s)"
  have p: "mm_reach sample_cfg (\<lambda>_ _. UCS_OK) ?p" by (rule poll_progress [OF s(1) sample_start_ok(2)]) (simp_all add: s f)
  have "mm_inv sample_cfg s" using mm_reach_inv [OF s(1) sample_start_ok(2)] by (simp add: s)
  then have i: "content_ok sample_cfg s" "log_ok s" by (simp_all add: mm_inv_def)
  have "?i = 0" using i(2) enc_index [of 0 sample_cfg False] by (simp add: log_ok_def f sample_cfg_def)
  then have fl: "el_flags (fifo_elems s ! ?i) AND UCT_MM_FIFO_ELEM_FLAG_INLINE = 0" "el_wire (desc_mem s) (fifo_elems s ! ?i) True = wire (copied bs)"
    using i(1) s(3,5) unfolding content_ok_def by (auto simp: f)
  define q where "q = poll_process sample_cfg None keep None ?p"
  have "mm_reach sample_cfg (\<lambda>_ _. UCS_OK) q" unfolding q_def by (rule reach_step [OF p]) (rule st_process, simp_all)
  moreover have "at q 0 = Idle" "ep_cached_tail (mm_eps q 0) = 0" "sent_log q = [copied bs]" "rx_at q = Rx_Tail"
    "last_recv_desc q = (if keep then None else Some 2)" "keep \<longrightarrow> held_descs q \<noteq> {}" "recv_log q = [Some (wire (copied bs))]"
    using fl s(2,3)
    by (simp_all add: q_def poll_process_def Let_def uct_mm_iface_process_recv_def deliver_def uct_mm_assign_desc_to_fifo_elem_def upd_elem_def f el_wire_def)
  ultimately show ?thesis by blast
qed

abbreviation sample_bcopy :: mm_msg where
  "sample_bcopy \<equiv> copied [5]"

lemma sample_kept:
  "\<exists>s. mm_reach sample_cfg (\<lambda>_ _. UCS_OK) s \<and> at s 0 = Idle \<and> ep_cached_tail (mm_eps s 0) = 0 \<and> sent_log s = [sample_bcopy] \<and>
     rx_at s = Rx_Tail \<and> last_recv_desc s = None \<and> held_descs s \<noteq> {} \<and> rd s = 1"
  using copied_received [of "[5]" True] by auto

lemma sample_starved:
  "\<exists>s. mm_reach sample_cfg (\<lambda>_ _. UCS_OK) s \<and> hd_count s = 2 \<and> rx_at s = Rx_Process \<and> last_recv_desc s = None \<and>
     is_bcopy (msg_op (sent_log s ! rd s))"
proof -
  obtain s where s: "mm_reach sample_cfg (\<lambda>_ _. UCS_OK) s" "at s 0 = Idle" "ep_cached_tail (mm_eps s 0) = 0" "sent_log s = [sample_bcopy]"
     "rx_at s = Rx_Tail" "last_recv_desc s = None" "rd s = 1" using sample_kept by blast
  let ?t = "poll_tail sample_cfg s"
  have t: "mm_reach sample_cfg (\<lambda>_ _. UCS_OK) ?t" by (rule reach_step [OF s(1) st_tail [OF s(5)]])
  have ft: "at ?t 0 = Idle" "ep_cached_tail (mm_eps ?t 0) = 0" "sent_log ?t = [sample_bcopy]" "rx_at ?t = Rx_Idle" "last_recv_desc ?t = None" "rd ?t = 1"
    using s by (simp_all add: poll_tail_def uct_mm_progress_fifo_tail_def)
  from copied_sent [OF t ft(1,2), of "[5]"] obtain u where u: "mm_reach sample_cfg (\<lambda>_ _. UCS_OK) u" "sent_log u = [sample_bcopy, sample_bcopy]"
    "rx_same ?t u" "complete u 1" by (auto simp: ft)
  have fu: "rd u = 1" "rx_at u = Rx_Idle" "last_recv_desc u = None" using u(3) ft by (simp_all add: rx_same_def)
  have "mm_reach sample_cfg (\<lambda>_ _. UCS_OK) (u\<lparr>rx_at := Rx_Process\<rparr>)"
    by (rule poll_progress [OF u(1) sample_start_ok(2)]) (use u fu in simp_all)
  then show ?thesis using u(2) fu by (intro exI [of _ "u\<lparr>rx_at := Rx_Process\<rparr>"]) simp
qed

lemma sample_writing:
  "\<exists>s. mm_reach sample_cfg seg_status s \<and> at s 0 = Write sample_bcopy 0 \<and> owned (at s 0) = Some (sample_bcopy, 0) \<and> hd_count s = 1"
proof -
  let ?m = sample_bcopy
  have e: "mm_eps sample_start 0 = \<lparr>ep_cached_tail = 0, ep_group_nonempty = False, ep_ret = 0, ep_at = Idle\<rparr>" "fifo_head sample_start = 0"
    "sent_log sample_start = []" by (simp_all add: sample_start_def sample_memory_def mm_iface_init_def)
  let ?s1 = "uct_mm_ep_am_bcopy sample_start 0 9 [5]" and ?s2 = "go 0 (Cas ?m 0) sample_start"
  have "UCT_MM_EP_IS_ABLE_TO_SEND 0 0 2" using able_iff [of 0 0 2 False] by (simp add: enc_def)
  then have s2: "send_load sample_cfg ?s1 0 ?m = ?s2"
    by (simp add: send_load_def Let_def uct_mm_ep_am_bcopy_def go_def upd_ep_def e sample_cfg_def fifo_size_def)
  have "mm_reach sample_cfg seg_status ?s1" using reach_step [OF reach_start [OF sample_start_ok(1)] st_bcopy [of sample_start 0]] by (simp add: e)
  then have "mm_reach sample_cfg seg_status ?s2"
    using reach_step st_load [of ?s1 0 ?m sample_cfg seg_status] s2 by (simp add: uct_mm_ep_am_bcopy_def go_def upd_ep_def)
  moreover have "at ?s2 0 = Cas ?m 0" by (simp add: go_def upd_ep_def)
  ultimately have "mm_reach sample_cfg seg_status (uct_mm_ep_get_remote_elem ?s2 0 ?m 0)" using reach_step st_cas by blast
  then show ?thesis
    by (rule exI [of "\<lambda>s. mm_reach sample_cfg seg_status s \<and> _ s", OF conjI]) (simp add: uct_mm_ep_get_remote_elem_def Let_def go_def upd_ep_def e)
qed

end
