(* ===== verification/Mm_Fifo_Stale.thy ===== *)
theory Mm_Fifo_Stale
  imports Mm_Fifo_Runs
begin

text \<open>
  A long run of the shared-memory FIFO: endpoint 7 sends and the receiver reads until the head is
  \<open>2 ^ 31\<close> elements past the copy of the tail that endpoint 0 holds, and the FIFO is full.
\<close>

abbreviation quick :: mm_msg where
  "quick \<equiv> \<lparr>msg_id = 0, msg_op = UCT_MM_SEND_AM_SHORT_IOV []\<rparr>"

text \<open>Endpoint 7 is created anew, so that it knows the tail, and sends.\<close>

lemma quick_sent:
  assumes reach: "mm_reach cfg seg_status s" and cfg: "mm_config_ok cfg" and H: "hd_count s < 2 ^ 31" and at: "at s 7 = Idle"
    and T: "fifo_tail s = enc T False" "T \<le> hd_count s" "hd_count s < T + fifo_size cfg"
  shows "\<exists>s'. mm_reach cfg seg_status s' \<and> at s' 7 = Idle \<and> sent_log s' = sent_log s @ [quick] \<and> complete s' (hd_count s) \<and>
    recv_log s' = recv_log s \<and> rx_at s' = rx_at s \<and> fifo_tail s' = fifo_tail s \<and> read_index s' = read_index s \<and> mm_eps s' 0 = mm_eps s 0 \<and>
    fifo_head s' = enc (hd_count s + 1) False \<and> (\<forall>k. k \<noteq> hd_count s mod fifo_size cfg \<longrightarrow> fifo_elems s' ! k = fifo_elems s ! k)"
proof -
  let ?s1 = "mm_ep_init s 7"
  let ?s2 = "uct_mm_ep_am_short_iov cfg ?s1 7 0 []"
  have "at ?s1 7 = Idle" by (simp add: mm_ep_init_def upd_ep_def)
  then have r: "mm_reach cfg seg_status ?s2" using reach_step [OF reach_step [OF reach st_create [OF at]] st_short_iov] by blast
  have f: "at ?s2 7 = Load quick" "ep_cached_tail (mm_eps ?s2 7) = enc T False" "sent_log ?s2 = sent_log s" "recv_log ?s2 = recv_log s"
    "rx_at ?s2 = rx_at s" "fifo_tail ?s2 = fifo_tail s" "read_index ?s2 = read_index s" "mm_eps ?s2 0 = mm_eps s 0" "fifo_head ?s2 = fifo_head s"
    "fifo_elems ?s2 = fifo_elems s"
    by (simp_all add: uct_mm_ep_am_short_iov_def mm_ep_init_def go_def upd_ep_def T)
  have inv: "mm_inv cfg ?s2" using mm_reach_inv [OF r cfg] H f(3) by simp
  obtain a where h: "fifo_head s = enc (hd_count s) a" using inv f(3,9) by (auto simp: mm_inv_def tails_ok_def)
  have b: "fifo_size cfg < 2 ^ 31" "hd_count s + 1 < 2 ^ 63" using fifo_size_bounds [OF cfg] H by simp_all
  have able: "uct_mm_ep_has_tx_resources cfg ?s2 7"
    unfolding uct_mm_ep_has_tx_resources_def f(2,9) h using able_iff [OF T(2), of "fifo_size cfg" a] T(2,3) b(1) H by simp
  let ?s = "(send_step cfg seg_status Send_Done 7 ^^ 5) ?s2"
  note g = send_five [OF f(1) able, of Send_Done seg_status, simplified]
  have "idx h' \<noteq> hd_count s" if "owned (at ?s x) = Some (m', h')" for x m' h'
    using owner_facts(3) [OF inv _ cfg, of x m' h'] that g(1) g(5) [of x] H by (cases "x = 7") (auto simp: f(3))
  moreover have "hd_count s \<notin> abandoned ?s2" using inv by (auto simp: mm_inv_def log_ok_def f(3))
  ultimately have "complete ?s (hd_count s)" by (simp add: complete_def g(2,3) f(3))
  moreover have "elem_index cfg (fifo_head s) = hd_count s mod fifo_size cfg"
    unfolding h using enc_index [of "hd_count s" cfg a] b cfg by (simp add: mm_config_ok_def)
  moreover have "fifo_head ?s = enc (hd_count s + 1) False" using g(9) enc_next [OF b(2), of a] by (simp add: f h)
  ultimately show ?thesis
    using send_step_reach [OF r, of 5 7] g(1,2,4,5,6,7) by (intro exI [of _ ?s]) (simp add: rx_same_def f)
qed

text \<open>The receiver reads a message and releases its element at once.\<close>

lemma quick_read:
  assumes reach: "mm_reach cfg seg_status s" and cfg: "mm_config_ok cfg" "fifo_release_factor_mask cfg = 0" and H: "hd_count s < 2 ^ 31"
    and rx: "rx_at s = Rx_Idle" and c: "complete s (rd s)"
  shows "\<exists>s'. mm_reach cfg seg_status s' \<and> rd s' = rd s + 1 \<and> rx_at s' = Rx_Idle \<and> sent_log s' = sent_log s \<and> mm_eps s' = mm_eps s \<and>
    fifo_tail s' = enc (rd s + 1) False"
proof -
  let ?p = "s\<lparr>rx_at := Rx_Process\<rparr>"
  let ?q = "poll_process cfg None False None ?p"
  have "read_index s = enc (rd s) False" using mm_reach_inv [OF reach cfg(1) H] by (simp add: mm_inv_def log_ok_def)
  then have q: "rd ?q = rd s + 1" "sent_log ?q = sent_log s" "mm_eps ?q = mm_eps s" "rx_at ?q = Rx_Tail" "read_index ?q = enc (rd s + 1) False"
    by (simp_all add: poll_process_def uct_mm_iface_process_recv_def Let_def deliver_def enc_def split: option.splits)
  have "mm_reach cfg seg_status ?q" by (rule reach_step [OF poll_progress [OF reach cfg(1) H rx c]]) (rule st_process, simp_all)
  then have "mm_reach cfg seg_status (poll_tail cfg ?q)" by (rule reach_step) (rule st_tail [OF q(4)])
  then show ?thesis
    using q by (intro exI [of _ "poll_tail cfg ?q"]) (simp add: poll_tail_def uct_mm_progress_fifo_tail_def cfg(2))
qed

abbreviation fresh_ep :: uct_mm_ep where
  "fresh_ep \<equiv> \<lparr>ep_cached_tail = 0, ep_group_nonempty = False, ep_ret = 0, ep_at = Idle\<rparr>"

lemma quick_rounds:
  assumes start: "mm_start cfg s0" and cfg: "mm_config_ok cfg" "fifo_release_factor_mask cfg = 0"
  shows "n < 2 ^ 31 \<Longrightarrow> \<exists>s. mm_reach cfg seg_status s \<and> hd_count s = n \<and> rd s = n \<and> fifo_tail s = enc n False \<and> rx_at s = Rx_Idle \<and>
    at s 7 = Idle \<and> mm_eps s 0 = fresh_ep"
proof (induction n)
  case 0
  have "hd_count s0 = 0 \<and> rd s0 = 0 \<and> fifo_tail s0 = enc 0 False \<and> rx_at s0 = Rx_Idle \<and> at s0 7 = Idle \<and> mm_eps s0 0 = fresh_ep"
    using start unfolding mm_start_def by (auto simp: mm_iface_init_def enc_def)
  then show ?case using reach_start [OF start] by blast
next
  case (Suc n)
  then obtain s where s: "mm_reach cfg seg_status s" "hd_count s = n" "rd s = n" "fifo_tail s = enc n False" "rx_at s = Rx_Idle"
    "at s 7 = Idle" "mm_eps s 0 = fresh_ep" by auto
  obtain u where u: "mm_reach cfg seg_status u" "at u 7 = Idle" "hd_count u = Suc n" "complete u n" "rd u = n" "rx_at u = Rx_Idle" "mm_eps u 0 = fresh_ep"
    using quick_sent [OF s(1) cfg(1) _ s(6,4)] s fifo_size_bounds [OF cfg(1)] Suc.prems by auto
  show ?case using quick_read [OF u(1) cfg _ u(6)] u Suc.prems by auto
qed

text \<open>Then the FIFO fills up; the oldest unread message stays where it is.\<close>

lemma quick_fill:
  assumes start: "mm_start cfg s0" and cfg: "mm_config_ok cfg" "fifo_release_factor_mask cfg = 0" "1 < fifo_size cfg"
  defines "r \<equiv> 2 ^ 31 - fifo_size cfg"
  shows "0 < k \<Longrightarrow> k \<le> fifo_size cfg \<Longrightarrow> \<exists>s. mm_reach cfg seg_status s \<and> hd_count s = r + k \<and> rd s = r \<and> fifo_tail s = enc r False \<and>
    at s 7 = Idle \<and> mm_eps s 0 = fresh_ep \<and> read_index s = enc r False \<and> fifo_head s = enc (r + k) False \<and> uct_mm_iface_fifo_has_new_data cfg s"
proof (induction k rule: nat_induct_non_zero)
  case 1
  have b: "r < 2 ^ 31" "r + 1 < 2 ^ 31" using cfg(3) fifo_size_bounds [OF cfg(1)] by (simp_all add: r_def)
  obtain s where s: "mm_reach cfg seg_status s" "hd_count s = r" "rd s = r" "fifo_tail s = enc r False" "at s 7 = Idle" "mm_eps s 0 = fresh_ep"
    using quick_rounds [OF start cfg(1,2) b(1)] by blast
  obtain u where u: "mm_reach cfg seg_status u" "at u 7 = Idle" "hd_count u = r + 1" "complete u r" "rd u = r" "fifo_tail u = enc r False"
    "mm_eps u 0 = fresh_ep" "fifo_head u = enc (r + 1) False"
    using quick_sent [OF s(1) cfg(1) _ s(5,4)] s cfg(3) b by auto
  have inv: "mm_inv cfg u" using mm_reach_inv [OF u(1) cfg(1)] u(3) b by simp
  then have "read_index u = enc r False" by (simp add: mm_inv_def log_ok_def u(5))
  then show ?case using u complete_iff_new_data [OF inv cfg(1)] b by auto
next
  case (Suc k)
  then obtain s where s: "mm_reach cfg seg_status s" "hd_count s = r + k" "rd s = r" "fifo_tail s = enc r False" "at s 7 = Idle"
    "mm_eps s 0 = fresh_ep" "read_index s = enc r False" "uct_mm_iface_fifo_has_new_data cfg s" by auto
  have b: "r + k < 2 ^ 31" "r < 2 ^ 63" "fifo_shift cfg \<le> 31" using Suc.prems fifo_size_bounds [OF cfg(1)] cfg(1) by (simp_all add: r_def mm_config_ok_def)
  obtain u where u: "mm_reach cfg seg_status u" "at u 7 = Idle" "hd_count u = r + Suc k" "rd u = r" "fifo_tail u = enc r False"
    "mm_eps u 0 = fresh_ep" "fifo_head u = enc (r + Suc k) False" "read_index u = enc r False"
    "\<forall>i. i \<noteq> (r + k) mod fifo_size cfg \<longrightarrow> fifo_elems u ! i = fifo_elems s ! i"
    using quick_sent [OF s(1) cfg(1) _ s(5,4)] s(2,3,4,6,7) b(1) Suc.prems by auto
  have "r mod fifo_size cfg \<noteq> (r + k) mod fifo_size cfg" using slot_neq [of r r "fifo_size cfg" "r + k"] Suc by simp
  then have "uct_mm_iface_fifo_has_new_data cfg u"
    using s(8) u(9) unfolding has_new_data_iff [OF s(7) b(2,3)] has_new_data_iff [OF u(8) b(2,3)] by metis
  then show ?case using u by auto
qed

text \<open>Endpoint 0 has kept its first copy of the tail and takes the next element, which is not read yet.\<close>

lemma stale_run:
  assumes start: "mm_start cfg s0" and cfg: "mm_config_ok cfg" "fifo_release_factor_mask cfg = 0" "1 < fifo_size cfg"
  shows "\<exists>s. mm_reach cfg seg_status s \<and> hd_count s = 2 ^ 31 \<and> rd s + fifo_size cfg = 2 ^ 31 \<and>
    at s 0 = Load quick \<and> uct_mm_iface_fifo_has_new_data cfg s \<and>
    \<not> uct_mm_iface_fifo_has_new_data cfg ((send_step cfg seg_status Send_Done 0 ^^ 5) s)"
proof -
  define r where "r = 2 ^ 31 - fifo_size cfg"
  have r: "r + fifo_size cfg = 2 ^ 31" "r < 2 ^ 63" "fifo_shift cfg \<le> 31"
    using fifo_size_bounds [OF cfg(1)] cfg(1) by (simp_all add: r_def mm_config_ok_def)
  obtain s where s: "mm_reach cfg seg_status s" "hd_count s = 2 ^ 31" "rd s = r" "mm_eps s 0 = fresh_ep" "read_index s = enc r False"
    "fifo_head s = enc (2 ^ 31) False" "uct_mm_iface_fifo_has_new_data cfg s"
    using quick_fill [OF start cfg, of "fifo_size cfg" seg_status] cfg(3) r(1) unfolding r_def [symmetric] by auto
  let ?s = "uct_mm_ep_am_short_iov cfg s 0 0 []"
  have reach: "mm_reach cfg seg_status ?s" using reach_step [OF s(1) st_short_iov [of s 0]] s(4) by simp
  have f: "at ?s 0 = Load quick" "fifo_elems ?s = fifo_elems s" "read_index ?s = enc r False" "fifo_head ?s = enc (2 ^ 31) False"
    "ep_cached_tail (mm_eps ?s 0) = enc 0 False" "sent_log ?s = sent_log s" "recv_log ?s = recv_log s"
    using s(4) by (simp_all add: uct_mm_ep_am_short_iov_def go_def upd_ep_def s(5,6) enc_def)
  have able: "uct_mm_ep_has_tx_resources cfg ?s 0"
    unfolding uct_mm_ep_has_tx_resources_def f(4,5) using able_stale [of 0 "2 ^ 31" "fifo_size cfg"] fifo_size_bounds [OF cfg(1)] by simp
  have new: "uct_mm_iface_fifo_has_new_data cfg ?s"
    using s(7) unfolding has_new_data_iff [OF s(5) r(2,3)] has_new_data_iff [OF f(3) r(2,3)] f(2) .
  note g = send_five [OF f(1) able, of Send_Done seg_status, simplified, unfolded f(4)]
  have "(2 ^ 31 :: nat) = (r + fifo_size cfg) " using r by simp
  then have m: "(2 ^ 31) mod fifo_size cfg = r mod fifo_size cfg" "odd ((2 ^ 31) div fifo_size cfg) \<longleftrightarrow> even (r div fifo_size cfg)"
    using cfg(3) by (simp_all only: mod_add_self2 div_add_self2) simp_all
  have i: "elem_index cfg (enc (2 ^ 31) False) = r mod fifo_size cfg" using enc_index [of "2 ^ 31" cfg False] r(3) m(1) by simp
  let ?t = "(send_step cfg seg_status Send_Done 0 ^^ 5) ?s"
  have "r mod fifo_size cfg < length (fifo_elems ?s)" using elems_length [OF reach] cfg(3) by simp
  then have "bit (el_flags (fifo_elems ?t ! (r mod fifo_size cfg))) 0 \<longleftrightarrow> odd ((2 ^ 31) div fifo_size cfg)"
    using g(10) enc_owner [of "2 ^ 31" cfg False] r(3) op_flags_bits(1,2) [of quick] by (simp add: i [simplified])
  then have "\<not> uct_mm_iface_fifo_has_new_data cfg ?t"
    using m(2) has_new_data_iff [of ?t r cfg] g(6) f(3) r(2,3) by simp
  then show ?thesis using reach f(1,6,7) s(2,3) r(1) new by (intro exI [of _ ?s]) simp
qed

end
