(* ===== verification/Mm_Fifo_Props.thy ===== *)
theory Mm_Fifo_Props
  imports Mm_Fifo_Stale
begin


section \<open>Properties\<close>

text \<open>C1: However the processes interleave, as long as fewer than \<open>2 ^ 31\<close> messages were sent and
  none is longer than the 16-bit length field, the receiver gets the messages one by one in the order in
  which their senders took their places in the FIFO, each with its identifier and its bytes; an index for
  which nothing is delivered belongs to a copied message.  If the receive pool never runs dry, there is no
  such index: what was delivered is exactly the beginning of what was sent.  The FIFO never holds more
  messages than it has elements.\<close>

theorem mm_fifo_in_order:
  assumes "mm_reach cfg seg_status s" "mm_config_ok cfg" "length (sent_log s) < 2 ^ 31"
    "\<forall>m \<in> set (sent_log s). length (send_payload (msg_op m)) < 2 ^ 16"
  shows "length (recv_log s) \<le> length (sent_log s) \<and> length (sent_log s) \<le> length (recv_log s) + fifo_size cfg \<and>
    (\<forall>j < length (recv_log s).
       recv_log s ! j = Some (msg_id (sent_log s ! j), send_payload (msg_op (sent_log s ! j))) \<or>
       recv_log s ! j = None \<and> is_bcopy (msg_op (sent_log s ! j))) \<and>
    (mm_fed cfg seg_status s \<longrightarrow>
       recv_log s = map (\<lambda>m. Some (msg_id m, send_payload (msg_op m))) (take (length (recv_log s)) (sent_log s)))"
proof -
  have i: "log_ok s" "tails_ok cfg s" using mm_reach_inv [OF assms(1,2,3)] by (simp_all add: mm_inv_def)
  have "wire m = (msg_id m, send_payload (msg_op m))" if "m \<in> set (sent_log s)" for m
    using assms(4) that by (simp add: wire_def unat_of_nat take_bit_eq_mod)
  then have w: "wire (sent_log s ! j) = (msg_id (sent_log s ! j), send_payload (msg_op (sent_log s ! j)))" if "j < length (recv_log s)" for j
    using that i(1) by (simp add: log_ok_def)
  have "recv_log s ! j = Some (wire (sent_log s ! j))" if "mm_fed cfg seg_status s" "j < length (recv_log s)" for j
    using fed_delivers [OF that(1)] that(2) i(1) unfolding log_ok_def by (metis nth_mem)
  then have "recv_log s = map (\<lambda>m. Some (msg_id m, send_payload (msg_op m))) (take (length (recv_log s)) (sent_log s))" if "mm_fed cfg seg_status s"
    using that w i(1) by (intro nth_equalityI) (auto simp: log_ok_def)
  then show ?thesis using i w by (auto simp: log_ok_def tails_ok_def)
qed

theorem mm_fifo_in_order_witness:
  "mm_fed sample_cfg (\<lambda>_ _. UCS_OK) sample_delivered \<and> recv_log sample_delivered = [Some (7, [1, 2])]"
  using mm_fifo_in_order [OF sample_delivered_reach sample_start_ok(2)] sample_delivered_fed
  by (simp add: sample_delivered_fields sample_msg_def)

text \<open>C2: No wake-up is lost: if the receiver sleeps after it armed the event and there is a message it
  could read, then a signal is waiting in its socket, or the sender of that message is about to send one,
  or the operating system refused the signal of that sender with an error other than a full queue.  Fewer
  than \<open>2 ^ 31\<close> messages were sent; a send that fails because the queue is full finds a signal in it.\<close>

theorem mm_no_lost_wakeup:
  assumes "mm_reach cfg seg_status s" "mm_config_ok cfg" "length (sent_log s) < 2 ^ 31"
    "rx_at s = Rx_Asleep" "uct_mm_iface_fifo_has_new_data cfg s"
  shows "sig_queue s > 0 \<or> length (recv_log s) \<in> unsignalled s \<or>
    (\<exists>e m h. ep_at (mm_eps s e) = Signal m h \<and> h AND UCT_MM_IFACE_FIFO_HEAD_EVENT_ARMED \<noteq> 0)"
proof -
  note inv = mm_reach_inv [OF assms(1,2,3)]
  have i: "log_ok s" "tails_ok cfg s" "rx_ok s" using inv by (simp_all add: mm_inv_def)
  have c: "complete s (rd s)" using complete_iff_new_data [OF inv assms(2,3)] assms(5) by simp
  have b: "rd s < 2 ^ 63" "hd_count s < 2 ^ 63" "rd s < hd_count s" using i(1) assms(3) c by (simp_all add: log_ok_def complete_def)
  have "wake s" using i(3) assms(4) by (simp add: rx_ok_def)
  then show ?thesis
  proof (rule wakeE)
    assume "fifo_head s = enc (rd s) True"
    moreover obtain a where "fifo_head s = enc (hd_count s) a" using i(2) by (auto simp: tails_ok_def)
    ultimately show ?thesis using b enc_eq_iff by simp
  next
    assume "rd s \<in> abandoned s"
    then show ?thesis using c by (simp add: complete_def)
  next
    fix e
    assume e: "pc_head (at s e) = Some (enc (rd s) True)"
    show ?thesis
    proof (cases "owned (at s e)")
      case None
      then obtain m where "at s e = Signal m (enc (rd s) True)" using e by (cases "at s e") auto
      then show ?thesis using enc_armed [OF b(1), of True] by blast
    next
      case (Some y)
      then obtain m where "owned (at s e) = Some (m, enc (rd s) True)" using e by (cases "at s e") auto
      then show ?thesis using c b(1) unfolding complete_def by (metis idx_enc)
    qed
  qed simp_all
qed

theorem mm_no_lost_wakeup_witness:
  "mm_reach sample_cfg (\<lambda>_ _. UCS_OK) sample_sent \<and> rx_at sample_sent = Rx_Asleep \<and>
   (sig_queue sample_sent > 0 \<or> length (recv_log sample_sent) \<in> unsignalled sample_sent \<or>
    (\<exists>e m h. ep_at (mm_eps sample_sent e) = Signal m h \<and> h AND UCT_MM_IFACE_FIFO_HEAD_EVENT_ARMED \<noteq> 0))"
  using mm_no_lost_wakeup [OF sample_sent_reach sample_start_ok(2) _ _ sample_new_data] sample_sent_reach
  by (simp add: sample_sent_fields)

text \<open>C17: The assertions of the receiver hold in every reachable state: its read index never passes the
  head, and nobody else arms the event.\<close>

theorem mm_receiver_asserts:
  assumes "mm_reach cfg seg_status s" "mm_config_ok cfg" "length (sent_log s) < 2 ^ 31"
  shows "poll_check cfg s \<noteq> None \<and> (\<forall>h. rx_at s = Rx_Arm h \<longrightarrow> arm_cas h s \<noteq> None)"
  using poll_check_never_fails [OF mm_reach_inv [OF assms]] arm_cas_ok [OF mm_reach_inv [OF assms]] assms(3) by fastforce

theorem mm_receiver_asserts_witness:
  "poll_check sample_cfg sample_sent \<noteq> None"
  using mm_receiver_asserts [OF sample_sent_reach sample_start_ok(2)] by (simp add: sample_sent_fields)

text \<open>C8: An endpoint that took an element has it for itself until it sets the flags: no other endpoint
  fills the same element, and the receiver does not read it.\<close>

theorem mm_element_exclusive:
  assumes "mm_reach cfg seg_status s" "mm_config_ok cfg" "length (sent_log s) < 2 ^ 31" "owned (ep_at (mm_eps s e)) = Some (m, h)"
  shows "(\<forall>e' m' h'. owned (ep_at (mm_eps s e')) = Some (m', h') \<and> e' \<noteq> e \<longrightarrow> elem_index cfg h' \<noteq> elem_index cfg h) \<and>
    (uct_mm_iface_fifo_has_new_data cfg s \<longrightarrow> elem_index cfg (read_index s) \<noteq> elem_index cfg h)"
proof -
  note inv = mm_reach_inv [OF assms(1,2,3)]
  note j = owner_facts [OF inv assms(4,2,3)]
  have "elem_index cfg h' \<noteq> elem_index cfg h" if o: "owned (at s e') = Some (m', h')" "e' \<noteq> e" for e' m' h'
    using owner_facts(2,3,7,12) [OF inv o(1) assms(2,3)] j(7,10,11) o by (metis order.strict_trans2)
  moreover have "elem_index cfg (read_index s) \<noteq> elem_index cfg h" if n: "uct_mm_iface_fifo_has_new_data cfg s"
  proof -
    have c: "complete s (rd s)" using complete_iff_new_data [OF inv assms(2,3)] n by simp
    have i: "log_ok s" using inv by (simp add: mm_inv_def)
    have "rd s \<noteq> idx h" using c j(9) by auto
    moreover have "elem_index cfg (read_index s) = rd s mod fifo_size cfg"
      using enc_index [of "rd s" cfg False] i assms(2,3) by (simp add: log_ok_def mm_config_ok_def)
    ultimately show ?thesis using j(7) j(11) [of "rd s"] fifo_size_bounds [OF assms(2)] by simp
  qed
  ultimately show ?thesis by blast
qed

theorem mm_element_exclusive_witness:
  "\<exists>s. mm_reach sample_cfg (\<lambda>_ _. UCS_OK) s \<and> owned (ep_at (mm_eps s 0)) = Some (sample_bcopy, 0) \<and>
     (uct_mm_iface_fifo_has_new_data sample_cfg s \<longrightarrow> elem_index sample_cfg (read_index s) \<noteq> elem_index sample_cfg 0)"
proof -
  obtain s where s: "mm_reach sample_cfg (\<lambda>_ _. UCS_OK) s" "owned (at s 0) = Some (sample_bcopy, 0)" "hd_count s = 1"
    using sample_writing [of "\<lambda>_ _. UCS_OK"] by auto
  then show ?thesis using mm_element_exclusive [OF s(1) sample_start_ok(2) _ s(2)] by auto
qed

text \<open>C20: A receive descriptor that the user keeps is not written by any sender before it is released.\<close>

theorem mm_held_descriptor_stable:
  assumes "mm_reach cfg seg_status s" "mm_config_ok cfg" "length (sent_log s) < 2 ^ 31" "mm_step cfg seg_status s s'" "d \<in> held_descs s"
  shows "desc_mem s' d = desc_mem s d"
proof -
  note inv = mm_reach_inv [OF assms(1,2,3)]
  from assms(4) show ?thesis
  proof cases
    case (st_write e m h)
    have "elem_index cfg h < length (fifo_elems s)" using owner_facts(7,8) [OF inv _ assms(2,3), of e m h] st_write by simp
    then have "el_desc (fifo_elems s ! elem_index cfg h) \<noteq> d"
      using inv assms(5) by (auto simp: mm_inv_def descs_ok_def)
    then show ?thesis
      using st_write by (auto simp: send_write_def Let_def go_def upd_ep_def upd_elem_def return_with_def split: uct_mm_send_op.splits)
  qed (auto simp: mm_ops split: if_splits option.splits recvfrom_result.splits sendto_result.splits)
qed

theorem mm_held_descriptor_stable_witness:
  "\<exists>s d. mm_reach sample_cfg (\<lambda>_ _. UCS_OK) s \<and> d \<in> held_descs s \<and> desc_mem (poll_tail sample_cfg s) d = desc_mem s d"
proof -
  obtain s d where s: "mm_reach sample_cfg (\<lambda>_ _. UCS_OK) s" "rx_at s = Rx_Tail" "d \<in> held_descs s" "hd_count s = 1"
    using sample_kept by fastforce
  then have "desc_mem (poll_tail sample_cfg s) d = desc_mem s d"
    using mm_held_descriptor_stable [OF s(1) sample_start_ok(2) _ st_tail [OF s(2)] s(3)] by simp
  then show ?thesis using s by blast
qed





section \<open>Losing messages\<close>

text \<open>C31: When attaching the descriptor's segment fails after the element was taken, the element is never
  published; the receiver never gets past it, so no later message is ever delivered.\<close>

theorem mm_attach_failure_blocks:
  assumes "mm_reach cfg seg_status s" "mm_config_ok cfg" "ep_at (mm_eps s e) = Write m h" "is_bcopy (msg_op m)"
    "seg_status e (el_desc (fifo_elems s ! elem_index cfg h)) \<noteq> UCS_OK" "(mm_step cfg seg_status)\<^sup>*\<^sup>* (send_write cfg seg_status s e m h) s'"
    "length (sent_log s') < 2 ^ 31"
  shows "length (recv_log s') \<le> idx h"
proof -
  let ?s1 = "send_write cfg seg_status s e m h"
  have r1: "mm_reach cfg seg_status ?s1" using reach_step [OF assms(1) st_write [OF assms(3)]] .
  have a1: "idx h \<in> abandoned ?s1"
    using assms(4,5) by (cases "msg_op m") (simp_all add: send_write_def Let_def return_with_def upd_ep_def idx_def)
  have "mm_reach cfg seg_status s' \<and> idx h \<in> abandoned s'"
    using assms(6)
  proof (induction rule: rtranclp_induct)
    case base
    then show ?case using r1 a1 by blast
  next
    case (step y z)
    then show ?case using abandoned_mono reach_step by blast
  qed
  then show ?thesis using mm_reach_inv [OF _ assms(2,7), of seg_status] by (auto simp: mm_inv_def log_ok_def)
qed

theorem mm_attach_failure_blocks_witness:
  "\<exists>s. mm_reach sample_cfg (\<lambda>_ _. UCS_ERR_SHMEM_SEGMENT) s \<and> length (sent_log s) = 1 \<and> length (recv_log s) = 0"
proof -
  obtain s where s: "mm_reach sample_cfg (\<lambda>_ _. UCS_ERR_SHMEM_SEGMENT) s" "at s 0 = Write sample_bcopy 0" "hd_count s = 1"
    using sample_writing [of "\<lambda>_ _. UCS_ERR_SHMEM_SEGMENT"] by auto
  let ?t = "send_write sample_cfg (\<lambda>_ _. UCS_ERR_SHMEM_SEGMENT) s 0 sample_bcopy 0"
  have t: "mm_reach sample_cfg (\<lambda>_ _. UCS_ERR_SHMEM_SEGMENT) ?t" "hd_count ?t = 1"
    using reach_step [OF s(1) st_write [OF s(2)]] s(3) by (simp_all add: send_write_def Let_def return_with_def upd_ep_def)
  have "length (recv_log ?t) \<le> idx 0"
    using mm_attach_failure_blocks [OF s(1) sample_start_ok(2) s(2)] t(2) by auto
  then show ?thesis using t by (auto simp: idx_def)
qed

text \<open>C32: When no receive descriptor is left, the receiver skips a copied message without delivering it.\<close>

theorem mm_empty_pool_drops_message:
  assumes "mm_reach cfg seg_status s" "mm_config_ok cfg" "length (sent_log s) < 2 ^ 31" "rx_at s = Rx_Process"
    "is_bcopy (msg_op (sent_log s ! length (recv_log s)))" "last_recv_desc s = None"
  shows "mm_step cfg seg_status s (poll_process cfg None keep None s) \<and>
    recv_log (poll_process cfg None keep None s) = recv_log s @ [None] \<and>
    read_index (poll_process cfg None keep None s) = read_index s + 1"
proof -
  note inv = mm_reach_inv [OF assms(1,2,3)]
  have i: "rx_ok s" "content_ok cfg s" "log_ok s" using inv by (simp_all add: mm_inv_def)
  have c: "complete s (rd s)" using i(1) assms(4) by (simp add: rx_ok_def)
  have "elem_index cfg (read_index s) = rd s mod fifo_size cfg"
    using enc_index [of "rd s" cfg False] i(3) assms(2,3) by (simp add: log_ok_def mm_config_ok_def)
  then have "el_flags (fifo_elems s ! elem_index cfg (read_index s)) AND UCT_MM_FIFO_ELEM_FLAG_INLINE = 0"
    using i(2) c assms(5) unfolding content_ok_def by simp
  then show ?thesis
    using st_process [OF assms(4), of None None cfg seg_status keep] assms(6)
    by (simp add: poll_process_def uct_mm_iface_process_recv_def Let_def deliver_def)
qed

theorem mm_empty_pool_drops_message_witness:
  "\<exists>s s'. mm_reach sample_cfg (\<lambda>_ _. UCS_OK) s \<and> mm_step sample_cfg (\<lambda>_ _. UCS_OK) s s' \<and> recv_log s' = recv_log s @ [None]"
proof -
  obtain s where s: "mm_reach sample_cfg (\<lambda>_ _. UCS_OK) s" "hd_count s = 2" "rx_at s = Rx_Process" "last_recv_desc s = None"
     "is_bcopy (msg_op (sent_log s ! rd s))" using sample_starved by blast
  then show ?thesis using mm_empty_pool_drops_message [OF s(1) sample_start_ok(2) _ s(3,5,4), of False] by auto
qed

text \<open>C33: There is a run of \<open>2 ^ 31\<close> messages after which the FIFO is full and the receiver has a
  message to read, and an endpoint that has held its copy of the tail since the start sends all the same:
  its five steps overwrite the element of that message, and the receiver no longer sees a message there.\<close>

theorem mm_stale_tail_overwrites:
  assumes "mm_start cfg s0" "mm_config_ok cfg" "fifo_release_factor_mask cfg = 0" "1 < fifo_size cfg"
  shows "\<exists>s. mm_reach cfg seg_status s \<and> length (sent_log s) = 2 ^ 31 \<and> length (recv_log s) + fifo_size cfg = 2 ^ 31 \<and>
    (\<exists>m. ep_at (mm_eps s 0) = Load m) \<and> uct_mm_iface_fifo_has_new_data cfg s \<and>
    \<not> uct_mm_iface_fifo_has_new_data cfg ((send_step cfg seg_status Send_Done 0 ^^ 5) s)"
  using stale_run [OF assms, of seg_status] by blast

theorem mm_stale_tail_overwrites_witness:
  "\<exists>s. mm_reach sample_cfg (\<lambda>_ _. UCS_OK) s \<and> length (sent_log s) = 2 ^ 31 \<and> length (recv_log s) + 2 = 2 ^ 31 \<and>
    uct_mm_iface_fifo_has_new_data sample_cfg s \<and>
    \<not> uct_mm_iface_fifo_has_new_data sample_cfg ((send_step sample_cfg (\<lambda>_ _. UCS_OK) Send_Done 0 ^^ 5) s)"
proof -
  have c: "fifo_size sample_cfg = 2" "fifo_release_factor_mask sample_cfg = 0" by (simp_all add: fifo_size_def sample_cfg_def)
  show ?thesis using mm_stale_tail_overwrites [OF sample_start_ok c(2), of "\<lambda>_ _. UCS_OK"] unfolding c(1) by auto
qed

text \<open>C34: A message of \<open>2 ^ 16\<close> bytes or more reaches the receiver with only its length modulo
  \<open>2 ^ 16\<close>.\<close>

theorem mm_long_message_truncated:
  assumes "mm_reach cfg seg_status s" "mm_config_ok cfg" "length (sent_log s) < 2 ^ 31" "j < length (recv_log s)" "recv_log s ! j = Some (i, bs)"
  shows "length bs = length (send_payload (msg_op (sent_log s ! j))) mod 2 ^ 16"
proof -
  have "log_ok s" using mm_reach_inv [OF assms(1,2,3)] by (simp add: mm_inv_def)
  then have "Some (i, bs) = Some (wire (sent_log s ! j))" using assms(4,5) by (auto simp: log_ok_def)
  then show ?thesis by (simp add: wire_def unat_of_nat take_bit_eq_mod)
qed

theorem mm_long_message_truncated_witness:
  "\<exists>s i bs. mm_reach sample_cfg (\<lambda>_ _. UCS_OK) s \<and> length (send_payload (msg_op (sent_log s ! 0))) = 2 ^ 16 + 2 \<and>
     recv_log s ! 0 = Some (i, bs) \<and> length bs = 2"
proof -
  obtain s where s: "mm_reach sample_cfg (\<lambda>_ _. UCS_OK) s" "sent_log s = [copied (replicate (2 ^ 16 + 2) 5)]"
    "recv_log s = [Some (wire (copied (replicate (2 ^ 16 + 2) 5)))]"
    using copied_received [of "replicate (2 ^ 16 + 2) 5" False] by blast
  obtain i bs where w: "wire (copied (replicate (2 ^ 16 + 2) 5)) = (i, bs)" by fastforce
  have "length bs = 2" using mm_long_message_truncated [OF s(1) sample_start_ok(2), of 0 i bs] w by (simp add: s(2,3))
  then show ?thesis using s w by (intro exI [of _ s] exI [of _ i] exI [of _ bs]) (simp)
qed

end
