(* ===== verification/Pgt_Order.thy ===== *)
theory Pgt_Order
  imports Status
begin

text \<open>
  The arithmetic of the page table \<^verbatim>\<open>src/src/ucs/datastruct/pgtable.c\<close>: the bit scans
  of \<^verbatim>\<open>src/src/ucs/arch/bitops.h\<close>, the size of the next whole page of a range, and
  the split of an aligned range into such pages.  A page of order \<open>n\<close> has \<open>2 ^ n\<close> bytes.
\<close>

section \<open>Definitions\<close>

text \<open>The highest set bit, as the chain of tests in \<^verbatim>\<open>ucs_ilog2\<close> finds it.\<close>

definition ucs_ilog2 :: "u64 \<Rightarrow> nat" where
  "ucs_ilog2 n = (case List.find (\<lambda>i. bit n i) (rev [0..<64]) of Some i \<Rightarrow> i | None \<Rightarrow> 0)"

text \<open>The lowest set bit (the instruction leaves the result undefined for 0; no caller passes it).\<close>

definition ucs_ffs64 :: "u64 \<Rightarrow> nat" where
  "ucs_ffs64 n = (case List.find (\<lambda>i. bit n i) [0..<64] of Some i \<Rightarrow> i | None \<Rightarrow> 0)"

definition UCS_PGT_ADDR_SHIFT :: nat where
  "UCS_PGT_ADDR_SHIFT = 4"

definition UCS_PGT_ADDR_ORDER :: nat where
  "UCS_PGT_ADDR_ORDER = 64"

definition UCS_PGT_ENTRY_SHIFT :: nat where
  "UCS_PGT_ENTRY_SHIFT = 4"

definition UCS_PGT_ENTRIES_PER_DIR :: nat where
  "UCS_PGT_ENTRIES_PER_DIR = 2 ^ UCS_PGT_ENTRY_SHIFT"

definition UCS_PGT_ENTRY_MASK :: u64 where
  "UCS_PGT_ENTRY_MASK = of_nat UCS_PGT_ENTRIES_PER_DIR - 1"

definition UCS_PGT_ADDR_ALIGN :: u64 where
  "UCS_PGT_ADDR_ALIGN = push_bit UCS_PGT_ADDR_SHIFT 1"

definition ucs_pgt_is_addr_aligned :: "u64 \<Rightarrow> bool" where
  "ucs_pgt_is_addr_aligned addr \<longleftrightarrow> addr AND (UCS_PGT_ADDR_ALIGN - 1) = 0"

definition ucs_pgtable_get_next_page_order :: "u64 \<Rightarrow> u64 \<Rightarrow> nat option" where
  "ucs_pgtable_get_next_page_order start end' =
     do {
       ucs_assert (ucs_pgt_is_addr_aligned start);
       ucs_assert (ucs_pgt_is_addr_aligned end');
       let log2_len =
         (if end' = 0 \<and> start = 0 then UCS_PGT_ADDR_ORDER
          else if end' = start then UCS_PGT_ADDR_SHIFT
          else let l = ucs_ilog2 (end' - start)
               in if start \<noteq> 0 then min (ucs_ffs64 start) l else l);
       ucs_assert (UCS_PGT_ADDR_SHIFT \<le> log2_len \<and> log2_len \<le> UCS_PGT_ADDR_ORDER);
       Some ((log2_len - UCS_PGT_ADDR_SHIFT) div UCS_PGT_ENTRY_SHIFT * UCS_PGT_ENTRY_SHIFT
             + UCS_PGT_ADDR_SHIFT)
     }"

lemmas pgt_consts = UCS_PGT_ADDR_SHIFT_def UCS_PGT_ADDR_ORDER_def UCS_PGT_ENTRY_SHIFT_def
  UCS_PGT_ENTRIES_PER_DIR_def UCS_PGT_ENTRY_MASK_def UCS_PGT_ADDR_ALIGN_def

section \<open>Bit scans\<close>

lemma find_upt_least:
  assumes "List.find P [a..<b] = Some i"
  shows "P i \<and> a \<le> i \<and> i < b \<and> (\<forall>j. a \<le> j \<longrightarrow> j < i \<longrightarrow> \<not> P j)"
proof -
  obtain k where k: "k < length [a..<b]" "P ([a..<b] ! k)" "i = [a..<b] ! k"
      "\<forall>j<k. \<not> P ([a..<b] ! j)"
    using assms unfolding find_Some_iff by blast
  then have i: "i = a + k" "a + k < b" by auto
  have "\<not> P j" if "a \<le> j" "j < i" for j
  proof -
    have "j - a < k" using that i by linarith
    then have "\<not> P ([a..<b] ! (j - a))" using k(4) by blast
    then show ?thesis using that i by simp
  qed
  then show ?thesis using k i by auto
qed

lemma ffs64_bits:
  assumes "n \<noteq> 0"
  shows "bit n (ucs_ffs64 n) \<and> ucs_ffs64 n < 64 \<and> (\<forall>j<ucs_ffs64 n. \<not> bit n j)"
proof -
  obtain i where "bit n i" using assms by (auto simp: bit_eq_iff)
  then have "i < 64" using bit_imp_le_length [of n i] by simp
  then have "List.find (\<lambda>i. bit n i) [0..<64] \<noteq> None"
    using \<open>bit n i\<close> by (auto simp: find_None_iff)
  then obtain k where k: "List.find (\<lambda>i. bit n i) [0..<64] = Some k" by blast
  then show ?thesis using find_upt_least [OF k] by (simp add: ucs_ffs64_def)
qed

lemma ilog2_bits:
  assumes "n \<noteq> 0"
  shows "bit n (ucs_ilog2 n) \<and> ucs_ilog2 n < 64 \<and> (\<forall>j>ucs_ilog2 n. \<not> bit n j)"
proof -
  obtain i where "bit n i" using assms by (auto simp: bit_eq_iff)
  then have "i < 64" using bit_imp_le_length [of n i] by simp
  then have "List.find (\<lambda>i. bit n i) (rev [0..<64]) \<noteq> None"
    using \<open>bit n i\<close> by (auto simp: find_None_iff)
  then obtain k where k: "List.find (\<lambda>i. bit n i) (rev [0..<64]) = Some k" by blast
  then obtain m where m: "m < 64" "bit n (rev [0..<64] ! m)" "k = rev [0..<64] ! m"
      "\<forall>j<m. \<not> bit n (rev [0..<64] ! j)"
    unfolding find_Some_iff by auto
  have km: "k = 63 - m" using m(1,3) by (simp add: rev_nth)
  have "\<not> bit n j" if "j > k" for j
  proof (cases "j < 64")
    case True
    then have "63 - j < m" using that km m(1) by linarith
    then have "\<not> bit n (rev [0..<64] ! (63 - j))" using m(4) by blast
    then show ?thesis using True by (simp add: rev_nth)
  next
    case False
    then show ?thesis using bit_imp_le_length [of n j] by auto
  qed
  then show ?thesis using k m km by (simp add: ucs_ilog2_def)
qed

lemma pow2_dvd_low_bits: "2 ^ k dvd unat n \<longleftrightarrow> (\<forall>j<k. \<not> bit n j)" for n :: u64
proof -
  have "2 ^ k dvd unat n \<longleftrightarrow> take_bit k (unat n) = 0"
    by (simp add: take_bit_eq_0_iff)
  also have "\<dots> \<longleftrightarrow> (\<forall>j. \<not> bit (take_bit k (unat n)) j)"
    by (auto simp: bit_eq_iff)
  also have "\<dots> \<longleftrightarrow> (\<forall>j<k. \<not> bit n j)"
    by (auto simp: bit_take_bit_iff bit_unsigned_iff)
  finally show ?thesis .
qed

lemma ffs64_dvd: "n \<noteq> 0 \<Longrightarrow> 2 ^ k dvd unat n \<longleftrightarrow> k \<le> ucs_ffs64 n"
  using ffs64_bits [of n] unfolding pow2_dvd_low_bits by (meson leI le_less_trans not_le)

lemma ffs64_less: "n \<noteq> 0 \<Longrightarrow> ucs_ffs64 n < 64"
  using ffs64_bits by blast

lemma ilog2_le:
  assumes "n \<noteq> 0"
  shows "2 ^ k \<le> unat n \<longleftrightarrow> k \<le> ucs_ilog2 n"
proof
  have b: "bit (unat n) (ucs_ilog2 n)" using ilog2_bits [OF assms] by (simp add: bit_unsigned_iff)
  assume "k \<le> ucs_ilog2 n"
  then have "(2::nat) ^ k \<le> 2 ^ ucs_ilog2 n" by simp
  also have "\<dots> \<le> unat n"
  proof (rule ccontr)
    assume "\<not> 2 ^ ucs_ilog2 n \<le> unat n"
    then have "unat n div 2 ^ ucs_ilog2 n = 0" by simp
    then show False using b by (simp add: bit_iff_odd)
  qed
  finally show "2 ^ k \<le> unat n" .
next
  assume k: "2 ^ k \<le> unat n"
  have "take_bit (Suc (ucs_ilog2 n)) (unat n) = unat n"
    using ilog2_bits [OF assms]
    by (auto simp: bit_eq_iff bit_take_bit_iff bit_unsigned_iff less_Suc_eq_le intro: leI)
  then have "unat n < 2 ^ Suc (ucs_ilog2 n)"
    by (metis take_bit_nat_less_exp)
  then have "(2::nat) ^ k < 2 ^ Suc (ucs_ilog2 n)" using k by linarith
  then have "k < Suc (ucs_ilog2 n)" using power_less_imp_less_exp by (metis one_less_numeral_iff semiring_norm(76))
  then show "k \<le> ucs_ilog2 n" by simp
qed

lemma ilog2_less: "n \<noteq> 0 \<Longrightarrow> ucs_ilog2 n < 64"
  using ilog2_bits by blast

section \<open>The next page of a range\<close>

lemma aligned_dvd: "ucs_pgt_is_addr_aligned a \<longleftrightarrow> 16 dvd unat a"
proof -
  have "ucs_pgt_is_addr_aligned a \<longleftrightarrow> take_bit 4 a = 0"
    by (simp add: ucs_pgt_is_addr_aligned_def pgt_consts take_bit_eq_mask mask_eq_exp_minus_1
        push_bit_of_1)
  also have "\<dots> \<longleftrightarrow> take_bit 4 (unat a) = 0"
    by (metis unsigned_0 unsigned_take_bit_eq unsigned_eq_0_iff)
  finally show ?thesis by (simp add: take_bit_eq_0_iff)
qed

lemma dvd_unat_diff:
  fixes a b :: u64
  assumes "2 ^ k dvd unat a" "2 ^ k dvd unat b" "k \<le> 64"
  shows "2 ^ k dvd unat (a - b)"
proof -
  have "(2::nat) ^ k dvd 2 ^ 64" using assms(3) by (rule le_imp_power_dvd)
  then have "2 ^ k dvd unat a + 2 ^ 64" using assms(1) by simp
  then show ?thesis
    unfolding unat_sub_if' using assms by (auto intro: dvd_diff_nat)
qed

lemma dvd_unat_add:
  fixes a b :: u64
  assumes "2 ^ k dvd unat a" "2 ^ k dvd unat b" "k \<le> 64"
  shows "2 ^ k dvd unat (a + b)"
proof -
  have "(2::nat) ^ k dvd 2 ^ 64" using assms(3) by (rule le_imp_power_dvd)
  then show ?thesis
    unfolding unat_plus_if' using assms by (auto intro: dvd_diff_nat)
qed

lemma unat_page_size: "n < 64 \<Longrightarrow> unat (push_bit n 1 :: u64) = 2 ^ n"
proof -
  assume n: "n < 64"
  have "(push_bit n 1 :: u64) = of_nat (2 ^ n)" by (simp add: push_bit_of_1)
  moreover have "unat (of_nat (2 ^ n) :: u64) = 2 ^ n mod 2 ^ 64"
    unfolding unat_of_nat by simp
  moreover have "(2::nat) ^ n < 2 ^ 64" using n by (rule power_strict_increasing) simp
  ultimately show ?thesis by simp
qed

lemma unat_page_end:
  fixes a e :: u64
  assumes "unat a + 2 ^ n \<le> unat e" "n \<le> 60"
  shows "unat (a + push_bit n 1) = unat a + 2 ^ n"
proof -
  have "unat a + unat (push_bit n 1 :: u64) < 2 ^ 64"
    using assms unat_page_size [of n] unsigned_less [of e, where ?'a = nat] by simp
  then show ?thesis using assms unat_page_size [of n] by (simp add: unat_word_ariths)
qed

text \<open>\<open>n\<close> is the largest page order, among 4, 8, 12 \<open>\<dots>\<close>, such that a page of that size starts
  at \<open>a\<close>, is aligned to its size and ends by \<open>e\<close>.\<close>

definition pg_max :: "nat \<Rightarrow> nat \<Rightarrow> nat \<Rightarrow> bool" where
  "pg_max a e n \<longleftrightarrow> 4 \<le> n \<and> 4 dvd n \<and> 2 ^ n dvd a \<and> a + 2 ^ n \<le> e \<and>
     (\<forall>k. 4 dvd k \<longrightarrow> 2 ^ k dvd a \<longrightarrow> a + 2 ^ k \<le> e \<longrightarrow> k \<le> n)"

lemma pg_max_unique: "pg_max a e n \<Longrightarrow> pg_max a e m \<Longrightarrow> n = m"
  by (metis pg_max_def le_antisym)

text \<open>Cutting the range short of nothing but later pages leaves the page as it is.\<close>

lemma pg_max_shorter: "pg_max a e n \<Longrightarrow> a + 2 ^ n \<le> e' \<Longrightarrow> e' \<le> e \<Longrightarrow> pg_max a e' n"
  unfolding pg_max_def by (meson order.trans)

lemma round4:
  assumes "4 \<le> (l::nat)"
  shows "(l - 4) div 4 * 4 + 4 = l div 4 * 4"
  using assms by (metis add_mult_distrib2 div_add_self2 le_add_diff_inverse2 mult.commute
      mult.right_neutral zero_neq_numeral)

lemma round4_le: "4 dvd k \<Longrightarrow> k \<le> l div 4 * 4 \<longleftrightarrow> k \<le> (l::nat)"
  by (metis div_le_mono div_times_less_eq_dividend dvd_div_mult_self le_trans mult_le_mono1)

lemma exp_mono_le: "(2::nat) ^ k \<le> d \<Longrightarrow> m \<le> k \<Longrightarrow> 2 ^ m \<le> d"
  by (meson one_le_numeral order_trans power_increasing)

lemma next_page_order_any:
  assumes "16 dvd unat a" "16 dvd unat e" "a \<noteq> 0 \<or> e \<noteq> 0"
  shows "\<exists>n. ucs_pgtable_get_next_page_order a e = Some n \<and> 4 \<le> n \<and> n \<le> 60 \<and> 4 dvd n \<and>
    2 ^ n dvd unat a \<and> (a = e \<longrightarrow> n = 4) \<and>
    (a \<noteq> e \<longrightarrow> 2 ^ n \<le> unat (e - a) \<and>
      (\<forall>k. 4 dvd k \<longrightarrow> 2 ^ k dvd unat a \<longrightarrow> 2 ^ k \<le> unat (e - a) \<longrightarrow> k \<le> n))"
proof (cases "a = e")
  case True
  then show ?thesis using assms
    by (simp add: ucs_pgtable_get_next_page_order_def aligned_dvd pgt_consts)
next
  case False
  then have ne: "e - a \<noteq> 0" by simp
  define l where "l = (if a \<noteq> 0 then min (ucs_ffs64 a) (ucs_ilog2 (e - a)) else ucs_ilog2 (e - a))"
  have d16: "16 dvd unat (e - a)"
    using dvd_unat_diff [of 4 e a] assms(1,2) by simp
  have "unat (e - a) \<noteq> 0" using ne by (metis unsigned_eq_0_iff)
  then have "2 ^ 4 \<le> unat (e - a)" using d16 by (simp add: dvd_imp_le)
  then have il: "4 \<le> ucs_ilog2 (e - a)" using ilog2_le [OF ne] by blast
  have k: "k \<le> l \<longleftrightarrow> 2 ^ k dvd unat a \<and> 2 ^ k \<le> unat (e - a)" for k
    using ilog2_le [OF ne, of k] ffs64_dvd [of a k] by (auto simp: l_def)
  have l4: "4 \<le> l" using k [of 4] assms(1) \<open>2 ^ 4 \<le> unat (e - a)\<close> by simp
  have l64: "l < 64" using ilog2_less [OF ne] by (auto simp: l_def)
  have "ucs_pgtable_get_next_page_order a e = Some ((l - 4) div 4 * 4 + 4)"
    using assms False l4 l64 unfolding ucs_pgtable_get_next_page_order_def aligned_dvd l_def
    by (auto simp: pgt_consts Let_def)
  then have "ucs_pgtable_get_next_page_order a e = Some (l div 4 * 4)"
    using round4 [OF l4] by simp
  moreover have "l div 4 * 4 \<le> l" by simp
  moreover have "l div 4 * 4 \<le> 60" using l64 by presburger
  moreover have "4 \<le> l div 4 * 4" using l4 by presburger
  ultimately show ?thesis using k [of "l div 4 * 4"] k round4_le [of _ l] False by auto
qed

text \<open>Inside a range the next page is the largest one that fits.\<close>

lemma next_page_order_max:
  assumes "16 dvd unat a" "16 dvd unat e" "a < e"
  shows "\<exists>n. ucs_pgtable_get_next_page_order a e = Some n \<and> pg_max (unat a) (unat e) n \<and> n \<le> 60"
proof -
  have d: "unat (e - a) = unat e - unat a" "unat a < unat e"
    using assms(3) by (simp_all add: unat_sub less_imp_le word_less_nat_alt)
  then have sub: "x \<le> unat (e - a) \<longleftrightarrow> unat a + x \<le> unat e" for x by linarith
  show ?thesis
    using next_page_order_any [OF assms(1,2)] assms(3) unfolding sub pg_max_def by auto
qed

section \<open>The pages of a range\<close>

text \<open>The pages \<open>(address, order)\<close> that make up an aligned range, in the order the loops of
  \<^verbatim>\<open>ucs_pgtable_insert\<close> and \<^verbatim>\<open>ucs_pgtable_remove\<close> visit them.\<close>

function pgt_pages :: "u64 \<Rightarrow> u64 \<Rightarrow> (nat \<times> nat) list" where
  "pgt_pages a e = (if a < e \<and> 16 dvd unat a \<and> 16 dvd unat e then
     (case ucs_pgtable_get_next_page_order a e of
        None \<Rightarrow> []
      | Some n \<Rightarrow> (unat a, n) # pgt_pages (a + push_bit n 1) e) else [])"
  by auto
termination
proof (relation "measure (\<lambda>(a, e). unat e - unat a)")
  fix a e :: u64 and n
  assume "a < e \<and> 16 dvd unat a \<and> 16 dvd unat e" "ucs_pgtable_get_next_page_order a e = Some n"
  then have "pg_max (unat a) (unat e) n \<and> n \<le> 60" "unat a < unat e"
    using next_page_order_max [of a e] by (auto simp: word_less_nat_alt)
  then have "unat (a + push_bit n 1) = unat a + 2 ^ n" "unat a + 2 ^ n \<le> unat e"
    using unat_page_end by (auto simp: pg_max_def)
  then show "((a + push_bit n 1, e), (a, e)) \<in> measure (\<lambda>(a, e). unat e - unat a)"
    using \<open>unat a < unat e\<close> by (simp add: diff_less_mono2)
qed simp

declare pgt_pages.simps [simp del]

lemma pgt_pages_step:
  assumes "16 dvd unat a" "16 dvd unat e" "a < e"
  obtains n where "ucs_pgtable_get_next_page_order a e = Some n" "pg_max (unat a) (unat e) n"
    "n \<le> 60" "pgt_pages a e = (unat a, n) # pgt_pages (a + push_bit n 1) e"
    "unat (a + push_bit n 1) = unat a + 2 ^ n" "unat a + 2 ^ n \<le> unat e"
    "16 dvd unat (a + push_bit n 1)"
proof -
  obtain n where n: "ucs_pgtable_get_next_page_order a e = Some n" "pg_max (unat a) (unat e) n" "n \<le> 60"
    using next_page_order_max [OF assms] by blast
  have le: "unat a + 2 ^ n \<le> unat e" using n(2) by (simp add: pg_max_def)
  have "2 ^ 4 dvd (2::nat) ^ n" by (rule le_imp_power_dvd) (use n(2) in \<open>simp add: pg_max_def\<close>)
  then have "16 dvd unat a + 2 ^ n" using assms(1) by simp
  moreover have "pgt_pages a e = (unat a, n) # pgt_pages (a + push_bit n 1) e"
    using assms n(1) pgt_pages.simps [of a e] by simp
  ultimately show ?thesis using that [OF n] unat_page_end [OF le n(3)] le by metis
qed

lemma pgt_pages_done [simp]: "\<not> a < e \<Longrightarrow> pgt_pages a e = []"
  using pgt_pages.simps [of a e] by simp

text \<open>Induction over the pages of a range.\<close>

lemma pgt_pages_induct [consumes 2, case_names Done Page]:
  assumes "16 dvd unat a" "16 dvd unat e"
    and fin: "\<And>a. \<not> a < e \<Longrightarrow> P a"
    and page: "\<And>a n. 16 dvd unat a \<Longrightarrow> a < e \<Longrightarrow> ucs_pgtable_get_next_page_order a e = Some n \<Longrightarrow>
      pg_max (unat a) (unat e) n \<Longrightarrow> n \<le> 60 \<Longrightarrow>
      pgt_pages a e = (unat a, n) # pgt_pages (a + push_bit n 1) e \<Longrightarrow>
      unat (a + push_bit n 1) = unat a + 2 ^ n \<Longrightarrow> unat a + 2 ^ n \<le> unat e \<Longrightarrow>
      P (a + push_bit n 1) \<Longrightarrow> P a"
  shows "P a"
  using assms(1)
proof (induction "unat e - unat a" arbitrary: a rule: less_induct)
  case less
  show ?case
  proof (cases "a < e")
    case True
    obtain n where n: "ucs_pgtable_get_next_page_order a e = Some n" "pg_max (unat a) (unat e) n"
        "n \<le> 60" "pgt_pages a e = (unat a, n) # pgt_pages (a + push_bit n 1) e"
        "unat (a + push_bit n 1) = unat a + 2 ^ n" "unat a + 2 ^ n \<le> unat e"
        "16 dvd unat (a + push_bit n 1)"
      using pgt_pages_step [OF less.prems assms(2) True] by blast
    have "unat e - unat (a + push_bit n 1) < unat e - unat a"
      using n(5) True by (simp add: diff_less_mono2 word_less_nat_alt)
    then have "P (a + push_bit n 1)" using less.hyps n(7) by blast
    then show ?thesis using page [OF less.prems True n(1-6)] by blast
  qed (rule fin)
qed

text \<open>The pages are whole, aligned and inside the range; together they are the range.\<close>

definition page_has :: "nat \<Rightarrow> nat \<times> nat \<Rightarrow> bool" where
  "page_has x pg \<longleftrightarrow> fst pg \<le> x \<and> x < fst pg + 2 ^ snd pg"

definition page_ok :: "nat \<times> nat \<Rightarrow> bool" where
  "page_ok pg \<longleftrightarrow> 4 \<le> snd pg \<and> snd pg \<le> 60 \<and> 4 dvd snd pg \<and> 2 ^ snd pg dvd fst pg \<and> fst pg < 2 ^ 64"

lemma pgt_pages_in:
  assumes "16 dvd unat a" "16 dvd unat e" "pg \<in> set (pgt_pages a e)"
  shows "page_ok pg \<and> unat a \<le> fst pg \<and> fst pg + 2 ^ snd pg \<le> unat e"
  using assms
proof (induction rule: pgt_pages_induct)
  case (Done a)
  then show ?case by simp
next
  case (Page a n)
  have "unat a < 2 ^ 64" using unsigned_less [of a, where ?'a = nat] by simp
  then have "page_ok (unat a, n)" using Page.hyps by (simp add: page_ok_def pg_max_def)
  then show ?case using Page by auto
qed

lemma pgt_pages_cover:
  assumes "16 dvd unat a" "16 dvd unat e"
  shows "(\<exists>pg\<in>set (pgt_pages a e). page_has x pg) \<longleftrightarrow> unat a \<le> x \<and> x < unat e"
  using assms
proof (induction rule: pgt_pages_induct)
  case (Done a)
  then show ?case by (auto simp: word_less_nat_alt)
next
  case (Page a n)
  then show ?case unfolding Page.hyps(6) by (auto simp: page_has_def)
qed

lemma pgt_pages_disjoint:
  assumes "16 dvd unat a" "16 dvd unat e"
    and "pg \<in> set (pgt_pages a e)" "pg' \<in> set (pgt_pages a e)" "page_has x pg" "page_has x pg'"
  shows "pg = pg'"
  using assms
proof (induction rule: pgt_pages_induct)
  case (Done a)
  then show ?case by simp
next
  case (Page a n)
  have later: "\<not> page_has x q" if "q \<in> set (pgt_pages (a + push_bit n 1) e)" "page_has x (unat a, n)" for q
  proof -
    have "16 dvd unat (a + push_bit n 1)"
      using pgt_pages_step [OF Page.hyps(1) assms(2) Page.hyps(2)] Page.hyps(3) by (metis option.inject)
    then have "unat a + 2 ^ n \<le> fst q"
      using pgt_pages_in [OF _ assms(2) that(1)] Page.hyps(7) by simp
    then show ?thesis using that(2) by (simp add: page_has_def)
  qed
  show ?case using Page.prems Page.IH later unfolding Page.hyps(6) set_simps insert_iff by metis
qed

text \<open>The pages before a page of the range are the pages of the range that ends there.\<close>

lemma pgt_pages_prefix:
  assumes "16 dvd unat a" "16 dvd unat e" "pgt_pages a e = ps @ pg # qs"
    and "unat b = fst pg"
  shows "pgt_pages a b = ps"
  using assms
proof (induction arbitrary: ps rule: pgt_pages_induct)
  case (Done a)
  then show ?case by simp
next
  case (Page a n)
  show ?case
  proof (cases ps)
    case Nil
    then have "b = a" using Page.prems(1,2) Page.hyps(6) by (auto dest: unsigned_word_eqI)
    then show ?thesis using Nil by simp
  next
    case (Cons x ps')
    then have ps': "pgt_pages (a + push_bit n 1) e = ps' @ pg # qs" "x = (unat a, n)"
      using Page.prems(1) Page.hyps(6) by auto
    have al: "16 dvd unat (a + push_bit n 1)"
      using pgt_pages_step [OF Page.hyps(1) assms(2) Page.hyps(2)] Page.hyps(3) by (metis option.inject)
    have "pg \<in> set (pgt_pages (a + push_bit n 1) e)" using ps' by simp
    then have pg: "page_ok pg" "unat a + 2 ^ n \<le> fst pg" "fst pg + 2 ^ snd pg \<le> unat e"
      using pgt_pages_in [OF al assms(2)] Page.hyps(7) by auto
    have "(16::nat) dvd 2 ^ snd pg"
      using le_imp_power_dvd [of 4 "snd pg" "2::nat"] pg(1) by (simp add: page_ok_def)
    then have b16: "16 dvd unat b" using pg(1) Page.prems(2) by (auto simp: page_ok_def intro: dvd_trans)
    have "unat a < unat b" using pg(2) Page.prems(2) zero_less_power [of "2::nat" n] by linarith
    then have ab: "a < b" by (simp add: word_less_nat_alt)
    obtain m where m: "pg_max (unat a) (unat b) m" "pgt_pages a b = (unat a, m) # pgt_pages (a + push_bit m 1) b"
      using pgt_pages_step [OF Page.hyps(1) b16 ab] by metis
    have "pg_max (unat a) (unat b) n"
      using pg_max_shorter [OF Page.hyps(4)] pg Page.prems(2) by auto
    then have "m = n" using m(1) pg_max_unique by blast
    then show ?thesis using m(2) Page.IH [OF ps'(1) Page.prems(2)] Cons ps'(2) by simp
  qed
qed

end
