(* ===== verification/Pgtable.thy ===== *)
theory Pgtable
  imports Pgt_Order
begin

text \<open>
  The page table of \<^verbatim>\<open>src/src/ucs/datastruct/pgtable.c\<close>: a radix tree that maps addresses to
  the memory regions that hold them.  A directory is pointed to by one entry only, so an entry is modelled
  with what it points to: nothing, a region (named by a number; the regions themselves are in the memory
  \<open>rm\<close>), or a directory of 16 entries with its counter.  A failing allocation of a directory ends the
  program (\<^verbatim>\<open>ucs_fatal\<close>), so it is not a result.  \<open>None\<close> is a failing assertion or a
  shift by the width of the word or more.
\<close>

section \<open>Types\<close>

record ucs_pgt_region =
  rg_start :: u64
  rg_end :: u64

type_synonym region_mem = "nat \<Rightarrow> ucs_pgt_region"

datatype ucs_pgt_entry = Pte_none | Pte_region nat | Pte_dir "ucs_pgt_entry list" u32

record ucs_pgtable =
  pt_root :: ucs_pgt_entry
  pt_base :: u64
  pt_mask :: u64
  pt_shift :: nat
  pt_num_regions :: u32

fun ucs_pgt_entry_present :: "ucs_pgt_entry \<Rightarrow> bool" where
  "ucs_pgt_entry_present Pte_none = False"
| "ucs_pgt_entry_present _ = True"

text \<open>The entry of a directory that covers an address, for entries of \<open>2 ^ shift\<close> bytes.\<close>

definition pte_index :: "u64 \<Rightarrow> nat \<Rightarrow> nat" where
  "pte_index address shift = unat (drop_bit shift address AND UCS_PGT_ENTRY_MASK)"

definition ucs_pgt_address_advance :: "u64 \<Rightarrow> nat \<Rightarrow> u64 option" where
  "ucs_pgt_address_advance address order = do {
     ucs_assert (order < 64);
     Some (address + push_bit order 1)
   }"

lemma pte_nth_size [termination_simp]: "i < length es \<Longrightarrow> size (es ! i) < Suc (size_list size es)"
  using size_list_estimation' [of "es ! i" es "size (es ! i)" size] by (simp add: less_Suc_eq_le)

lemma advance_decreases:
  assumes "address < end'" "ucs_pgtable_get_next_page_order address end' = Some n"
    "ucs_pgt_address_advance address n = Some a"
  shows "unat end' - unat a < unat end' - unat address"
proof -
  have "16 dvd unat address" "16 dvd unat end'"
    using assms(2) by (auto simp: ucs_pgtable_get_next_page_order_def aligned_dvd bind_eq_Some_conv)
  then obtain m where m: "ucs_pgtable_get_next_page_order address end' = Some m"
      "unat (address + push_bit m 1) = unat address + 2 ^ m"
    using pgt_pages_step [OF _ _ assms(1)] by metis
  have "a = address + push_bit n 1"
    using assms(3) by (auto simp: ucs_pgt_address_advance_def bind_eq_Some_conv)
  then have "unat a = unat address + 2 ^ n" using m assms(2) by simp
  then show ?thesis using assms(1) by (simp add: word_less_nat_alt diff_less_mono2)
qed

section \<open>Growing and shrinking\<close>

definition ucs_pgtable_reset :: "ucs_pgtable \<Rightarrow> ucs_pgtable" where
  "ucs_pgtable_reset pt =
     pt\<lparr>pt_base := 0, pt_mask := push_bit UCS_PGT_ADDR_SHIFT (- 1), pt_shift := UCS_PGT_ADDR_SHIFT\<rparr>"

definition ucs_pgt_dir_alloc :: "ucs_pgt_entry list" where
  "ucs_pgt_dir_alloc = replicate UCS_PGT_ENTRIES_PER_DIR Pte_none"

definition ucs_pgtable_expand :: "ucs_pgtable \<Rightarrow> ucs_pgtable option" where
  "ucs_pgtable_expand pt = do {
     ucs_assert (pt_shift pt \<le> UCS_PGT_ADDR_ORDER - UCS_PGT_ENTRY_SHIFT);
     let root = (if ucs_pgt_entry_present (pt_root pt)
                 then Pte_dir (ucs_pgt_dir_alloc[pte_index (pt_base pt) (pt_shift pt) := pt_root pt]) 1
                 else pt_root pt);
     let mask = push_bit UCS_PGT_ENTRY_SHIFT (pt_mask pt);
     Some (pt\<lparr>pt_root := root, pt_shift := pt_shift pt + UCS_PGT_ENTRY_SHIFT, pt_mask := mask,
       pt_base := pt_base pt AND mask\<rparr>)
   }"

text \<open>The search for the single entry of a directory.\<close>

definition first_present :: "ucs_pgt_entry list \<Rightarrow> nat option" where
  "first_present es = List.find (\<lambda>i. i < length es \<and> ucs_pgt_entry_present (es ! i)) [0..<UCS_PGT_ENTRIES_PER_DIR]"

definition ucs_pgtable_shrink :: "ucs_pgtable \<Rightarrow> (bool \<times> ucs_pgtable) option" where
  "ucs_pgtable_shrink pt =
     (case pt_root pt of
        Pte_none \<Rightarrow> Some (False, ucs_pgtable_reset pt)
      | Pte_region _ \<Rightarrow> Some (False, pt)
      | Pte_dir es count \<Rightarrow> do {
          ucs_assert (count > 0);
          if count \<noteq> 1 then Some (False, pt)
          else do {
            pte_idx \<leftarrow> first_present es;
            ucs_assert (UCS_PGT_ENTRY_SHIFT \<le> pt_shift pt);
            let shift = pt_shift pt - UCS_PGT_ENTRY_SHIFT;
            Some (True, pt\<lparr>pt_shift := shift, pt_base := pt_base pt OR push_bit shift (of_nat pte_idx),
              pt_mask := pt_mask pt OR push_bit shift UCS_PGT_ENTRY_MASK, pt_root := es ! pte_idx\<rparr>)
          }
        })"

lemma first_present_less: "first_present es = Some i \<Longrightarrow> i < length es"
  by (auto simp: first_present_def find_Some_iff)

lemma shrink_size:
  "ucs_pgtable_shrink pt = Some (True, pt') \<Longrightarrow> size (pt_root pt') < size (pt_root pt)"
  by (auto simp: ucs_pgtable_shrink_def bind_eq_Some_conv Let_def split: ucs_pgt_entry.splits if_splits
      dest!: first_present_less intro: pte_nth_size)

text \<open>\<^verbatim>\<open>while (ucs_pgtable_shrink(pgtable));\<close>\<close>

function shrink_all :: "ucs_pgtable \<Rightarrow> ucs_pgtable option" where
  "shrink_all pt =
     (case ucs_pgtable_shrink pt of
        None \<Rightarrow> None
      | Some (again, pt') \<Rightarrow> if again then shrink_all pt' else Some pt')"
  by pat_completeness auto
termination
  by (relation "measure (\<lambda>pt. size (pt_root pt))") (auto intro: shrink_size)

lemma expand_shift:
  "ucs_pgtable_expand pt = Some pt' \<Longrightarrow> pt_shift pt' = pt_shift pt + 4 \<and> pt_shift pt \<le> 60"
  by (auto simp: ucs_pgtable_expand_def pgt_consts bind_eq_Some_conv Let_def)

text \<open>The two loops that make the root cover a page: until it is large enough, and until it maps the
  address.\<close>

function expand_order :: "ucs_pgtable \<Rightarrow> nat \<Rightarrow> ucs_pgtable option" where
  "expand_order pt order =
     (if pt_shift pt < order then
        case ucs_pgtable_expand pt of None \<Rightarrow> None | Some pt' \<Rightarrow> expand_order pt' order
      else Some pt)"
  by pat_completeness auto
termination
  by (relation "measure (\<lambda>(pt, order). order - pt_shift pt)") (auto dest!: expand_shift)

function expand_address :: "ucs_pgtable \<Rightarrow> u64 \<Rightarrow> ucs_pgtable option" where
  "expand_address pt address =
     (if address AND pt_mask pt \<noteq> pt_base pt then
        case ucs_pgtable_expand pt of None \<Rightarrow> None | Some pt' \<Rightarrow> expand_address pt' address
      else Some pt)"
  by pat_completeness auto
termination
  by (relation "measure (\<lambda>(pt, address). 64 - pt_shift pt)") (auto dest!: expand_shift)

section \<open>Inserting a page\<close>

definition ucs_pgtable_check_page :: "u64 \<Rightarrow> nat \<Rightarrow> unit option" where
  "ucs_pgtable_check_page address order = do {
     ucs_assert (order < 64);
     ucs_assert (address AND (push_bit order 1 - 1) = 0);
     ucs_assert ((order - UCS_PGT_ADDR_SHIFT) mod UCS_PGT_ENTRY_SHIFT = 0)
   }"

text \<open>The descent from an entry to the page.  The last part of the result tells whether the counter of
  the directory that holds the entry goes up.\<close>

function insert_descend ::
  "u64 \<Rightarrow> nat \<Rightarrow> nat \<Rightarrow> nat \<Rightarrow> ucs_pgt_entry \<Rightarrow> (ucs_status \<times> ucs_pgt_entry \<times> bool) option" where
  "insert_descend address order region shift pte =
     (if order = shift then
        Some (if ucs_pgt_entry_present pte then (UCS_ERR_ALREADY_EXISTS, pte, False)
              else (UCS_OK, Pte_region region, True))
      else
        case pte of
          Pte_region _ \<Rightarrow> Some (UCS_ERR_ALREADY_EXISTS, pte, False)
        | _ \<Rightarrow>
          if UCS_PGT_ENTRY_SHIFT + order \<le> shift then
            let (entries, count) = (case pte of Pte_dir es c \<Rightarrow> (es, c) | _ \<Rightarrow> (ucs_pgt_dir_alloc, 0));
                i = pte_index address (shift - UCS_PGT_ENTRY_SHIFT)
            in case insert_descend address order region (shift - UCS_PGT_ENTRY_SHIFT) (entries ! i) of
                 None \<Rightarrow> None
               | Some (status, child, added) \<Rightarrow>
                   Some (status, Pte_dir (entries[i := child]) (if added then count + 1 else count),
                     \<not> ucs_pgt_entry_present pte)
          else None)"
  by pat_completeness auto
termination
  by (relation "measure (\<lambda>(address, order, region, shift, pte). shift)") (auto simp: pgt_consts)

definition ucs_pgtable_insert_page ::
  "ucs_pgtable \<Rightarrow> u64 \<Rightarrow> nat \<Rightarrow> nat \<Rightarrow> (ucs_status \<times> ucs_pgtable) option" where
  "ucs_pgtable_insert_page pt address order region = do {
     ucs_pgtable_check_page address order;
     pt1 \<leftarrow> expand_order pt order;
     pt2 \<leftarrow> (if ucs_pgt_entry_present (pt_root pt1) then expand_address pt1 address
             else Some (pt1\<lparr>pt_base := address AND pt_mask pt1\<rparr>));
     (status, root, added) \<leftarrow> insert_descend address order region (pt_shift pt2) (pt_root pt2);
     let pt3 = pt2\<lparr>pt_root := root\<rparr>;
     if status = UCS_OK then Some (UCS_OK, pt3)
     else do {
       pt4 \<leftarrow> shrink_all pt3;
       Some (UCS_ERR_ALREADY_EXISTS, pt4)
     }
   }"

section \<open>Removing a page\<close>

text \<open>The last part of the result tells whether the counter of the directory that holds the entry goes
  down.\<close>

fun ucs_pgtable_remove_page_recurs ::
  "u64 \<Rightarrow> nat \<Rightarrow> ucs_pgt_entry \<Rightarrow> nat \<Rightarrow> nat \<Rightarrow> (ucs_status \<times> ucs_pgt_entry \<times> bool) option" where
  "ucs_pgtable_remove_page_recurs address order (Pte_region r) shift region = do {
     ucs_assert (shift = order);
     Some (if r \<noteq> region then (UCS_ERR_NO_ELEM, Pte_region r, False) else (UCS_OK, Pte_none, True))
   }"
| "ucs_pgtable_remove_page_recurs address order (Pte_dir es count) shift region =
     (let next_shift = shift - UCS_PGT_ENTRY_SHIFT; i = pte_index address next_shift
      in if UCS_PGT_ENTRY_SHIFT \<le> shift \<and> i < length es then
           case ucs_pgtable_remove_page_recurs address order (es ! i) next_shift region of
             None \<Rightarrow> None
           | Some (status, child, removed) \<Rightarrow>
               (let count' = (if removed then count - 1 else count)
                in if status \<noteq> UCS_OK then Some (UCS_ERR_NO_ELEM, Pte_dir (es[i := child]) count', False)
                   else if count' = 0 then Some (UCS_OK, Pte_none, True)
                   else Some (UCS_OK, Pte_dir (es[i := child]) count', False))
         else None)"
| "ucs_pgtable_remove_page_recurs address order Pte_none shift region =
     Some (UCS_ERR_NO_ELEM, Pte_none, False)"

definition ucs_pgtable_remove_page ::
  "ucs_pgtable \<Rightarrow> u64 \<Rightarrow> nat \<Rightarrow> nat \<Rightarrow> (ucs_status \<times> ucs_pgtable) option" where
  "ucs_pgtable_remove_page pt address order region = do {
     ucs_pgtable_check_page address order;
     if address AND pt_mask pt \<noteq> pt_base pt then Some (UCS_ERR_NO_ELEM, pt)
     else do {
       (status, root, removed) \<leftarrow> ucs_pgtable_remove_page_recurs address order (pt_root pt) (pt_shift pt) region;
       let pt1 = pt\<lparr>pt_root := root\<rparr>;
       if status \<noteq> UCS_OK then Some (status, pt1)
       else do {
         pt2 \<leftarrow> shrink_all pt1;
         Some (UCS_OK, pt2)
       }
     }
   }"

section \<open>Inserting and removing a region\<close>

function insert_pages ::
  "ucs_pgtable \<Rightarrow> nat \<Rightarrow> u64 \<Rightarrow> u64 \<Rightarrow> (ucs_status \<times> u64 \<times> ucs_pgtable) option" where
  "insert_pages pt region address end' =
     (if address < end' then
        case ucs_pgtable_get_next_page_order address end' of
          None \<Rightarrow> None
        | Some order \<Rightarrow>
          (case ucs_pgtable_insert_page pt address order region of
             None \<Rightarrow> None
           | Some (status, pt1) \<Rightarrow>
               if status \<noteq> UCS_OK then Some (status, address, pt1)
               else (case ucs_pgt_address_advance address order of
                       None \<Rightarrow> None
                     | Some address1 \<Rightarrow> insert_pages pt1 region address1 end'))
      else Some (UCS_OK, address, pt))"
  by pat_completeness auto
termination
  by (relation "measure (\<lambda>(pt, region, address, end'). unat end' - unat address)")
    (auto intro: advance_decreases)

text \<open>Taking back the pages that were inserted before a failure; the results are ignored.\<close>

function revert_pages :: "ucs_pgtable \<Rightarrow> nat \<Rightarrow> u64 \<Rightarrow> u64 \<Rightarrow> ucs_pgtable option" where
  "revert_pages pt region address end' =
     (if address < end' then
        case ucs_pgtable_get_next_page_order address end' of
          None \<Rightarrow> None
        | Some order \<Rightarrow>
          (case ucs_pgtable_remove_page pt address order region of
             None \<Rightarrow> None
           | Some (status, pt1) \<Rightarrow>
               (case ucs_pgt_address_advance address order of
                  None \<Rightarrow> None
                | Some address1 \<Rightarrow> revert_pages pt1 region address1 end'))
      else Some pt)"
  by pat_completeness auto
termination
  by (relation "measure (\<lambda>(pt, region, address, end'). unat end' - unat address)")
    (auto intro: advance_decreases)

definition ucs_pgtable_insert :: "region_mem \<Rightarrow> ucs_pgtable \<Rightarrow> nat \<Rightarrow> (ucs_status \<times> ucs_pgtable) option" where
  "ucs_pgtable_insert rm pt region =
     (let start = rg_start (rm region); end' = rg_end (rm region)
      in if end' \<le> start \<or> \<not> ucs_pgt_is_addr_aligned start \<or> \<not> ucs_pgt_is_addr_aligned end'
         then Some (UCS_ERR_INVALID_PARAM, pt)
         else do {
           (status, address, pt1) \<leftarrow> insert_pages pt region start end';
           if status = UCS_OK then Some (UCS_OK, pt1\<lparr>pt_num_regions := pt_num_regions pt1 + 1\<rparr>)
           else do {
             pt2 \<leftarrow> revert_pages pt1 region start address;
             Some (status, pt2)
           }
         })"

function remove_pages ::
  "ucs_pgtable \<Rightarrow> nat \<Rightarrow> u64 \<Rightarrow> u64 \<Rightarrow> u64 \<Rightarrow> (ucs_status \<times> ucs_pgtable) option" where
  "remove_pages pt region start address end' =
     (if address < end' then
        case ucs_pgtable_get_next_page_order address end' of
          None \<Rightarrow> None
        | Some order \<Rightarrow>
          (case ucs_pgtable_remove_page pt address order region of
             None \<Rightarrow> None
           | Some (status, pt1) \<Rightarrow>
               if status \<noteq> UCS_OK then (if address = start then Some (status, pt1) else None)
               else (case ucs_pgt_address_advance address order of
                       None \<Rightarrow> None
                     | Some address1 \<Rightarrow> remove_pages pt1 region start address1 end'))
      else Some (UCS_OK, pt))"
  by pat_completeness auto
termination
  by (relation "measure (\<lambda>(pt, region, start, address, end'). unat end' - unat address)")
    (auto intro: advance_decreases)

definition ucs_pgtable_remove :: "region_mem \<Rightarrow> ucs_pgtable \<Rightarrow> nat \<Rightarrow> (ucs_status \<times> ucs_pgtable) option" where
  "ucs_pgtable_remove rm pt region =
     (let start = rg_start (rm region); end' = rg_end (rm region)
      in if end' \<le> start \<or> \<not> ucs_pgt_is_addr_aligned start \<or> \<not> ucs_pgt_is_addr_aligned end'
         then Some (UCS_ERR_NO_ELEM, pt)
         else do {
           (status, pt1) \<leftarrow> remove_pages pt region start start end';
           if status \<noteq> UCS_OK then Some (status, pt1)
           else do {
             ucs_assert (pt_num_regions pt1 > 0);
             Some (UCS_OK, pt1\<lparr>pt_num_regions := pt_num_regions pt1 - 1\<rparr>)
           }
         })"

section \<open>Lookup and search\<close>

text \<open>The inner \<open>None\<close> is the null pointer.\<close>

fun lookup_descend :: "region_mem \<Rightarrow> u64 \<Rightarrow> ucs_pgt_entry \<Rightarrow> nat \<Rightarrow> nat option option" where
  "lookup_descend rm address (Pte_region r) shift = do {
     ucs_assert (rg_start (rm r) \<le> address \<and> address < rg_end (rm r));
     Some (Some r)
   }"
| "lookup_descend rm address (Pte_dir es count) shift =
     (let next_shift = shift - UCS_PGT_ENTRY_SHIFT; i = pte_index address next_shift
      in if UCS_PGT_ENTRY_SHIFT \<le> shift \<and> i < length es then lookup_descend rm address (es ! i) next_shift else None)"
| "lookup_descend rm address Pte_none shift = Some None"

definition ucs_pgtable_lookup :: "region_mem \<Rightarrow> ucs_pgtable \<Rightarrow> u64 \<Rightarrow> nat option option" where
  "ucs_pgtable_lookup rm pt address =
     (if address AND pt_mask pt \<noteq> pt_base pt then Some None
      else lookup_descend rm address (pt_root pt) (pt_shift pt))"

definition UCS_MASK_SAFE :: "nat \<Rightarrow> u64" where
  "UCS_MASK_SAFE i = (if i \<ge> 64 then - 1 else push_bit i 1 - 1)"

text \<open>The state of a search is the region reported last and all the regions reported so far, the calls of
  the callback in their order.\<close>

fun ucs_pgtable_search_recurs ::
    "region_mem \<Rightarrow> u64 \<Rightarrow> nat \<Rightarrow> ucs_pgt_entry \<Rightarrow> nat \<Rightarrow> nat option \<times> nat list \<Rightarrow> (nat option \<times> nat list) option"
  and search_entries ::
    "region_mem \<Rightarrow> u64 \<Rightarrow> nat \<Rightarrow> ucs_pgt_entry list \<Rightarrow> nat \<Rightarrow> nat option \<times> nat list \<Rightarrow> (nat option \<times> nat list) option" where
  "ucs_pgtable_search_recurs rm address order (Pte_region r) shift s =
     (if fst s = Some r then Some s
      else do {
        ucs_assert (case fst s of None \<Rightarrow> True | Some l \<Rightarrow> rg_end (rm l) \<le> rg_start (rm r));
        ucs_assert (max (rg_start (rm r)) address \<le> min (rg_end (rm r) - 1) (address + UCS_MASK_SAFE order));
        Some (Some r, snd s @ [r])
      })"
| "ucs_pgtable_search_recurs rm address order (Pte_dir es count) shift s =
     (let next_shift = shift - UCS_PGT_ENTRY_SHIFT; i = pte_index address next_shift
      in if UCS_PGT_ENTRY_SHIFT \<le> shift then
           if order < shift then
             if order \<le> next_shift \<and> i < length es
             then ucs_pgtable_search_recurs rm address order (es ! i) next_shift s else None
           else search_entries rm address order es next_shift s
         else None)"
| "ucs_pgtable_search_recurs rm address order Pte_none shift s = Some s"
| "search_entries rm address order [] next_shift s = Some s"
| "search_entries rm address order (e # es) next_shift s =
     (case ucs_pgtable_search_recurs rm address order e next_shift s of
        None \<Rightarrow> None
      | Some s1 \<Rightarrow> search_entries rm address order es next_shift s1)"

definition ucs_align_down_pow2 :: "u64 \<Rightarrow> u64 \<Rightarrow> u64" where
  "ucs_align_down_pow2 n alignment = n AND NOT (alignment - 1)"

definition ucs_align_up_pow2 :: "u64 \<Rightarrow> u64 \<Rightarrow> u64" where
  "ucs_align_up_pow2 n alignment = ucs_align_down_pow2 (n + alignment - 1) alignment"

text \<open>The loop over the pages of the range.  \<open>None\<close> is a loop that never ends, \<open>Some None\<close> a
  failing assertion.\<close>

partial_function (option) search_pages ::
  "region_mem \<Rightarrow> ucs_pgtable \<Rightarrow> u64 \<Rightarrow> u64 \<Rightarrow> u64 \<Rightarrow> nat option \<times> nat list \<Rightarrow> nat list option option" where
  "search_pages rm pt to end' address s =
     (if address \<le> to then
        case ucs_pgtable_get_next_page_order address end' of
          None \<Rightarrow> Some None
        | Some order \<Rightarrow>
          (case (if address AND pt_mask pt = pt_base pt
                 then ucs_pgtable_search_recurs rm address order (pt_root pt) (pt_shift pt) s else Some s) of
             None \<Rightarrow> Some None
           | Some s1 \<Rightarrow>
               if order = UCS_PGT_ADDR_ORDER then Some (Some (snd s1))
               else (case ucs_pgt_address_advance address order of
                       None \<Rightarrow> Some None
                     | Some address1 \<Rightarrow> search_pages rm pt to end' address1 s1))
      else Some (Some (snd s)))"

definition ucs_pgtable_search_range :: "region_mem \<Rightarrow> ucs_pgtable \<Rightarrow> u64 \<Rightarrow> u64 \<Rightarrow> nat list option option" where
  "ucs_pgtable_search_range rm pt from to =
     (let address = ucs_align_down_pow2 from UCS_PGT_ADDR_ALIGN;
          end' = ucs_align_up_pow2 to UCS_PGT_ADDR_ALIGN
      in if pt_shift pt < 64 then
           search_pages rm pt to (min end' (pt_base pt + push_bit (pt_shift pt) 1)) (max address (pt_base pt)) (None, [])
         else if pt_base pt = 0 then search_pages rm pt to end' address (None, [])
         else Some None)"

section \<open>Purge, initialisation, cleanup\<close>

fun purge_remove :: "region_mem \<Rightarrow> nat list \<Rightarrow> ucs_pgtable \<Rightarrow> ucs_pgtable option" where
  "purge_remove rm [] pt = Some pt"
| "purge_remove rm (region # rest) pt = do {
     (status, pt1) \<leftarrow> ucs_pgtable_remove rm pt region;
     purge_remove rm rest pt1
   }"

definition purge_out :: "ucs_pgtable \<Rightarrow> unit option" where
  "purge_out pt = do {
     ucs_assert (\<not> ucs_pgt_entry_present (pt_root pt));
     ucs_assert (pt_shift pt = UCS_PGT_ADDR_SHIFT);
     ucs_assert (pt_base pt = 0);
     ucs_assert (pt_num_regions pt = 0)
   }"

text \<open>The result is the empty table and the regions for which the callback was called.  The array for the
  regions may not be available; writing past it, and a shift by 64, are undefined.\<close>

definition ucs_pgtable_purge :: "region_mem \<Rightarrow> bool \<Rightarrow> ucs_pgtable \<Rightarrow> (ucs_pgtable \<times> nat list) option option" where
  "ucs_pgtable_purge rm array_ok pt =
     (if pt_num_regions pt = 0 then Some (do { purge_out pt; Some (pt, []) })
      else if \<not> array_ok then Some (Some (pt, []))
      else if \<not> pt_shift pt < 64 then Some None
      else
        let from = pt_base pt; to = pt_base pt + (push_bit (pt_shift pt) 1 AND pt_mask pt) - 1
        in case ucs_pgtable_search_range rm pt from to of
             None \<Rightarrow> None
           | Some None \<Rightarrow> Some None
           | Some (Some regions) \<Rightarrow> Some (do {
               ucs_assert (length regions = unat (pt_num_regions pt));
               pt1 \<leftarrow> purge_remove rm regions pt;
               purge_out pt1;
               Some (pt1, regions)
             }))"

definition ucs_pgtable_init :: "ucs_pgtable \<Rightarrow> ucs_status \<times> ucs_pgtable" where
  "ucs_pgtable_init pt = (UCS_OK, (ucs_pgtable_reset (pt\<lparr>pt_root := Pte_none\<rparr>))\<lparr>pt_num_regions := 0\<rparr>)"

definition ucs_pgtable_num_regions :: "ucs_pgtable \<Rightarrow> u32" where
  "ucs_pgtable_num_regions pt = pt_num_regions pt"

declare shrink_all.simps [simp del] expand_order.simps [simp del] expand_address.simps [simp del]
  insert_descend.simps [simp del] insert_pages.simps [simp del] revert_pages.simps [simp del]
  remove_pages.simps [simp del]

end
