(* ===== verification/Pgt_Tree.thy ===== *)
theory Pgt_Tree
  imports Pgtable
begin

text \<open>
  What an entry of the page table means: the page that holds an address, found by descending the tree.
  Inserting and removing a page change the meaning on the addresses of that page only, and keep the shape
  of the tree: 16 entries per directory, a counter of the present entries, no empty directory.
\<close>

section \<open>Meaning and shape of an entry\<close>

text \<open>The order and the region of the page that holds the address \<open>x\<close>, in an entry that covers
  \<open>2 ^ s\<close> addresses.\<close>

fun leaf :: "nat \<Rightarrow> ucs_pgt_entry \<Rightarrow> nat \<Rightarrow> (nat \<times> nat) option" where
  "leaf s Pte_none x = None"
| "leaf s (Pte_region r) x = Some (s, r)"
| "leaf s (Pte_dir es count) x =
     (if x div 2 ^ (s - 4) mod 16 < length es then leaf (s - 4) (es ! (x div 2 ^ (s - 4) mod 16)) x else None)"

definition num_present :: "ucs_pgt_entry list \<Rightarrow> nat" where
  "num_present es = length (filter ucs_pgt_entry_present es)"

fun wf_pte :: "nat \<Rightarrow> ucs_pgt_entry \<Rightarrow> bool" where
  "wf_pte s Pte_none = True"
| "wf_pte s (Pte_region r) = True"
| "wf_pte s (Pte_dir es count) =
     (8 \<le> s \<and> length es = 16 \<and> count = of_nat (num_present es) \<and> num_present es > 0 \<and> (\<forall>e\<in>set es. wf_pte (s - 4) e))"

text \<open>Two addresses in the same page of order \<open>n\<close>, as far as an entry of order \<open>s\<close> can tell.\<close>

definition same_block :: "nat \<Rightarrow> nat \<Rightarrow> nat \<Rightarrow> nat \<Rightarrow> bool" where
  "same_block n s x y \<longleftrightarrow> x div 2 ^ n mod 2 ^ (s - n) = y div 2 ^ n mod 2 ^ (s - n)"

section \<open>Arithmetic\<close>

lemma pte_index_nat: "pte_index a s = unat a div 2 ^ s mod 16"
proof -
  have "UCS_PGT_ENTRY_MASK = mask 4" by (simp add: pgt_consts mask_eq_exp_minus_1)
  then have "pte_index a s = unat (take_bit 4 (drop_bit s a))" by (simp add: pte_index_def take_bit_eq_mask)
  also have "\<dots> = take_bit 4 (drop_bit s (unat a))"
    by (rule bit_eqI) (auto simp: bit_unsigned_iff bit_take_bit_iff bit_drop_bit_eq)
  finally show ?thesis by (simp add: take_bit_eq_mod drop_bit_eq_div)
qed

lemma mod_eq_split:
  fixes a b m n :: nat
  assumes "0 < m"
  shows "a mod (m * n) = b mod (m * n) \<longleftrightarrow> a div m mod n = b div m mod n \<and> a mod m = b mod m"
proof
  assume e: "a mod (m * n) = b mod (m * n)"
  have "m * (a div m mod n) + a mod m = m * (b div m mod n) + b mod m"
    using e by (simp add: mod_mult2_eq)
  moreover have "a mod m = b mod m" using e by (metis dvd_triv_left mod_mod_cancel)
  ultimately show "a div m mod n = b div m mod n \<and> a mod m = b mod m" using assms by simp
next
  assume "a div m mod n = b div m mod n \<and> a mod m = b mod m"
  then show "a mod (m * n) = b mod (m * n)" by (simp add: mod_mult2_eq)
qed

lemma eq_split:
  fixes a b m :: nat
  shows "a = b \<longleftrightarrow> a div m = b div m \<and> a mod m = b mod m"
  by (metis mult_div_mod_eq)

lemma div_exp_exp: "x div 2 ^ a div 2 ^ b = x div (2::nat) ^ (a + b)"
  by (simp add: div_mult2_eq power_add)

lemma exp_minus_4: "4 \<le> s \<Longrightarrow> (2::nat) ^ s = 2 ^ (s - 4) * 16"
  using power_add [of "2::nat" "s - 4" 4] by simp

lemma same_block_same [simp]: "same_block n n x y"
  by (simp add: same_block_def)

lemma same_block_step:
  assumes "n + 4 \<le> s"
  shows "same_block n s x y \<longleftrightarrow>
    x div 2 ^ (s - 4) mod 16 = y div 2 ^ (s - 4) mod 16 \<and> same_block n (s - 4) x y"
proof -
  obtain k where k: "s = n + k + 4" using assms by (metis le_iff_add add.assoc add.commute)
  have "(2::nat) ^ (s - n) = 2 ^ k * 16" using k by (simp add: power_add)
  then have "same_block n s x y \<longleftrightarrow>
      x div 2 ^ n div 2 ^ k mod 16 = y div 2 ^ n div 2 ^ k mod 16 \<and> x div 2 ^ n mod 2 ^ k = y div 2 ^ n mod 2 ^ k"
    unfolding same_block_def using mod_eq_split [of "2 ^ k" "x div 2 ^ n" 16 "y div 2 ^ n"] by simp
  then show ?thesis using k by (simp add: same_block_def div_exp_exp)
qed

text \<open>Moving an address into the \<open>i\<close>-th part keeps its place inside the part.\<close>

definition into_part :: "nat \<Rightarrow> nat \<Rightarrow> nat \<Rightarrow> nat" where
  "into_part s i x = i * 2 ^ s + x mod 2 ^ s"

lemma into_part_index: "i < 16 \<Longrightarrow> into_part s i x div 2 ^ s mod 16 = i"
  by (simp add: into_part_def)

lemma into_part_mod: "into_part s i x mod 2 ^ s = x mod 2 ^ s"
  by (simp add: into_part_def)

lemma leaf_mod:
  assumes "wf_pte s t" "x mod 2 ^ s = y mod 2 ^ s"
  shows "leaf s t x = leaf s t y"
  using assms
proof (induction s t x arbitrary: y rule: leaf.induct)
  case (3 s es count x)
  have "(2::nat) ^ s = 2 ^ (s - 4) * 16" using 3(2) exp_minus_4 [of s] by simp
  then have i: "x div 2 ^ (s - 4) mod 16 = y div 2 ^ (s - 4) mod 16" "x mod 2 ^ (s - 4) = y mod 2 ^ (s - 4)"
    using 3(3) mod_eq_split [of "2 ^ (s - 4)" x 16 y] by simp_all
  then show ?case using 3 by simp
qed simp_all

lemma same_block_mod: "n \<le> s \<Longrightarrow> x mod 2 ^ s = y mod 2 ^ s \<Longrightarrow> same_block n s x z \<longleftrightarrow> same_block n s y z"
proof -
  assume n: "n \<le> s" and e: "x mod 2 ^ s = y mod 2 ^ s"
  have "(2::nat) ^ s = 2 ^ n * 2 ^ (s - n)" using n by (simp flip: power_add)
  then show ?thesis using e mod_eq_split [of "2 ^ n" x "2 ^ (s - n)" y] by (simp add: same_block_def)
qed

section \<open>Counting the present entries\<close>

lemma num_present_update:
  "i < length es \<Longrightarrow> num_present (es[i := e]) + (if ucs_pgt_entry_present (es ! i) then 1 else 0) =
     num_present es + (if ucs_pgt_entry_present e then 1 else 0)"
proof (induction es arbitrary: i)
  case (Cons a es)
  then show ?case by (cases i) (auto simp: num_present_def)
qed simp

lemma num_present_le: "num_present es \<le> length es"
  by (simp add: num_present_def)

lemma num_present_pos: "0 < num_present es \<longleftrightarrow> (\<exists>i<length es. ucs_pgt_entry_present (es ! i))"
  unfolding num_present_def length_greater_0_conv filter_empty_conv by (metis in_set_conv_nth)

lemma num_present_alloc [simp]: "num_present ucs_pgt_dir_alloc = 0" "length ucs_pgt_dir_alloc = 16"
  by (simp_all add: num_present_def ucs_pgt_dir_alloc_def pgt_consts)

lemma alloc_nth [simp]: "i < 16 \<Longrightarrow> ucs_pgt_dir_alloc ! i = Pte_none"
  by (simp add: ucs_pgt_dir_alloc_def pgt_consts)

lemma count_word_inj: "n \<le> 16 \<Longrightarrow> m \<le> 16 \<Longrightarrow> (of_nat n :: u32) = of_nat m \<longleftrightarrow> n = m"
proof -
  assume "n \<le> 16" "m \<le> 16"
  then have "unat (of_nat n :: u32) = n" "unat (of_nat m :: u32) = m" by (simp_all add: unat_of_nat)
  then show ?thesis by metis
qed

lemma not_present [simp]: "\<not> ucs_pgt_entry_present t \<longleftrightarrow> t = Pte_none"
  by (cases t) simp_all

lemma leaf_absent: "\<not> ucs_pgt_entry_present t \<Longrightarrow> leaf s t x = None"
  by simp

lemma present_leaf:
  assumes "wf_pte s t" "ucs_pgt_entry_present t"
  shows "\<exists>x. leaf s t x \<noteq> None"
  using assms
proof (induction s t rule: wf_pte.induct)
  case (3 s es count)
  obtain i where i: "i < 16" "ucs_pgt_entry_present (es ! i)" "length es = 16"
    using 3(2) num_present_pos by auto
  have "wf_pte (s - 4) (es ! i)" using 3(2) i by simp
  then obtain x where x: "leaf (s - 4) (es ! i) x \<noteq> None" using 3(1) [of "es ! i"] i by auto
  have "leaf (s - 4) (es ! i) (into_part (s - 4) i x) = leaf (s - 4) (es ! i) x"
    using \<open>wf_pte (s - 4) (es ! i)\<close> into_part_mod by (rule leaf_mod)
  then have "leaf s (Pte_dir es count) (into_part (s - 4) i x) \<noteq> None"
    using x i by (simp add: into_part_index)
  then show ?case by blast
qed simp_all

section \<open>Inserting a page\<close>

text \<open>The page is free in an entry, or some address of it is taken.\<close>

definition block_free :: "nat \<Rightarrow> nat \<Rightarrow> ucs_pgt_entry \<Rightarrow> nat \<Rightarrow> bool" where
  "block_free n s t a \<longleftrightarrow> (\<forall>x. same_block n s x a \<longrightarrow> leaf s t x = None)"

lemma block_free_child:
  assumes "wf_pte s (Pte_dir es c)" "n + 4 \<le> s" "i = a div 2 ^ (s - 4) mod 16"
  shows "block_free n s (Pte_dir es c) a \<longleftrightarrow> block_free n (s - 4) (es ! i) a"
proof -
  have i: "i < 16" "length es = 16" "wf_pte (s - 4) (es ! i)" using assms by auto
  show ?thesis
  proof
    assume f: "block_free n s (Pte_dir es c) a"
    show "block_free n (s - 4) (es ! i) a"
      unfolding block_free_def
    proof (intro allI impI)
      fix x assume x: "same_block n (s - 4) x a"
      let ?y = "into_part (s - 4) i x"
      have "same_block n (s - 4) ?y a"
        using x same_block_mod [of n "s - 4" ?y x a] into_part_mod [of "s - 4" i x] assms(2) by simp
      then have "same_block n s ?y a"
        using same_block_step [OF assms(2), of ?y a] into_part_index [OF i(1)] assms(3) by simp
      then have "leaf s (Pte_dir es c) ?y = None" using f by (simp add: block_free_def)
      then have "leaf (s - 4) (es ! i) ?y = None" using i into_part_index [OF i(1)] by simp
      then show "leaf (s - 4) (es ! i) x = None"
        using leaf_mod [OF i(3) into_part_mod [of "s - 4" i x]] by simp
    qed
  next
    assume f: "block_free n (s - 4) (es ! i) a"
    show "block_free n s (Pte_dir es c) a"
      unfolding block_free_def
    proof (intro allI impI)
      fix x assume "same_block n s x a"
      then have "x div 2 ^ (s - 4) mod 16 = i" "same_block n (s - 4) x a"
        using same_block_step [OF assms(2)] assms(3) by auto
      then show "leaf s (Pte_dir es c) x = None" using f i by (simp add: block_free_def)
    qed
  qed
qed

lemma insert_taken:
  assumes "wf_pte s t" "4 dvd s" "4 dvd n" "4 \<le> n" "n \<le> s" "\<not> block_free n s t (unat a)"
  shows "insert_descend a n r s t = Some (UCS_ERR_ALREADY_EXISTS, t, False)"
  using assms
proof (induction s arbitrary: t rule: less_induct)
  case (less s)
  show ?case
  proof (cases "n = s")
    case True
    then have "ucs_pgt_entry_present t" using less.prems(6) by (cases t) (auto simp: block_free_def)
    then show ?thesis using True by (simp add: insert_descend.simps)
  next
    case False
    then have ns: "n + 4 \<le> s" using less.prems(2,3,5) by (auto elim!: dvdE)
    show ?thesis
    proof (cases t)
      case Pte_none
      then show ?thesis using less.prems(6) by (simp add: block_free_def)
    next
      case (Pte_region r')
      then show ?thesis using False by (simp add: insert_descend.simps)
    next
      case (Pte_dir es c)
      define i where "i = unat a div 2 ^ (s - 4) mod 16"
      have i: "i < 16" "length es = 16" "wf_pte (s - 4) (es ! i)" using less.prems(1) Pte_dir by (auto simp: i_def)
      have "\<not> block_free n (s - 4) (es ! i) (unat a)"
        using block_free_child [OF _ ns i_def] less.prems(1,6) Pte_dir by simp
      moreover have "4 dvd s - 4" using less.prems(2) by simp
      ultimately have "insert_descend a n r (s - 4) (es ! i) = Some (UCS_ERR_ALREADY_EXISTS, es ! i, False)"
        using less.IH [of "s - 4" "es ! i"] i(3) ns less.prems(3,4) by simp
      then show ?thesis
        using False ns insert_descend.simps [of a n r s t] i_def
        by (simp add: Pte_dir pte_index_nat pgt_consts add.commute)
    qed
  qed
qed

text \<open>The result of a successful insertion.\<close>

definition inserted :: "nat \<Rightarrow> nat \<Rightarrow> nat \<Rightarrow> nat \<Rightarrow> ucs_pgt_entry \<Rightarrow> ucs_pgt_entry \<Rightarrow> bool" where
  "inserted n a r s t t' \<longleftrightarrow> wf_pte s t' \<and> ucs_pgt_entry_present t' \<and>
     (\<forall>x. leaf s t' x = (if same_block n s x a then Some (n, r) else leaf s t x))"

lemma inserted_child:
  assumes "wf_pte s (Pte_dir es c) \<or> es = ucs_pgt_dir_alloc \<and> c = 0 \<and> 8 \<le> s" "n + 4 \<le> s"
    and "i = a div 2 ^ (s - 4) mod 16" "inserted n a r (s - 4) (es ! i) child"
    and "\<And>x. leaf s t x = leaf s (Pte_dir es c) x"
  shows "inserted n a r s t (Pte_dir (es[i := child]) (if ucs_pgt_entry_present (es ! i) then c else c + 1))"
proof -
  have i: "i < 16" "length es = 16" "8 \<le> s" "c = of_nat (num_present es)" "\<forall>e\<in>set es. wf_pte (s - 4) e"
    using assms(1,3) by (auto simp: ucs_pgt_dir_alloc_def pgt_consts num_present_def)
  have ch: "wf_pte (s - 4) child" "ucs_pgt_entry_present child"
    and lf: "leaf (s - 4) child y = (if same_block n (s - 4) y a then Some (n, r) else leaf (s - 4) (es ! i) y)" for y
    using assms(4) by (auto simp: inserted_def)
  have np: "num_present (es[i := child]) = num_present es + (if ucs_pgt_entry_present (es ! i) then 0 else 1)"
    using num_present_update [of i es child] i(1,2) ch(2) by (auto split: if_splits)
  then have "0 < num_present (es[i := child])"
    unfolding num_present_pos using i ch(2) by (metis length_list_update nth_list_update_eq)
  moreover have "\<forall>e\<in>set (es[i := child]). wf_pte (s - 4) e"
    using i(5) ch(1) set_update_subset_insert [of es i child] by auto
  ultimately have "wf_pte s (Pte_dir (es[i := child]) (if ucs_pgt_entry_present (es ! i) then c else c + 1))"
    using i np by (simp add: add.commute)
  moreover have "leaf s (Pte_dir (es[i := child]) c') x =
      (if same_block n s x a then Some (n, r) else leaf s (Pte_dir es c) x)" for c' x
    using i(1,2) lf [of x] same_block_step [OF assms(2), of x a] assms(3) by (auto simp: nth_list_update)
  ultimately show ?thesis unfolding inserted_def assms(5) by simp
qed

lemma insert_free:
  assumes "wf_pte s t" "4 dvd s" "4 dvd n" "4 \<le> n" "n \<le> s" "block_free n s t (unat a)"
  shows "\<exists>t'. insert_descend a n r s t = Some (UCS_OK, t', \<not> ucs_pgt_entry_present t) \<and>
    inserted n (unat a) r s t t'"
  using assms
proof (induction s arbitrary: t rule: less_induct)
  case (less s)
  show ?case
  proof (cases "n = s")
    case True
    then have "\<forall>x. leaf s t x = None" using less.prems(6) by (simp add: block_free_def)
    then have "t = Pte_none" using present_leaf [OF less.prems(1)] by (cases t) auto
    then show ?thesis using True by (simp add: insert_descend.simps inserted_def)
  next
    case False
    then have ns: "n + 4 \<le> s" using less.prems(2,3,5) by (auto elim!: dvdE)
    define i where "i = unat a div 2 ^ (s - 4) mod 16"
    obtain es c where es: "(case t of Pte_dir es c \<Rightarrow> (es, c) | _ \<Rightarrow> (ucs_pgt_dir_alloc, 0)) = (es, c)"
      by fastforce
    have nr: "\<And>r'. t \<noteq> Pte_region r'" using less.prems(6) by (auto simp: block_free_def same_block_def)
    then have dir: "wf_pte s (Pte_dir es c) \<or> es = ucs_pgt_dir_alloc \<and> c = 0 \<and> 8 \<le> s"
      using es less.prems(1,4) ns by (cases t) auto
    have lt: "leaf s t x = leaf s (Pte_dir es c) x" for x
      using es nr by (cases t) auto
    have c16: "i < 16" "length es = 16" "wf_pte (s - 4) (es ! i)" using dir by (auto simp: i_def)
    have "block_free n (s - 4) (es ! i) (unat a)"
      using block_free_child [OF _ ns i_def] less.prems(1,6) es nr c16(1) by (cases t) (auto simp: block_free_def)
    moreover have "4 dvd s - 4" "n \<le> s - 4" using less.prems(2) ns by simp_all
    ultimately obtain child where child:
        "insert_descend a n r (s - 4) (es ! i) = Some (UCS_OK, child, \<not> ucs_pgt_entry_present (es ! i))"
        "inserted n (unat a) r (s - 4) (es ! i) child"
      using less.IH [of "s - 4" "es ! i"] c16(3) ns less.prems(3,4) by auto
    have "insert_descend a n r s t = Some (UCS_OK, Pte_dir (es[i := child])
        (if ucs_pgt_entry_present (es ! i) then c else c + 1), \<not> ucs_pgt_entry_present t)"
      using False ns insert_descend.simps [of a n r s t] child(1) es nr i_def
      by (cases t) (auto simp: pte_index_nat pgt_consts add.commute Let_def)
    then show ?thesis using inserted_child [OF dir ns i_def child(2) lt] by blast
  qed
qed

section \<open>Removing a page\<close>

lemma remove_absent:
  assumes "wf_pte s t" "4 \<le> s" "leaf s t (unat a) = None \<or> (\<exists>r'. leaf s t (unat a) = Some (n, r') \<and> r' \<noteq> r)"
  shows "ucs_pgtable_remove_page_recurs a n t s r = Some (UCS_ERR_NO_ELEM, t, False)"
  using assms
proof (induction s t rule: wf_pte.induct)
  case (3 s es c)
  define i where "i = unat a div 2 ^ (s - 4) mod 16"
  have i: "i < length es" "wf_pte (s - 4) (es ! i)" "8 \<le> s" using 3(2) by (auto simp: i_def)
  have "ucs_pgtable_remove_page_recurs a n (es ! i) (s - 4) r = Some (UCS_ERR_NO_ELEM, es ! i, False)"
    using 3(1) [of "es ! i"] 3(4) i by (simp add: i_def)
  then show ?case using i by (simp add: pte_index_nat pgt_consts Let_def i_def)
qed auto

lemma remove_wrong_order:
  assumes "wf_pte s t" "4 \<le> s" "leaf s t (unat a) = Some (m, r')" "m \<noteq> n"
  shows "ucs_pgtable_remove_page_recurs a n t s r = None"
  using assms
proof (induction s t rule: wf_pte.induct)
  case (3 s es c)
  define i where "i = unat a div 2 ^ (s - 4) mod 16"
  have i: "i < length es" "wf_pte (s - 4) (es ! i)" "8 \<le> s" using 3(2) by (auto simp: i_def)
  have "ucs_pgtable_remove_page_recurs a n (es ! i) (s - 4) r = None"
    using 3(1) [of "es ! i"] 3(4,5) i by (simp add: i_def)
  then show ?case using i by (simp add: pte_index_nat pgt_consts Let_def i_def)
qed auto

lemma leaf_order:
  assumes "wf_pte s t" "4 dvd s" "4 \<le> s" "leaf s t x = Some (n, r)"
  shows "4 dvd n \<and> 4 \<le> n \<and> n \<le> s"
  using assms
proof (induction s t rule: wf_pte.induct)
  case (3 s es c)
  have "wf_pte (s - 4) (es ! (x div 2 ^ (s - 4) mod 16))" "x div 2 ^ (s - 4) mod 16 < length es" "8 \<le> s"
    using 3(2) by auto
  then show ?case using 3(1) [of "es ! (x div 2 ^ (s - 4) mod 16)"] 3(3,5) by fastforce
qed auto

definition removed :: "nat \<Rightarrow> nat \<Rightarrow> nat \<Rightarrow> ucs_pgt_entry \<Rightarrow> ucs_pgt_entry \<Rightarrow> bool" where
  "removed n a s t t' \<longleftrightarrow> wf_pte s t' \<and>
     (\<forall>x. leaf s t' x = (if same_block n s x a then None else leaf s t x))"

lemma removed_child:
  assumes "wf_pte s (Pte_dir es c)" "n + 4 \<le> s" "i = a div 2 ^ (s - 4) mod 16"
    and "removed n a (s - 4) (es ! i) child" "ucs_pgt_entry_present (es ! i)"
    and "c' = (if ucs_pgt_entry_present child then c else c - 1)"
  shows "removed n a s (Pte_dir es c) (if c' = 0 then Pte_none else Pte_dir (es[i := child]) c')"
proof -
  have i: "i < 16" "length es = 16" "8 \<le> s" "c = of_nat (num_present es)" "\<forall>e\<in>set es. wf_pte (s - 4) e"
    using assms(1,3) by auto
  have ch: "wf_pte (s - 4) child"
    and lf: "leaf (s - 4) child y = (if same_block n (s - 4) y a then None else leaf (s - 4) (es ! i) y)" for y
    using assms(4) by (auto simp: removed_def)
  have np: "num_present (es[i := child]) + 1 = num_present es + (if ucs_pgt_entry_present child then 1 else 0)"
    using num_present_update [of i es child] i(1,2) assms(5) by simp
  then have "num_present es = num_present (es[i := child]) + (if ucs_pgt_entry_present child then 0 else 1)"
    by (cases child) auto
  then have c': "c' = of_nat (num_present (es[i := child]))" using i(4) assms(6) by simp
  have le: "num_present (es[i := child]) \<le> 16" using num_present_le [of "es[i := child]"] i(2) by simp
  have c0: "c' = 0 \<longleftrightarrow> num_present (es[i := child]) = 0"
    using count_word_inj [OF le, of 0] c' by simp
  have new: "leaf s (Pte_dir (es[i := child]) c') x = (if same_block n s x a then None else leaf s (Pte_dir es c) x)" for x
    using i(1,2) lf [of x] same_block_step [OF assms(2), of x a] assms(3) by (auto simp: nth_list_update)
  show ?thesis
  proof (cases "c' = 0")
    case True
    then have "\<not> ucs_pgt_entry_present (es[i := child] ! j)" if "j < 16" for j
      using that c0 num_present_pos [of "es[i := child]"] i(2) by auto
    then have "leaf s (Pte_dir (es[i := child]) c') x = None" for x
      using i(2) leaf_absent by simp
    then show ?thesis using True new by (simp add: removed_def)
  next
    case False
    have "\<forall>e\<in>set (es[i := child]). wf_pte (s - 4) e"
      using i(5) ch set_update_subset_insert [of es i child] by auto
    then have "wf_pte s (Pte_dir (es[i := child]) c')" using i c' False c0 by simp
    then show ?thesis using False new by (simp add: removed_def)
  qed
qed

lemma remove_present:
  assumes "wf_pte s t" "4 dvd s" "4 \<le> s" "leaf s t (unat a) = Some (n, r)"
  shows "\<exists>t'. ucs_pgtable_remove_page_recurs a n t s r = Some (UCS_OK, t', \<not> ucs_pgt_entry_present t') \<and>
    removed n (unat a) s t t'"
  using assms
proof (induction s t rule: wf_pte.induct)
  case (2 s r')
  then show ?case by (simp add: removed_def)
next
  case (3 s es c)
  define i where "i = unat a div 2 ^ (s - 4) mod 16"
  have i: "i < length es" "wf_pte (s - 4) (es ! i)" "8 \<le> s" "4 dvd s - 4" "4 \<le> s - 4"
    using 3(2,3) by (auto simp: i_def)
  have lf: "leaf (s - 4) (es ! i) (unat a) = Some (n, r)" using 3(5) i by (simp add: i_def)
  obtain child where child:
      "ucs_pgtable_remove_page_recurs a n (es ! i) (s - 4) r = Some (UCS_OK, child, \<not> ucs_pgt_entry_present child)"
      "removed n (unat a) (s - 4) (es ! i) child"
    using 3(1) [of "es ! i"] i lf by auto
  have "n \<le> s - 4" using leaf_order [OF i(2,4) _ lf] i(3) by simp
  then have ns: "n + 4 \<le> s" using i(3) by simp
  define c' where "c' = (if ucs_pgt_entry_present child then c else c - 1)"
  have "ucs_pgt_entry_present (es ! i)" using lf leaf_absent [of "es ! i"] by (metis option.distinct(1))
  then have "removed n (unat a) s (Pte_dir es c) (if c' = 0 then Pte_none else Pte_dir (es[i := child]) c')"
    using removed_child [OF 3(2) ns i_def child(2) _ c'_def] by blast
  moreover have "ucs_pgtable_remove_page_recurs a n (Pte_dir es c) s r =
      Some (UCS_OK, if c' = 0 then Pte_none else Pte_dir (es[i := child]) c', c' = 0)"
    using i child(1) by (auto simp: pte_index_nat pgt_consts Let_def i_def [symmetric] c'_def)
  ultimately show ?case by auto
qed simp

end
