(* ===== verification/Pgt_Table.thy ===== *)
theory Pgt_Table
  imports Pgt_Tree
begin

text \<open>
  The page table as a map from addresses to pages: growing and shrinking the root leave the map as it is,
  inserting and removing a page change it on that page.
\<close>

section \<open>The table as a map\<close>

definition tleaf :: "ucs_pgtable \<Rightarrow> nat \<Rightarrow> (nat \<times> nat) option" where
  "tleaf pt x =
     (if x div 2 ^ pt_shift pt = unat (pt_base pt) div 2 ^ pt_shift pt then leaf (pt_shift pt) (pt_root pt) x else None)"

definition tbl_ok :: "ucs_pgtable \<Rightarrow> bool" where
  "tbl_ok pt \<longleftrightarrow> 4 \<le> pt_shift pt \<and> pt_shift pt \<le> 64 \<and> 4 dvd pt_shift pt \<and>
     pt_mask pt = push_bit (pt_shift pt) (- 1) \<and> 2 ^ pt_shift pt dvd unat (pt_base pt) \<and>
     wf_pte (pt_shift pt) (pt_root pt)"

text \<open>An empty table is in its initial state.\<close>

definition tbl_norm :: "ucs_pgtable \<Rightarrow> bool" where
  "tbl_norm pt \<longleftrightarrow> (pt_root pt = Pte_none \<longrightarrow> pt_shift pt = 4 \<and> pt_base pt = 0)"

lemma unat_and_high: "unat (a AND push_bit s (- 1) :: u64) = unat a div 2 ^ s * 2 ^ s"
proof -
  have "unat (a AND push_bit s (- 1) :: u64) = push_bit s (drop_bit s (unat a))"
    by (rule bit_eqI) (auto simp: bit_unsigned_iff bit_and_iff bit_push_bit_iff bit_drop_bit_eq bit_not_iff
        bit_mask_iff not_less dest: bit_imp_le_length)
  then show ?thesis by (simp add: push_bit_eq_mult drop_bit_eq_div)
qed

lemma covered_iff:
  assumes "tbl_ok pt"
  shows "a AND pt_mask pt = pt_base pt \<longleftrightarrow> unat a div 2 ^ pt_shift pt = unat (pt_base pt) div 2 ^ pt_shift pt"
proof -
  have b: "unat (pt_base pt) = unat (pt_base pt) div 2 ^ pt_shift pt * 2 ^ pt_shift pt"
    using assms by (simp add: tbl_ok_def)
  have "a AND pt_mask pt = pt_base pt \<longleftrightarrow> unat (a AND pt_mask pt) = unat (pt_base pt)"
    by (metis unsigned_word_eqI)
  also have "\<dots> \<longleftrightarrow> unat a div 2 ^ pt_shift pt * 2 ^ pt_shift pt = unat (pt_base pt) div 2 ^ pt_shift pt * 2 ^ pt_shift pt"
    using unat_and_high [of a "pt_shift pt"] assms b by (simp add: tbl_ok_def)
  also have "\<dots> \<longleftrightarrow> unat a div 2 ^ pt_shift pt = unat (pt_base pt) div 2 ^ pt_shift pt" by simp
  finally show ?thesis .
qed

lemma addr_less: "unat (a :: u64) < 2 ^ 64"
  using unsigned_less [of a, where ?'a = nat] by simp

lemma unat_of_nat_addr: "n < 2 ^ 64 \<Longrightarrow> unat (of_nat n :: u64) = n"
  by (simp add: unat_of_nat)

lemma eq_split_exp:
  "x div 2 ^ n = y div (2::nat) ^ n \<longleftrightarrow> x div 2 ^ (n + k) = y div 2 ^ (n + k) \<and> x div 2 ^ n mod 2 ^ k = y div 2 ^ n mod 2 ^ k"
  using eq_split [of "x div 2 ^ n" "y div 2 ^ n" "2 ^ k"] by (simp add: div_exp_exp)

section \<open>Growing the root\<close>

lemma expand_ok:
  assumes "tbl_ok pt" "pt_shift pt \<le> 60"
  shows "\<exists>pt'. ucs_pgtable_expand pt = Some pt' \<and> tbl_ok pt' \<and> pt_shift pt' = pt_shift pt + 4 \<and>
    tleaf pt' = tleaf pt \<and> (pt_root pt' = Pte_none \<longleftrightarrow> pt_root pt = Pte_none) \<and>
    pt_num_regions pt' = pt_num_regions pt"
proof -
  define s where "s = pt_shift pt"
  define i where "i = unat (pt_base pt) div 2 ^ s mod 16"
  define root where "root = (if ucs_pgt_entry_present (pt_root pt)
      then Pte_dir (ucs_pgt_dir_alloc[i := pt_root pt]) 1 else pt_root pt)"
  define pt' where "pt' = pt\<lparr>pt_root := root, pt_shift := s + 4, pt_mask := push_bit 4 (pt_mask pt),
      pt_base := pt_base pt AND push_bit 4 (pt_mask pt)\<rparr>"
  have ex: "ucs_pgtable_expand pt = Some pt'"
    using assms(2) by (simp add: ucs_pgtable_expand_def Let_def pgt_consts pt'_def root_def pte_index_nat i_def s_def)
  have ok: "4 \<le> s" "4 dvd s" "pt_mask pt = push_bit s (- 1)" "wf_pte s (pt_root pt)"
    using assms by (auto simp: tbl_ok_def s_def)
  have m: "push_bit 4 (pt_mask pt) = push_bit (s + 4) (- 1)"
    unfolding ok(3) push_bit_push_bit by (simp only: add.commute)
  have b: "unat (pt_base pt') = unat (pt_base pt) div 2 ^ (s + 4) * 2 ^ (s + 4)"
    unfolding pt'_def using unat_and_high m by simp
  have i16: "i < 16" by (simp add: i_def)
  have np: "ucs_pgt_entry_present (pt_root pt) \<Longrightarrow> num_present (ucs_pgt_dir_alloc[i := pt_root pt]) = 1"
    using num_present_update [of i ucs_pgt_dir_alloc "pt_root pt"] i16 by simp
  have wf: "wf_pte (s + 4) root"
  proof (cases "ucs_pgt_entry_present (pt_root pt)")
    case True
    have "set (ucs_pgt_dir_alloc[i := pt_root pt]) \<subseteq> {pt_root pt, Pte_none}"
      using set_update_subset_insert [of ucs_pgt_dir_alloc i "pt_root pt"]
      by (auto simp: ucs_pgt_dir_alloc_def)
    then have "\<forall>e\<in>set (ucs_pgt_dir_alloc[i := pt_root pt]). wf_pte s e" using ok(4) by auto
    then show ?thesis using True np ok(1) by (simp add: root_def)
  qed (simp add: root_def)
  have lf: "leaf (s + 4) root x = (if x div 2 ^ s mod 16 = i then leaf s (pt_root pt) x else None)" for x
    using i16 by (cases "ucs_pgt_entry_present (pt_root pt)") (auto simp: root_def nth_list_update)
  have "tleaf pt' x = tleaf pt x" for x
    using eq_split_exp [of x s "unat (pt_base pt)" 4] lf [of x] b
    by (auto simp: tleaf_def pt'_def i_def s_def)
  then have "tleaf pt' = tleaf pt" by blast
  moreover have "tbl_ok pt'"
    using ok wf m b assms(2) by (simp add: tbl_ok_def pt'_def s_def)
  moreover have "pt_root pt' = Pte_none \<longleftrightarrow> pt_root pt = Pte_none"
    by (cases "pt_root pt") (auto simp: pt'_def root_def)
  ultimately show ?thesis using ex by (simp add: pt'_def s_def)
qed

definition grown :: "ucs_pgtable \<Rightarrow> ucs_pgtable \<Rightarrow> bool" where
  "grown pt pt' \<longleftrightarrow> tbl_ok pt' \<and> tleaf pt' = tleaf pt \<and> pt_shift pt \<le> pt_shift pt' \<and>
    (pt_root pt' = Pte_none \<longleftrightarrow> pt_root pt = Pte_none) \<and> pt_num_regions pt' = pt_num_regions pt"

lemma expand_order_ok:
  assumes "tbl_ok pt" "n \<le> 60" "4 dvd n"
  shows "\<exists>pt'. expand_order pt n = Some pt' \<and> grown pt pt' \<and> n \<le> pt_shift pt'"
  using assms
proof (induction pt n rule: expand_order.induct)
  case (1 pt n)
  show ?case
  proof (cases "pt_shift pt < n")
    case True
    then obtain pt1 where pt1: "ucs_pgtable_expand pt = Some pt1" "tbl_ok pt1" "pt_shift pt1 = pt_shift pt + 4"
        "tleaf pt1 = tleaf pt" "pt_root pt1 = Pte_none \<longleftrightarrow> pt_root pt = Pte_none" "pt_num_regions pt1 = pt_num_regions pt"
      using expand_ok [OF 1(2)] 1(3) by auto
    obtain pt' where "expand_order pt1 n = Some pt'" "grown pt1 pt'" "n \<le> pt_shift pt'"
      using 1(1) [OF True pt1(1,2)] 1(3,4) by blast
    then show ?thesis using True pt1 expand_order.simps [of pt n] by (auto simp: grown_def)
  next
    case False
    then show ?thesis using 1(2) expand_order.simps [of pt n] by (auto simp: grown_def)
  qed
qed

lemma expand_address_ok:
  assumes "tbl_ok pt"
  shows "\<exists>pt'. expand_address pt a = Some pt' \<and> grown pt pt' \<and> a AND pt_mask pt' = pt_base pt'"
  using assms
proof (induction pt a rule: expand_address.induct)
  case (1 pt a)
  show ?case
  proof (cases "a AND pt_mask pt = pt_base pt")
    case True
    then show ?thesis using 1(2) expand_address.simps [of pt a] by (auto simp: grown_def)
  next
    case False
    have "pt_shift pt \<noteq> 64"
      using False covered_iff [OF 1(2), of a] addr_less [of a] addr_less [of "pt_base pt"] by auto
    moreover have "pt_shift pt \<le> 64" "4 dvd pt_shift pt" using 1(2) by (auto simp: tbl_ok_def)
    ultimately have "pt_shift pt \<le> 60" by (auto elim!: dvdE)
    then obtain pt1 where pt1: "ucs_pgtable_expand pt = Some pt1" "tbl_ok pt1" "pt_shift pt1 = pt_shift pt + 4"
        "tleaf pt1 = tleaf pt" "pt_root pt1 = Pte_none \<longleftrightarrow> pt_root pt = Pte_none" "pt_num_regions pt1 = pt_num_regions pt"
      using expand_ok [OF 1(2)] by auto
    obtain pt' where "expand_address pt1 a = Some pt'" "grown pt1 pt'" "a AND pt_mask pt' = pt_base pt'"
      using 1(1) [OF False pt1(1,2)] by blast
    then show ?thesis using False pt1 expand_address.simps [of pt a] by (auto simp: grown_def)
  qed
qed

section \<open>Shrinking the root\<close>

lemma first_present_ok:
  assumes "length es = 16" "num_present es = 1"
  shows "\<exists>i<16. first_present es = Some i \<and> ucs_pgt_entry_present (es ! i) \<and> (\<forall>j<16. j \<noteq> i \<longrightarrow> es ! j = Pte_none)"
proof -
  have "\<exists>i<length es. ucs_pgt_entry_present (es ! i)" using assms num_present_pos [of es] by simp
  then have "first_present es \<noteq> None"
    using assms(1) by (auto simp: first_present_def find_None_iff pgt_consts)
  then obtain i where fp: "first_present es = Some i" by blast
  then have i: "i < 16" "ucs_pgt_entry_present (es ! i)"
    using assms(1) by (auto simp: first_present_def find_Some_iff pgt_consts)
  have "num_present (es[i := Pte_none]) = 0"
    using num_present_update [of i es Pte_none] i assms by simp
  then have "\<not> ucs_pgt_entry_present (es[i := Pte_none] ! j)" if "j < 16" for j
    using num_present_pos [of "es[i := Pte_none]"] that assms(1) by auto
  then have "es ! j = Pte_none" if "j < 16" "j \<noteq> i" for j
    using that by (metis nth_list_update_neq not_present)
  then show ?thesis using fp i by blast
qed

lemma base_plus_part:
  fixes b :: u64
  assumes "2 ^ s dvd unat b" "i < 16" "4 \<le> s" "s \<le> 64"
  shows "unat (b OR push_bit (s - 4) (of_nat i)) = (unat b div 2 ^ s * 16 + i) * 2 ^ (s - 4)"
proof -
  have e: "(2::nat) ^ s = 2 ^ (s - 4) * 16" using exp_minus_4 [OF assms(3)] .
  have "i * 2 ^ (s - 4) < 2 ^ s" using assms(2) e by simp
  also have "(2::nat) ^ s \<le> 2 ^ 64" using assms(4) by (rule power_increasing) simp
  finally have lt: "i * 2 ^ (s - 4) < 2 ^ 64" .
  have "(push_bit (s - 4) (of_nat i) :: u64) = of_nat (i * 2 ^ (s - 4))" by (simp add: push_bit_eq_mult)
  then have u: "unat (push_bit (s - 4) (of_nat i) :: u64) = i * 2 ^ (s - 4)"
    using unat_of_nat_addr [OF lt] by (simp only:)
  obtain q where q: "unat b = q * 2 ^ s" using assms(1) by (metis dvdE mult.commute)
  have lowb: "\<not> bit b n" if "n < s" for n using assms(1) that by (simp add: pow2_dvd_low_bits)
  have hi: "\<not> bit (of_nat i :: u64) n" if "4 \<le> n" for n
  proof -
    have "i div 2 ^ n = 0" using assms(2) power_increasing [OF that, of "2::nat"] by simp
    then have "\<not> bit i n" by (simp add: bit_iff_odd)
    moreover have "bit (of_nat i :: u64) n \<longleftrightarrow> bit (unat (of_nat i :: u64)) n" using bit_imp_le_length by (auto simp: bit_unsigned_iff)
    ultimately show ?thesis using unat_of_nat_addr [of i] assms(2) by simp
  qed
  have "b + push_bit (s - 4) (of_nat i) = b OR push_bit (s - 4) (of_nat i)"
  proof (rule disjunctive_add)
    fix n
    show "\<not> bit b n \<or> \<not> bit (push_bit (s - 4) (of_nat i) :: u64) n"
      using lowb [of n] hi [of "n - (s - 4)"] assms(3) by (cases "n < s") (auto simp: bit_push_bit_iff)
  qed
  moreover have "unat b + i * 2 ^ (s - 4) < 2 ^ 64"
  proof -
    have "unat b < 2 ^ 64" by (rule addr_less)
    then have "q * 2 ^ s < 2 ^ (64 - s) * 2 ^ s" using q assms(4) by (simp flip: power_add)
    then have "Suc q \<le> 2 ^ (64 - s)" by simp
    then have "Suc q * 2 ^ s \<le> 2 ^ (64 - s) * 2 ^ s" by (rule mult_le_mono1)
    then have "q * 2 ^ s + 2 ^ s \<le> 2 ^ 64" using assms(4) by (simp flip: power_add)
    then show ?thesis using q \<open>i * 2 ^ (s - 4) < 2 ^ s\<close> by linarith
  qed
  ultimately have "unat (b OR push_bit (s - 4) (of_nat i)) = q * 2 ^ s + i * 2 ^ (s - 4)"
    using u q unat_word_ariths(1) [of b "push_bit (s - 4) (of_nat i)"] by simp
  then show ?thesis using q e by (simp add: algebra_simps)
qed

lemma bit_entry_mask: "bit UCS_PGT_ENTRY_MASK k \<longleftrightarrow> k < 4"
proof -
  have m: "UCS_PGT_ENTRY_MASK = mask 4" by (simp add: pgt_consts mask_eq_exp_minus_1)
  have "bit (mask 4 :: u64) k \<longleftrightarrow> k < 4" by (subst bit_mask_iff) auto
  then show ?thesis by (subst m)
qed

lemma mask_plus_part:
  "4 \<le> s \<Longrightarrow> push_bit s (- 1) OR push_bit (s - 4) UCS_PGT_ENTRY_MASK = (push_bit (s - 4) (- 1) :: u64)"
proof (rule bit_eqI)
  fix n assume s: "4 \<le> s"
  show "bit (push_bit s (- 1) OR push_bit (s - 4) UCS_PGT_ENTRY_MASK :: u64) n =
      bit (push_bit (s - 4) (- 1) :: u64) n"
    using s by (auto simp: bit_or_iff bit_push_bit_iff bit_not_iff bit_mask_iff bit_entry_mask)
qed

lemma reset_ok: "tbl_ok (ucs_pgtable_reset (pt\<lparr>pt_root := Pte_none\<rparr>))"
  by (simp add: tbl_ok_def ucs_pgtable_reset_def pgt_consts)

lemma shrink_ok:
  assumes "tbl_ok pt"
  shows "\<exists>again pt'. ucs_pgtable_shrink pt = Some (again, pt') \<and> tbl_ok pt' \<and> tleaf pt' = tleaf pt \<and>
    pt_num_regions pt' = pt_num_regions pt \<and> (\<not> again \<longrightarrow> tbl_norm pt')"
proof (cases "pt_root pt")
  case Pte_none
  then show ?thesis
    by (auto simp: ucs_pgtable_shrink_def ucs_pgtable_reset_def tbl_ok_def tleaf_def tbl_norm_def pgt_consts fun_eq_iff)
next
  case (Pte_region r)
  then show ?thesis using assms by (auto simp: ucs_pgtable_shrink_def tbl_norm_def)
next
  case (Pte_dir es c)
  define s where "s = pt_shift pt"
  have ok: "8 \<le> s" "s \<le> 64" "4 dvd s" "pt_mask pt = push_bit s (- 1)" "2 ^ s dvd unat (pt_base pt)"
      "length es = 16" "c = of_nat (num_present es)" "0 < num_present es" "\<forall>e\<in>set es. wf_pte (s - 4) e"
    using assms Pte_dir by (auto simp: tbl_ok_def s_def)
  have np: "num_present es \<le> 16" using num_present_le [of es] ok(6) by simp
  have c0: "c \<noteq> 0" using count_word_inj [OF np, of 0] ok(7,8) by simp
  then have cpos: "c > 0" by (simp add: word_gt_0)
  show ?thesis
  proof (cases "c = 1")
    case False
    then show ?thesis using assms Pte_dir cpos by (auto simp: ucs_pgtable_shrink_def tbl_norm_def)
  next
    case True
    then have "num_present es = 1" using count_word_inj [OF np, of 1] ok(7) by simp
    then obtain i where i: "i < 16" "first_present es = Some i" "ucs_pgt_entry_present (es ! i)"
        "\<And>j. j < 16 \<Longrightarrow> j \<noteq> i \<Longrightarrow> es ! j = Pte_none"
      using first_present_ok [OF ok(6)] by auto
    define pt' where "pt' = pt\<lparr>pt_shift := s - 4, pt_base := pt_base pt OR push_bit (s - 4) (of_nat i),
        pt_mask := pt_mask pt OR push_bit (s - 4) UCS_PGT_ENTRY_MASK, pt_root := es ! i\<rparr>"
    have sh: "ucs_pgtable_shrink pt = Some (True, pt')"
      using Pte_dir True i(2) ok(1) by (simp add: ucs_pgtable_shrink_def pt'_def pgt_consts s_def Let_def)
    have b: "unat (pt_base pt') = (unat (pt_base pt) div 2 ^ s * 16 + i) * 2 ^ (s - 4)"
      using base_plus_part [OF ok(5) i(1) _ ok(2)] ok(1) by (simp add: pt'_def)
    have m: "pt_mask pt' = push_bit (s - 4) (- 1)"
      using mask_plus_part [of s] ok(1,4) by (simp add: pt'_def)
    have "4 \<le> s - 4" "s - 4 \<le> 64" using ok(1,2) by linarith+
    then have "tbl_ok pt'"
      using b m ok i(1) by (simp add: tbl_ok_def pt'_def)
    moreover have "tleaf pt' x = tleaf pt x" for x
    proof -
      have e: "s - 4 + 4 = s" using ok(1) by simp
      have "x div 2 ^ (s - 4) = unat (pt_base pt') div 2 ^ (s - 4) \<longleftrightarrow>
          x div 2 ^ s = unat (pt_base pt) div 2 ^ s \<and> x div 2 ^ (s - 4) mod 16 = i"
        using eq_split [of "x div 2 ^ (s - 4)" "unat (pt_base pt') div 2 ^ (s - 4)" 16] b i(1)
          div_exp_exp [of x "s - 4" 4] e by simp
      moreover have "leaf s (Pte_dir es c) x = (if x div 2 ^ (s - 4) mod 16 = i then leaf (s - 4) (es ! i) x else None)"
        using i(4) [of "x div 2 ^ (s - 4) mod 16"] ok(6) by simp
      ultimately show ?thesis
        using Pte_dir by (simp add: tleaf_def pt'_def s_def)
    qed
    ultimately show ?thesis using sh by (auto simp: pt'_def)
  qed
qed

definition shrunk :: "ucs_pgtable \<Rightarrow> ucs_pgtable \<Rightarrow> bool" where
  "shrunk pt pt' \<longleftrightarrow> tbl_ok pt' \<and> tbl_norm pt' \<and> tleaf pt' = tleaf pt \<and> pt_num_regions pt' = pt_num_regions pt"

lemma shrink_all_ok:
  assumes "tbl_ok pt"
  shows "\<exists>pt'. shrink_all pt = Some pt' \<and> shrunk pt pt'"
  using assms
proof (induction pt rule: shrink_all.induct)
  case (1 pt)
  obtain again pt1 where pt1: "ucs_pgtable_shrink pt = Some (again, pt1)" "tbl_ok pt1" "tleaf pt1 = tleaf pt"
      "pt_num_regions pt1 = pt_num_regions pt" "\<not> again \<Longrightarrow> tbl_norm pt1"
    using shrink_ok [OF 1(2)] by blast
  show ?case
  proof (cases again)
    case True
    obtain pt' where "shrink_all pt1 = Some pt'" "shrunk pt1 pt'" using 1(1) [OF pt1(1) refl True pt1(2)] by blast
    then show ?thesis using True pt1 shrink_all.simps [of pt] by (auto simp: shrunk_def)
  next
    case False
    then show ?thesis using pt1 shrink_all.simps [of pt] by (auto simp: shrunk_def)
  qed
qed

section \<open>Inserting and removing a page\<close>

lemma page_has_div:
  assumes "2 ^ n dvd p"
  shows "page_has x (p, n) \<longleftrightarrow> x div 2 ^ n = p div 2 ^ n"
proof -
  obtain q where q: "p = q * 2 ^ n" using assms by (metis dvdE mult.commute)
  have "x div 2 ^ n = q \<longleftrightarrow> q * 2 ^ n \<le> x \<and> x < q * 2 ^ n + 2 ^ n"
    using div_nat_eqI [of "2 ^ n" q x] div_times_less_eq_dividend [of x "2 ^ n"] dividend_less_div_times [of "2 ^ n" x]
    by (auto simp: mult.commute)
  then show ?thesis using q by (simp add: page_has_def)
qed

text \<open>In an entry that covers the page, the page is the block of its address.\<close>

lemma page_has_block:
  assumes "2 ^ n dvd p" "n \<le> s"
  shows "page_has x (p, n) \<longleftrightarrow> x div 2 ^ s = p div 2 ^ s \<and> same_block n s x p"
  using page_has_div [OF assms(1), of x] eq_split_exp [of x n p "s - n"] assms(2) by (simp add: same_block_def)

lemma page_has_start [simp]: "page_has p (p, n)"
  by (simp add: page_has_def)

lemma check_page_ok:
  assumes "page_ok (unat a, n)"
  shows "ucs_pgtable_check_page a n = Some ()"
proof -
  have n: "4 \<le> n" "n \<le> 60" "4 dvd n" "2 ^ n dvd unat a" using assms by (auto simp: page_ok_def)
  have "(push_bit n 1 - 1 :: u64) = mask n" by (simp add: mask_eq_exp_minus_1 push_bit_of_1)
  moreover have "a AND mask n = 0"
    using n(4) unfolding pow2_dvd_low_bits by (auto simp: bit_eq_iff bit_and_iff bit_mask_iff)
  moreover have "(n - 4) mod 4 = 0" using n(1,3) by (auto elim!: dvdE)
  ultimately show ?thesis using n(2) by (simp add: ucs_pgtable_check_page_def pgt_consts)
qed

text \<open>The page is free in the table.\<close>

definition page_free :: "ucs_pgtable \<Rightarrow> nat \<times> nat \<Rightarrow> bool" where
  "page_free pt pg \<longleftrightarrow> (\<forall>x. page_has x pg \<longrightarrow> tleaf pt x = None)"

definition with_page :: "nat \<times> nat \<Rightarrow> (nat \<times> nat) option \<Rightarrow> (nat \<Rightarrow> (nat \<times> nat) option) \<Rightarrow> nat \<Rightarrow> (nat \<times> nat) option" where
  "with_page pg v m x = (if page_has x pg then v else m x)"

text \<open>A table that covers the address, and the entry at its root.\<close>

lemma page_free_root:
  assumes "tbl_ok pt" "page_ok (unat a, n)" "n \<le> pt_shift pt" "a AND pt_mask pt = pt_base pt"
  shows "page_free pt (unat a, n) \<longleftrightarrow> block_free n (pt_shift pt) (pt_root pt) (unat a)"
proof -
  define s where "s = pt_shift pt"
  have cov: "unat a div 2 ^ s = unat (pt_base pt) div 2 ^ s"
    using covered_iff [OF assms(1)] assms(4) by (simp add: s_def)
  have ph: "page_has x (unat a, n) \<longleftrightarrow> x div 2 ^ s = unat a div 2 ^ s \<and> same_block n s x (unat a)" for x
    using page_has_block assms(2,3) by (simp add: page_ok_def s_def)
  show ?thesis
  proof
    assume f: "page_free pt (unat a, n)"
    show "block_free n (pt_shift pt) (pt_root pt) (unat a)"
      unfolding block_free_def s_def [symmetric]
    proof (intro allI impI)
      fix x assume x: "same_block n s x (unat a)"
      define y where "y = unat a div 2 ^ s * 2 ^ s + x mod 2 ^ s"
      have y: "y mod 2 ^ s = x mod 2 ^ s" "y div 2 ^ s = unat a div 2 ^ s" by (simp_all add: y_def)
      have "page_has y (unat a, n)"
        using ph y x same_block_mod [of n s y x] assms(3) by (simp add: s_def)
      then have "leaf s (pt_root pt) y = None" using f cov y(2) by (auto simp: page_free_def tleaf_def s_def)
      then show "leaf s (pt_root pt) x = None"
        using leaf_mod [of s "pt_root pt" y x] y(1) assms(1) by (simp add: tbl_ok_def s_def)
    qed
  next
    assume "block_free n (pt_shift pt) (pt_root pt) (unat a)"
    then show "page_free pt (unat a, n)" using ph by (auto simp: page_free_def block_free_def tleaf_def s_def)
  qed
qed

lemma tleaf_with_page:
  assumes "tbl_ok pt" "page_ok (unat a, n)" "n \<le> pt_shift pt" "a AND pt_mask pt = pt_base pt"
    and "\<And>x. leaf (pt_shift pt) root x = (if same_block n (pt_shift pt) x (unat a) then v else leaf (pt_shift pt) (pt_root pt) x)"
  shows "tleaf (pt\<lparr>pt_root := root\<rparr>) = with_page (unat a, n) v (tleaf pt)"
proof
  fix x
  have "unat a div 2 ^ pt_shift pt = unat (pt_base pt) div 2 ^ pt_shift pt"
    using covered_iff [OF assms(1)] assms(4) by simp
  then show "tleaf (pt\<lparr>pt_root := root\<rparr>) x = with_page (unat a, n) v (tleaf pt) x"
    using page_has_block [of n "unat a" "pt_shift pt" x] assms(2,3) assms(5) [of x]
    by (auto simp: tleaf_def with_page_def page_ok_def)
qed

text \<open>The root that the insertion of a page starts from, and the rest of the insertion.\<close>

definition insert_at :: "u64 \<Rightarrow> nat \<Rightarrow> nat \<Rightarrow> ucs_pgtable \<Rightarrow> (ucs_status \<times> ucs_pgtable) option" where
  "insert_at a n r pt2 = do {
     (status, root, added) \<leftarrow> insert_descend a n r (pt_shift pt2) (pt_root pt2);
     if status = UCS_OK then Some (UCS_OK, pt2\<lparr>pt_root := root\<rparr>)
     else do { pt4 \<leftarrow> shrink_all (pt2\<lparr>pt_root := root\<rparr>); Some (UCS_ERR_ALREADY_EXISTS, pt4) }
   }"

lemma insert_root:
  assumes "tbl_ok pt" "page_ok (unat a, n)"
  obtains pt2 where "tbl_ok pt2" "tleaf pt2 = tleaf pt" "n \<le> pt_shift pt2" "a AND pt_mask pt2 = pt_base pt2"
    "pt_num_regions pt2 = pt_num_regions pt"
    "\<And>r. ucs_pgtable_insert_page pt a n r = insert_at a n r pt2"
proof -
  have n: "n \<le> 60" "4 dvd n" using assms(2) by (auto simp: page_ok_def)
  obtain pt1 where pt1: "expand_order pt n = Some pt1" "grown pt pt1" "n \<le> pt_shift pt1"
    using expand_order_ok [OF assms(1) n] by blast
  then have ok1: "tbl_ok pt1" by (simp add: grown_def)
  show ?thesis
  proof (cases "pt_root pt1 = Pte_none")
    case True
    define pt2 where "pt2 = pt1\<lparr>pt_base := a AND pt_mask pt1\<rparr>"
    have "2 ^ pt_shift pt1 dvd unat (a AND pt_mask pt1)"
      using ok1 unat_and_high [of a "pt_shift pt1"] by (simp add: tbl_ok_def)
    then have "tbl_ok pt2" using ok1 by (simp add: tbl_ok_def pt2_def)
    moreover have "tleaf pt2 = tleaf pt"
      using pt1(2) True by (auto simp: grown_def tleaf_def pt2_def fun_eq_iff)
    moreover have "a AND pt_mask pt2 = pt_base pt2" by (simp add: pt2_def)
    moreover have "ucs_pgtable_insert_page pt a n r = insert_at a n r pt2" for r
      using pt1 True check_page_ok [OF assms(2)]
      by (simp add: ucs_pgtable_insert_page_def insert_at_def pt2_def Let_def)
    moreover have "n \<le> pt_shift pt2" "pt_num_regions pt2 = pt_num_regions pt"
      using pt1 by (simp_all add: pt2_def grown_def)
    ultimately show ?thesis using that [of pt2] by blast
  next
    case False
    then have "ucs_pgt_entry_present (pt_root pt1)" by (cases "pt_root pt1") auto
    moreover obtain pt2 where pt2: "expand_address pt1 a = Some pt2" "grown pt1 pt2" "a AND pt_mask pt2 = pt_base pt2"
      using expand_address_ok [OF ok1] by blast
    ultimately have "ucs_pgtable_insert_page pt a n r = insert_at a n r pt2" for r
      using pt1 check_page_ok [OF assms(2)] by (simp add: ucs_pgtable_insert_page_def insert_at_def Let_def)
    then show ?thesis using that [of pt2] pt1 pt2 by (simp add: grown_def)
  qed
qed

lemma insert_page_free:
  assumes "tbl_ok pt" "page_ok (unat a, n)" "page_free pt (unat a, n)"
  shows "\<exists>pt'. ucs_pgtable_insert_page pt a n r = Some (UCS_OK, pt') \<and> tbl_ok pt' \<and> tbl_norm pt' \<and>
    tleaf pt' = with_page (unat a, n) (Some (n, r)) (tleaf pt) \<and> pt_num_regions pt' = pt_num_regions pt"
proof -
  obtain pt2 where pt2: "tbl_ok pt2" "tleaf pt2 = tleaf pt" "n \<le> pt_shift pt2" "a AND pt_mask pt2 = pt_base pt2"
      "pt_num_regions pt2 = pt_num_regions pt"
    and ins: "\<And>r. ucs_pgtable_insert_page pt a n r = insert_at a n r pt2"
    using insert_root [OF assms(1,2)] by metis
  have "page_free pt2 (unat a, n)" using assms(3) pt2(2) by (simp add: page_free_def)
  then have "block_free n (pt_shift pt2) (pt_root pt2) (unat a)"
    using page_free_root [OF pt2(1) assms(2) pt2(3,4)] by blast
  then obtain root where root: "insert_descend a n r (pt_shift pt2) (pt_root pt2) =
      Some (UCS_OK, root, \<not> ucs_pgt_entry_present (pt_root pt2))"
      "inserted n (unat a) r (pt_shift pt2) (pt_root pt2) root"
    using insert_free [of "pt_shift pt2" "pt_root pt2" n a r] pt2(1,3) assms(2) by (auto simp: tbl_ok_def page_ok_def)
  then have "tleaf (pt2\<lparr>pt_root := root\<rparr>) = with_page (unat a, n) (Some (n, r)) (tleaf pt)"
    using tleaf_with_page [OF pt2(1) assms(2) pt2(3,4)] pt2(2) by (simp add: inserted_def)
  moreover have "tbl_ok (pt2\<lparr>pt_root := root\<rparr>)" "tbl_norm (pt2\<lparr>pt_root := root\<rparr>)"
    using pt2(1) root(2) by (auto simp: tbl_ok_def inserted_def tbl_norm_def)
  ultimately show ?thesis using ins [of r] root(1) pt2(5) by (simp add: insert_at_def)
qed

lemma insert_page_taken:
  assumes "tbl_ok pt" "page_ok (unat a, n)" "\<not> page_free pt (unat a, n)"
  shows "\<exists>pt'. ucs_pgtable_insert_page pt a n r = Some (UCS_ERR_ALREADY_EXISTS, pt') \<and> shrunk pt pt'"
proof -
  obtain pt2 where pt2: "tbl_ok pt2" "tleaf pt2 = tleaf pt" "n \<le> pt_shift pt2" "a AND pt_mask pt2 = pt_base pt2"
      "pt_num_regions pt2 = pt_num_regions pt"
    and ins: "\<And>r. ucs_pgtable_insert_page pt a n r = insert_at a n r pt2"
    using insert_root [OF assms(1,2)] by metis
  have "\<not> page_free pt2 (unat a, n)" using assms(3) pt2(2) by (simp add: page_free_def)
  then have "\<not> block_free n (pt_shift pt2) (pt_root pt2) (unat a)"
    using page_free_root [OF pt2(1) assms(2) pt2(3,4)] by blast
  then have "insert_descend a n r (pt_shift pt2) (pt_root pt2) = Some (UCS_ERR_ALREADY_EXISTS, pt_root pt2, False)"
    using insert_taken [of "pt_shift pt2" "pt_root pt2" n a r] pt2(1,3) assms(2) by (auto simp: tbl_ok_def page_ok_def)
  moreover obtain pt' where "shrink_all pt2 = Some pt'" "shrunk pt2 pt'" using shrink_all_ok [OF pt2(1)] by blast
  moreover have "pt2\<lparr>pt_root := pt_root pt2\<rparr> = pt2" by simp
  ultimately show ?thesis using ins [of r] pt2 by (simp add: shrunk_def insert_at_def)
qed

lemma remove_page_ok:
  assumes "tbl_ok pt" "page_ok (unat a, n)" "tleaf pt (unat a) = Some (n, r)"
  shows "\<exists>pt'. ucs_pgtable_remove_page pt a n r = Some (UCS_OK, pt') \<and> tbl_ok pt' \<and> tbl_norm pt' \<and>
    tleaf pt' = with_page (unat a, n) None (tleaf pt) \<and> pt_num_regions pt' = pt_num_regions pt"
proof -
  have cov: "a AND pt_mask pt = pt_base pt" and lf: "leaf (pt_shift pt) (pt_root pt) (unat a) = Some (n, r)"
    using assms(3) covered_iff [OF assms(1)] by (auto simp: tleaf_def split: if_splits)
  have ok: "wf_pte (pt_shift pt) (pt_root pt)" "4 dvd pt_shift pt" "4 \<le> pt_shift pt"
    using assms(1) by (auto simp: tbl_ok_def)
  obtain root where root: "ucs_pgtable_remove_page_recurs a n (pt_root pt) (pt_shift pt) r =
      Some (UCS_OK, root, \<not> ucs_pgt_entry_present root)" "removed n (unat a) (pt_shift pt) (pt_root pt) root"
    using remove_present [OF ok lf] by blast
  have "tbl_ok (pt\<lparr>pt_root := root\<rparr>)" using assms(1) root(2) by (simp add: tbl_ok_def removed_def)
  then obtain pt' where "shrink_all (pt\<lparr>pt_root := root\<rparr>) = Some pt'" "shrunk (pt\<lparr>pt_root := root\<rparr>) pt'"
    using shrink_all_ok by blast
  moreover have "tleaf (pt\<lparr>pt_root := root\<rparr>) = with_page (unat a, n) None (tleaf pt)"
    using tleaf_with_page [OF assms(1,2) _ cov] leaf_order [OF ok lf] root(2) by (simp add: removed_def)
  ultimately show ?thesis
    using root(1) cov check_page_ok [OF assms(2)] by (simp add: ucs_pgtable_remove_page_def shrunk_def Let_def)
qed

lemma remove_page_absent:
  assumes "tbl_ok pt" "page_ok (unat a, n)"
    and "tleaf pt (unat a) = None \<or> (\<exists>r'. tleaf pt (unat a) = Some (n, r') \<and> r' \<noteq> r)"
  shows "ucs_pgtable_remove_page pt a n r = Some (UCS_ERR_NO_ELEM, pt)"
proof (cases "a AND pt_mask pt = pt_base pt")
  case True
  then have "leaf (pt_shift pt) (pt_root pt) (unat a) = tleaf pt (unat a)"
    using covered_iff [OF assms(1), of a] by (simp add: tleaf_def)
  then have "ucs_pgtable_remove_page_recurs a n (pt_root pt) (pt_shift pt) r = Some (UCS_ERR_NO_ELEM, pt_root pt, False)"
    using remove_absent [of "pt_shift pt" "pt_root pt" a n r] assms(1,3) by (simp add: tbl_ok_def)
  then show ?thesis using True check_page_ok [OF assms(2)] by (simp add: ucs_pgtable_remove_page_def Let_def)
qed (simp add: ucs_pgtable_remove_page_def check_page_ok [OF assms(2)])

end
