(* ===== verification/Pgt_Region.thy ===== *)
theory Pgt_Region
  imports Pgt_Table
begin

text \<open>
  The page table as a set of disjoint regions.  \<open>pt_rep\<close> says which regions a table holds;
  inserting a region maps exactly its addresses or leaves the map as it was, removing takes them out, and
  looking up finds the region of an address.
\<close>

section \<open>Runs of pages\<close>

fun paint :: "(nat \<times> nat) list \<Rightarrow> nat \<Rightarrow> (nat \<Rightarrow> (nat \<times> nat) option) \<Rightarrow> nat \<Rightarrow> (nat \<times> nat) option" where
  "paint [] r m = m"
| "paint (pg # ps) r m = paint ps r (with_page pg (Some (snd pg, r)) m)"

fun erase :: "(nat \<times> nat) list \<Rightarrow> (nat \<Rightarrow> (nat \<times> nat) option) \<Rightarrow> nat \<Rightarrow> (nat \<times> nat) option" where
  "erase [] m = m"
| "erase (pg # ps) m = erase ps (with_page pg None m)"

lemma erase_eq: "erase ps m x = (if \<exists>pg\<in>set ps. page_has x pg then None else m x)"
proof (induction ps arbitrary: m)
  case (Cons pg ps)
  show ?case unfolding erase.simps Cons.IH with_page_def by simp
qed simp

lemma paint_outside: "\<forall>pg\<in>set ps. \<not> page_has x pg \<Longrightarrow> paint ps r m x = m x"
proof (induction ps arbitrary: m)
  case (Cons pg ps)
  have "paint ps r (with_page pg (Some (snd pg, r)) m) x = with_page pg (Some (snd pg, r)) m x"
    using Cons.prems by (intro Cons.IH) simp
  moreover have "\<not> page_has x pg" using Cons.prems by simp
  ultimately show ?case by (simp only: paint.simps with_page_def if_False)
qed simp

lemma paint_inside:
  assumes "pg \<in> set ps" "page_has x pg" "\<And>pg'. pg' \<in> set ps \<Longrightarrow> page_has x pg' \<Longrightarrow> pg' = pg"
  shows "paint ps r m x = Some (snd pg, r)"
  using assms
proof (induction ps arbitrary: m)
  case (Cons q ps)
  show ?case
  proof (cases "pg \<in> set ps")
    case True
    show ?thesis unfolding paint.simps
      by (rule Cons.IH [OF True Cons.prems(2)]) (rule Cons.prems(3), simp_all)
  next
    case False
    then have q: "pg = q" using Cons.prems(1) by simp
    then have "\<forall>pg'\<in>set ps. \<not> page_has x pg'" using Cons.prems(3) False by (metis list.set_intros(2))
    then show ?thesis using paint_outside [of ps x r] q Cons.prems(2) by (simp add: with_page_def)
  qed
qed simp

lemma paint_erase:
  assumes "\<And>pg x. pg \<in> set ps \<Longrightarrow> page_has x pg \<Longrightarrow> m x = None"
  shows "erase ps (paint ps r m) = m"
proof
  fix x
  show "erase ps (paint ps r m) x = m x"
    using assms paint_outside [of ps x r m] by (auto simp: erase_eq)
qed

text \<open>Inserting the pages of a range that is free.\<close>

definition same_num :: "ucs_pgtable \<Rightarrow> ucs_pgtable \<Rightarrow> bool" where
  "same_num pt pt' \<longleftrightarrow> tbl_ok pt' \<and> tbl_norm pt' \<and> pt_num_regions pt' = pt_num_regions pt"

lemma page_ok_of: "16 dvd unat (a :: u64) \<Longrightarrow> pg_max (unat a) e n \<Longrightarrow> n \<le> 60 \<Longrightarrow> page_ok (unat a, n)"
  using addr_less [of a] by (simp add: page_ok_def pg_max_def)

lemma page_ok_16: "page_ok pg \<Longrightarrow> 16 dvd fst pg"
  using le_imp_power_dvd [of 4 "snd pg" "2::nat"] by (auto simp: page_ok_def intro: dvd_trans)

lemma advance_ok: "n \<le> 60 \<Longrightarrow> ucs_pgt_address_advance a n = Some (a + push_bit n 1)"
  by (simp add: ucs_pgt_address_advance_def)

lemma insert_pages_free:
  assumes "16 dvd unat a" "16 dvd unat e" "tbl_ok pt" "tbl_norm pt"
    and "\<And>x. unat a \<le> x \<Longrightarrow> x < unat e \<Longrightarrow> tleaf pt x = None"
  shows "\<exists>b pt'. insert_pages pt r a e = Some (UCS_OK, b, pt') \<and> same_num pt pt' \<and>
    tleaf pt' = paint (pgt_pages a e) r (tleaf pt)"
  using assms
proof (induction arbitrary: pt rule: pgt_pages_induct)
  case (Done a)
  then show ?case using insert_pages.simps [of pt r a e] by (auto simp: same_num_def)
next
  case (Page a n)
  have ok: "page_ok (unat a, n)" using page_ok_of Page.hyps by blast
  have "page_free pt (unat a, n)"
    using Page.prems(3) Page.hyps(8) by (simp add: page_free_def page_has_def)
  then obtain pt1 where pt1: "ucs_pgtable_insert_page pt a n r = Some (UCS_OK, pt1)" "tbl_ok pt1" "tbl_norm pt1"
      "tleaf pt1 = with_page (unat a, n) (Some (n, r)) (tleaf pt)" "pt_num_regions pt1 = pt_num_regions pt"
    using insert_page_free [OF Page.prems(1) ok] by blast
  have "tleaf pt1 x = None" if "unat (a + push_bit n 1) \<le> x" "x < unat e" for x
    using that Page.prems(3) [of x] Page.hyps(7) pt1(4) by (simp add: with_page_def page_has_def)
  then obtain b pt' where pt': "insert_pages pt1 r (a + push_bit n 1) e = Some (UCS_OK, b, pt')" "same_num pt1 pt'"
      "tleaf pt' = paint (pgt_pages (a + push_bit n 1) e) r (tleaf pt1)"
    using Page.IH [OF pt1(2,3)] by blast
  then show ?case
    using insert_pages.simps [of pt r a e] Page.hyps(2,3,6) advance_ok [OF Page.hyps(5)] pt1
    by (auto simp: same_num_def)
qed

text \<open>Otherwise the insertion stops at the first page that is taken.\<close>

lemma insert_pages_taken:
  assumes "16 dvd unat a" "16 dvd unat e" "tbl_ok pt" "tbl_norm pt"
    and "unat a \<le> x" "x < unat e" "tleaf pt x \<noteq> None"
  shows "\<exists>ps pg qs b pt'. pgt_pages a e = ps @ pg # qs \<and> unat b = fst pg \<and>
    insert_pages pt r a e = Some (UCS_ERR_ALREADY_EXISTS, b, pt') \<and> same_num pt pt' \<and>
    tleaf pt' = paint ps r (tleaf pt) \<and> (\<forall>q\<in>set ps. page_free pt q)"
  using assms
proof (induction arbitrary: pt rule: pgt_pages_induct)
  case (Done a)
  then show ?case by (simp add: word_less_nat_alt)
next
  case (Page a n)
  have ok: "page_ok (unat a, n)" using page_ok_of Page.hyps by blast
  show ?case
  proof (cases "page_free pt (unat a, n)")
    case False
    then obtain pt1 where pt1: "ucs_pgtable_insert_page pt a n r = Some (UCS_ERR_ALREADY_EXISTS, pt1)" "shrunk pt pt1"
      using insert_page_taken [OF Page.prems(1) ok] by blast
    then have "insert_pages pt r a e = Some (UCS_ERR_ALREADY_EXISTS, a, pt1)"
      using insert_pages.simps [of pt r a e] Page.hyps(2,3) by simp
    moreover have "pgt_pages a e = [] @ (unat a, n) # pgt_pages (a + push_bit n 1) e"
      using Page.hyps(6) by simp
    moreover have "same_num pt pt1" "tleaf pt1 = paint [] r (tleaf pt)"
      using pt1(2) by (simp_all add: shrunk_def same_num_def)
    ultimately show ?thesis by (metis empty_iff list.set(1) fst_conv)
  next
    case True
    then obtain pt1 where pt1: "ucs_pgtable_insert_page pt a n r = Some (UCS_OK, pt1)" "tbl_ok pt1" "tbl_norm pt1"
        "tleaf pt1 = with_page (unat a, n) (Some (n, r)) (tleaf pt)" "pt_num_regions pt1 = pt_num_regions pt"
      using insert_page_free [OF Page.prems(1) ok] by blast
    have out: "\<not> page_has x (unat a, n)" using True Page.prems(5) by (auto simp: page_free_def)
    then have x: "unat (a + push_bit n 1) \<le> x" "tleaf pt1 x \<noteq> None"
      using Page.prems(3,5) Page.hyps(7) pt1(4) by (auto simp: with_page_def page_has_def)
    obtain ps pg qs b pt' where r: "pgt_pages (a + push_bit n 1) e = ps @ pg # qs" "unat b = fst pg"
        "insert_pages pt1 r (a + push_bit n 1) e = Some (UCS_ERR_ALREADY_EXISTS, b, pt')" "same_num pt1 pt'"
        "tleaf pt' = paint ps r (tleaf pt1)" "\<forall>q\<in>set ps. page_free pt1 q"
      using Page.IH [OF pt1(2,3) x(1) Page.prems(4) x(2)] by blast
    have "page_free pt q" if "q \<in> set ps" for q
      using r(6) that True pt1(4) unfolding page_free_def with_page_def by (metis option.distinct(1))
    then have "\<forall>q\<in>set ((unat a, n) # ps). page_free pt q" using True by simp
    moreover have "pgt_pages a e = ((unat a, n) # ps) @ pg # qs" using Page.hyps(6) r(1) by simp
    moreover have "insert_pages pt r a e = Some (UCS_ERR_ALREADY_EXISTS, b, pt')"
      using insert_pages.simps [of pt r a e] Page.hyps(2,3) advance_ok [OF Page.hyps(5)] pt1(1) r(3) by simp
    moreover have "same_num pt pt'" using r(4) pt1(5) by (simp add: same_num_def)
    moreover have "tleaf pt' = paint ((unat a, n) # ps) r (tleaf pt)" using r(5) pt1(4) by simp
    ultimately show ?thesis using r(2) by blast
  qed
qed

text \<open>Removing the pages of a range, all of which are in the table.\<close>

lemma remove_pages_ok:
  assumes "16 dvd unat a" "16 dvd unat e" "tbl_ok pt" "tbl_norm pt"
    and "\<And>pg. pg \<in> set (pgt_pages a e) \<Longrightarrow> tleaf pt (fst pg) = Some (snd pg, r)"
  shows "\<exists>pt'. remove_pages pt r st a e = Some (UCS_OK, pt') \<and> revert_pages pt r a e = Some pt' \<and>
    same_num pt pt' \<and> tleaf pt' = erase (pgt_pages a e) (tleaf pt)"
  using assms
proof (induction arbitrary: pt rule: pgt_pages_induct)
  case (Done a)
  then show ?case using remove_pages.simps [of pt r st a e] revert_pages.simps [of pt r a e]
    by (auto simp: same_num_def)
next
  case (Page a n)
  have ok: "page_ok (unat a, n)" using page_ok_of Page.hyps by blast
  have "tleaf pt (unat a) = Some (n, r)" using Page.prems(3) [of "(unat a, n)"] Page.hyps(6) by simp
  then obtain pt1 where pt1: "ucs_pgtable_remove_page pt a n r = Some (UCS_OK, pt1)" "tbl_ok pt1" "tbl_norm pt1"
      "tleaf pt1 = with_page (unat a, n) None (tleaf pt)" "pt_num_regions pt1 = pt_num_regions pt"
    using remove_page_ok [OF Page.prems(1) ok] by blast
  have al: "16 dvd unat (a + push_bit n 1)"
    using pgt_pages_step [OF Page.hyps(1) assms(2) Page.hyps(2)] Page.hyps(3) by (metis option.inject)
  have "tleaf pt1 (fst pg) = Some (snd pg, r)" if pg: "pg \<in> set (pgt_pages (a + push_bit n 1) e)" for pg
  proof -
    have "unat a + 2 ^ n \<le> fst pg" using pgt_pages_in [OF al assms(2) pg] Page.hyps(7) by simp
    then show ?thesis using Page.prems(3) [of pg] Page.hyps(6) pg pt1(4) by (simp add: with_page_def page_has_def)
  qed
  then obtain pt' where "remove_pages pt1 r st (a + push_bit n 1) e = Some (UCS_OK, pt')"
      "revert_pages pt1 r (a + push_bit n 1) e = Some pt'" "same_num pt1 pt'"
      "tleaf pt' = erase (pgt_pages (a + push_bit n 1) e) (tleaf pt1)"
    using Page.IH [OF pt1(2,3)] by blast
  then show ?case
    using remove_pages.simps [of pt r st a e] revert_pages.simps [of pt r a e] Page.hyps(2,3,6)
      advance_ok [OF Page.hyps(5)] pt1 by (auto simp: same_num_def)
qed

section \<open>The regions of a table\<close>

definition region_ok :: "region_mem \<Rightarrow> nat \<Rightarrow> bool" where
  "region_ok rm r \<longleftrightarrow> ucs_pgt_is_addr_aligned (rg_start (rm r)) \<and> ucs_pgt_is_addr_aligned (rg_end (rm r)) \<and>
     rg_start (rm r) < rg_end (rm r)"

definition region_has :: "region_mem \<Rightarrow> nat \<Rightarrow> u64 \<Rightarrow> bool" where
  "region_has rm r a \<longleftrightarrow> rg_start (rm r) \<le> a \<and> a < rg_end (rm r)"

definition pages_of :: "region_mem \<Rightarrow> nat \<Rightarrow> (nat \<times> nat) list" where
  "pages_of rm r = pgt_pages (rg_start (rm r)) (rg_end (rm r))"

definition max_regions :: nat where
  "max_regions = 2 ^ 32"

definition pt_rep :: "region_mem \<Rightarrow> ucs_pgtable \<Rightarrow> nat set \<Rightarrow> bool" where
  "pt_rep rm pt R \<longleftrightarrow> tbl_ok pt \<and> tbl_norm pt \<and> finite R \<and> card R < max_regions \<and>
     pt_num_regions pt = of_nat (card R) \<and> (\<forall>r\<in>R. region_ok rm r) \<and>
     (\<forall>x n r. tleaf pt x = Some (n, r) \<longleftrightarrow> r \<in> R \<and> (\<exists>pg\<in>set (pages_of rm r). page_has x pg \<and> snd pg = n))"

definition overlap :: "region_mem \<Rightarrow> nat \<Rightarrow> nat \<Rightarrow> bool" where
  "overlap rm r r' \<longleftrightarrow> (\<exists>a. region_has rm r a \<and> region_has rm r' a)"

lemma rep_tleaf:
  "pt_rep rm pt R \<Longrightarrow> tleaf pt x = Some (n, r) \<longleftrightarrow> r \<in> R \<and> (\<exists>pg\<in>set (pages_of rm r). page_has x pg \<and> snd pg = n)"
  by (simp add: pt_rep_def)

lemma region_dvd: "region_ok rm r \<Longrightarrow> 16 dvd unat (rg_start (rm r)) \<and> 16 dvd unat (rg_end (rm r))"
  by (simp add: region_ok_def aligned_dvd)

lemma pages_cover:
  assumes "region_ok rm r"
  shows "(\<exists>pg\<in>set (pages_of rm r). page_has x pg) \<longleftrightarrow> unat (rg_start (rm r)) \<le> x \<and> x < unat (rg_end (rm r))"
  unfolding pages_of_def using pgt_pages_cover region_dvd [OF assms] by blast

lemma pages_unique:
  assumes "region_ok rm r" "pg \<in> set (pages_of rm r)" "pg' \<in> set (pages_of rm r)" "page_has x pg" "page_has x pg'"
  shows "pg = pg'"
  using assms pgt_pages_disjoint region_dvd [OF assms(1)] unfolding pages_of_def by blast

lemma region_has_nat:
  "region_has rm r a \<longleftrightarrow> unat (rg_start (rm r)) \<le> unat a \<and> unat a < unat (rg_end (rm r))"
  by (simp add: region_has_def word_le_nat_alt word_less_nat_alt)

text \<open>Which addresses are mapped.\<close>

lemma tleaf_region:
  assumes "pt_rep rm pt R"
  shows "(\<exists>n. tleaf pt x = Some (n, r)) \<longleftrightarrow> r \<in> R \<and> unat (rg_start (rm r)) \<le> x \<and> x < unat (rg_end (rm r))"
proof -
  have "(\<exists>n. tleaf pt x = Some (n, r)) \<longleftrightarrow> r \<in> R \<and> (\<exists>pg\<in>set (pages_of rm r). page_has x pg)"
    using assms unfolding pt_rep_def by blast
  also have "\<dots> \<longleftrightarrow> r \<in> R \<and> unat (rg_start (rm r)) \<le> x \<and> x < unat (rg_end (rm r))"
    using assms pages_cover [of rm r x] unfolding pt_rep_def by blast
  finally show ?thesis .
qed

lemma tleaf_free:
  assumes "pt_rep rm pt R" "\<And>r'. r' \<in> R \<Longrightarrow> \<not> overlap rm r r'"
    and "unat (rg_start (rm r)) \<le> x" "x < unat (rg_end (rm r))"
  shows "tleaf pt x = None"
proof (rule ccontr)
  assume "tleaf pt x \<noteq> None"
  then obtain n r' where "tleaf pt x = Some (n, r')" by auto
  then have r': "r' \<in> R" "unat (rg_start (rm r')) \<le> x" "x < unat (rg_end (rm r'))"
    using tleaf_region [OF assms(1), of x r'] by auto
  have "x < 2 ^ 64" using assms(4) addr_less [of "rg_end (rm r)"] by linarith
  then have "unat (of_nat x :: u64) = x" by (rule unat_of_nat_addr)
  then have "overlap rm r r'" using r' assms(3,4) unfolding overlap_def region_has_nat by (intro exI [of _ "of_nat x"]) simp
  then show False using assms(2) r'(1) by blast
qed

section \<open>The operations\<close>

lemma rep_init: "pt_rep rm (snd (ucs_pgtable_init pt)) {}"
  by (auto simp: pt_rep_def ucs_pgtable_init_def tbl_ok_def tbl_norm_def ucs_pgtable_reset_def pgt_consts tleaf_def max_regions_def)

lemma insert_unfold:
  assumes "region_ok rm r"
  shows "ucs_pgtable_insert rm pt r = do {
     (status, address, pt1) \<leftarrow> insert_pages pt r (rg_start (rm r)) (rg_end (rm r));
     if status = UCS_OK then Some (UCS_OK, pt1\<lparr>pt_num_regions := pt_num_regions pt1 + 1\<rparr>)
     else do { pt2 \<leftarrow> revert_pages pt1 r (rg_start (rm r)) address; Some (status, pt2) } }"
  using assms by (simp add: ucs_pgtable_insert_def region_ok_def Let_def flip: not_le)

lemma paint_rep:
  assumes "pt_rep rm pt R" "region_ok rm r" "\<And>r'. r' \<in> R \<Longrightarrow> \<not> overlap rm r r'"
  shows "paint (pages_of rm r) r (tleaf pt) x = Some (n, q) \<longleftrightarrow>
    q \<in> insert r R \<and> (\<exists>pg\<in>set (pages_of rm q). page_has x pg \<and> snd pg = n)"
proof (cases "\<exists>pg\<in>set (pages_of rm r). page_has x pg")
  case True
  then obtain pg where pg: "pg \<in> set (pages_of rm r)" "page_has x pg" by blast
  then have p: "paint (pages_of rm r) r (tleaf pt) x = Some (snd pg, r)"
    using paint_inside [OF pg] pages_unique [OF assms(2)] by blast
  have "unat (rg_start (rm r)) \<le> x" "x < unat (rg_end (rm r))" using True pages_cover [OF assms(2)] by blast+
  then have "tleaf pt x = None" using tleaf_free [OF assms(1,3)] by blast
  then have only: "\<not> (\<exists>pg\<in>set (pages_of rm q). page_has x pg \<and> snd pg = n)" if "q \<in> R" for q n
    using that rep_tleaf [OF assms(1), of x n q] \<open>tleaf pt x = None\<close> by simp
  have "(\<exists>pg'\<in>set (pages_of rm r). page_has x pg' \<and> snd pg' = n) \<longleftrightarrow> snd pg = n"
    using pg pages_unique [OF assms(2)] by blast
  then show ?thesis using p only [of q n] by (cases "q = r") auto
next
  case False
  then have "paint (pages_of rm r) r (tleaf pt) x = tleaf pt x" using paint_outside by blast
  then show ?thesis using False rep_tleaf [OF assms(1), of x n q] by (cases "q = r") auto
qed

lemma insert_disjoint:
  assumes "pt_rep rm pt R" "region_ok rm r" "\<And>r'. r' \<in> R \<Longrightarrow> \<not> overlap rm r r'" "card R + 1 < max_regions"
  shows "\<exists>pt'. ucs_pgtable_insert rm pt r = Some (UCS_OK, pt') \<and> pt_rep rm pt' (insert r R)"
proof -
  have ok: "tbl_ok pt" "tbl_norm pt" using assms(1) by (auto simp: pt_rep_def)
  obtain b pt1 where pt1: "insert_pages pt r (rg_start (rm r)) (rg_end (rm r)) = Some (UCS_OK, b, pt1)" "same_num pt pt1"
      "tleaf pt1 = paint (pages_of rm r) r (tleaf pt)"
    using insert_pages_free [OF _ _ ok, of "rg_start (rm r)" "rg_end (rm r)" r] region_dvd [OF assms(2)]
      tleaf_free [OF assms(1,3)] unfolding pages_of_def by blast
  define pt' where "pt' = pt1\<lparr>pt_num_regions := pt_num_regions pt1 + 1\<rparr>"
  have same: "tleaf pt' = tleaf pt1" "tbl_ok pt' = tbl_ok pt1" "tbl_norm pt' = tbl_norm pt1"
    by (simp_all add: pt'_def fun_eq_iff tleaf_def tbl_ok_def tbl_norm_def)
  have "overlap rm r r" using assms(2) unfolding overlap_def region_has_def region_ok_def by auto
  then have "r \<notin> R" using assms(3) by blast
  then have c: "card (insert r R) = card R + 1" using assms(1) by (simp add: pt_rep_def)
  have "tleaf pt' x = Some (n, q) \<longleftrightarrow> q \<in> insert r R \<and> (\<exists>pg\<in>set (pages_of rm q). page_has x pg \<and> snd pg = n)" for x n q
    using paint_rep [OF assms(1,2,3)] pt1(3) same(1) by simp
  moreover have "pt_num_regions pt' = of_nat (card (insert r R))"
    using c pt1(2) assms(1) by (simp add: pt'_def same_num_def pt_rep_def add.commute)
  ultimately have "pt_rep rm pt' (insert r R)"
    using assms(1,2,4) c pt1(2) same(2,3) unfolding pt_rep_def same_num_def by simp
  then show ?thesis using insert_unfold [OF assms(2)] pt1(1) by (simp add: pt'_def)
qed

lemma rep_same:
  assumes "pt_rep rm pt R" "same_num pt pt'" "tleaf pt' = tleaf pt"
  shows "pt_rep rm pt' R"
  using assms by (simp add: pt_rep_def same_num_def)

lemma insert_overlapping:
  assumes "pt_rep rm pt R" "region_ok rm r" "r' \<in> R" "overlap rm r r'"
  shows "\<exists>pt'. ucs_pgtable_insert rm pt r = Some (UCS_ERR_ALREADY_EXISTS, pt') \<and> pt_rep rm pt' R"
proof -
  have ok: "tbl_ok pt" "tbl_norm pt" using assms(1) by (auto simp: pt_rep_def)
  note al = region_dvd [OF assms(2)]
  obtain a where a: "region_has rm r a" "region_has rm r' a" using assms(4) by (auto simp: overlap_def)
  then have "tleaf pt (unat a) \<noteq> None"
    using tleaf_region [OF assms(1), of "unat a" r'] assms(3) by (auto simp: region_has_nat)
  then obtain ps pg qs b pt1 where pg: "pages_of rm r = ps @ pg # qs" "unat b = fst pg"
      "insert_pages pt r (rg_start (rm r)) (rg_end (rm r)) = Some (UCS_ERR_ALREADY_EXISTS, b, pt1)"
      "same_num pt pt1" "tleaf pt1 = paint ps r (tleaf pt)" "\<forall>q\<in>set ps. page_free pt q"
    using insert_pages_taken [OF conjunct1 [OF al] conjunct2 [OF al] ok, of "unat a" r] a(1)
    unfolding pages_of_def region_has_nat by blast
  have ps: "pgt_pages (rg_start (rm r)) b = ps"
    using pgt_pages_prefix [OF conjunct1 [OF al] conjunct2 [OF al] pg(1) [unfolded pages_of_def] pg(2)] .
  have "pg \<in> set (pages_of rm r)" using pg(1) by simp
  then have "page_ok pg" using pgt_pages_in [OF conjunct1 [OF al] conjunct2 [OF al]] unfolding pages_of_def by blast
  then have b16: "16 dvd unat b" using page_ok_16 [of pg] pg(2) by simp
  have uniq: "q' = q" if "q \<in> set ps" "q' \<in> set ps" "page_has x q" "page_has x q'" for q q' x
    using that pages_unique [OF assms(2), of q' q x] pg(1) by simp
  have "tleaf pt1 (fst q) = Some (snd q, r)" if q: "q \<in> set ps" for q
  proof -
    have "page_has (fst q) q" by (simp add: page_has_def)
    then show ?thesis using paint_inside [OF q, of "fst q" r "tleaf pt"] uniq [OF q] pg(5) by simp
  qed
  then obtain pt' where pt': "revert_pages pt1 r (rg_start (rm r)) b = Some pt'" "same_num pt1 pt'"
      "tleaf pt' = erase ps (tleaf pt1)"
    using remove_pages_ok [OF conjunct1 [OF al] b16, of pt1 r] pg(4) ps unfolding same_num_def by blast
  have "tleaf pt' = tleaf pt"
    using pt'(3) pg(5,6) paint_erase [of ps "tleaf pt" r] by (simp add: page_free_def)
  moreover have "same_num pt pt'" using pt'(2) pg(4) by (simp add: same_num_def)
  ultimately have "pt_rep rm pt' R" using rep_same [OF assms(1)] by blast
  then show ?thesis using insert_unfold [OF assms(2)] pg(3) pt'(1) by simp
qed

lemma insert_invalid: "\<not> region_ok rm r \<Longrightarrow> ucs_pgtable_insert rm pt r = Some (UCS_ERR_INVALID_PARAM, pt)"
  by (auto simp: ucs_pgtable_insert_def region_ok_def Let_def)

lemma remove_unfold:
  assumes "region_ok rm r"
  shows "ucs_pgtable_remove rm pt r = do {
     (status, pt1) \<leftarrow> remove_pages pt r (rg_start (rm r)) (rg_start (rm r)) (rg_end (rm r));
     if status \<noteq> UCS_OK then Some (status, pt1)
     else do {
       ucs_assert (pt_num_regions pt1 > 0);
       Some (UCS_OK, pt1\<lparr>pt_num_regions := pt_num_regions pt1 - 1\<rparr>)
     } }"
  using assms by (simp add: ucs_pgtable_remove_def region_ok_def Let_def flip: not_le)

lemma rep_apart:
  assumes "pt_rep rm pt R" "r \<in> R" "q \<in> R" "pg \<in> set (pages_of rm r)" "pg' \<in> set (pages_of rm q)"
    "page_has x pg" "page_has x pg'"
  shows "q = r"
  using rep_tleaf [OF assms(1), of x "snd pg" r] rep_tleaf [OF assms(1), of x "snd pg'" q] assms(2-) by auto

lemma remove_member:
  assumes "pt_rep rm pt R" "r \<in> R"
  shows "\<exists>pt'. ucs_pgtable_remove rm pt r = Some (UCS_OK, pt') \<and> pt_rep rm pt' (R - {r})"
proof -
  have rep: "tbl_ok pt" "tbl_norm pt" "finite R" "card R < max_regions" "pt_num_regions pt = of_nat (card R)"
      "\<forall>r\<in>R. region_ok rm r"
    using assms(1) by (auto simp: pt_rep_def)
  then have ok: "region_ok rm r" using assms(2) by blast
  note al = region_dvd [OF ok]
  have "tleaf pt (fst pg) = Some (snd pg, r)" if "pg \<in> set (pages_of rm r)" for pg
    using rep_tleaf [OF assms(1), of "fst pg" "snd pg" r] assms(2) that by (auto simp: page_has_def)
  then obtain pt1 where pt1: "remove_pages pt r (rg_start (rm r)) (rg_start (rm r)) (rg_end (rm r)) = Some (UCS_OK, pt1)"
      "same_num pt pt1" "tleaf pt1 = erase (pages_of rm r) (tleaf pt)"
    using remove_pages_ok [OF conjunct1 [OF al] conjunct2 [OF al] rep(1,2)] unfolding pages_of_def by blast
  define pt' where "pt' = pt1\<lparr>pt_num_regions := pt_num_regions pt1 - 1\<rparr>"
  have same: "tleaf pt' = tleaf pt1" "tbl_ok pt' = tbl_ok pt1" "tbl_norm pt' = tbl_norm pt1"
    by (simp_all add: pt'_def fun_eq_iff tleaf_def tbl_ok_def tbl_norm_def)
  have c: "card R = card (R - {r}) + 1" using rep(3) assms(2) by (metis Suc_eq_plus1 card_Suc_Diff1)
  have "tleaf pt' x = Some (n, q) \<longleftrightarrow> q \<in> R - {r} \<and> (\<exists>pg\<in>set (pages_of rm q). page_has x pg \<and> snd pg = n)" for x n q
  proof (cases "\<exists>pg\<in>set (pages_of rm r). page_has x pg")
    case True
    then show ?thesis using pt1(3) same(1) rep_apart [OF assms, of q] by (auto simp: erase_eq)
  next
    case False
    then show ?thesis using pt1(3) same(1) rep_tleaf [OF assms(1), of x n q] by (auto simp: erase_eq)
  qed
  moreover have num: "pt_num_regions pt1 = of_nat (card (R - {r})) + 1"
    using c rep(5) pt1(2) by (simp add: same_num_def)
  moreover have "card (R - {r}) < max_regions" using c rep(4) by simp
  ultimately have "pt_rep rm pt' (R - {r})"
    using rep pt1(2) same(2,3) unfolding pt_rep_def same_num_def by (simp add: pt'_def)
  moreover have "pt_num_regions pt1 > 0"
    using rep(4,5) c pt1(2) of_nat_eq_0_small [of "card R", where ?'a = 32]
    by (simp add: word_gt_0 same_num_def max_regions_def)
  ultimately show ?thesis using remove_unfold [OF ok] pt1(1) by (simp add: pt'_def)
qed

text \<open>A region that is not in the table, and whose start no region of the table covers.\<close>

lemma remove_absent_region:
  assumes "pt_rep rm pt R" "\<And>r'. r' \<in> R \<Longrightarrow> \<not> region_has rm r' (rg_start (rm r))"
  shows "ucs_pgtable_remove rm pt r = Some (UCS_ERR_NO_ELEM, pt)"
proof (cases "region_ok rm r")
  case True
  note al = region_dvd [OF True]
  have lt: "rg_start (rm r) < rg_end (rm r)" using True by (simp add: region_ok_def)
  obtain n where n: "ucs_pgtable_get_next_page_order (rg_start (rm r)) (rg_end (rm r)) = Some n"
      "pg_max (unat (rg_start (rm r))) (unat (rg_end (rm r))) n" "n \<le> 60"
    using pgt_pages_step [OF conjunct1 [OF al] conjunct2 [OF al] lt] by metis
  have "tleaf pt (unat (rg_start (rm r))) = None"
    using tleaf_region [OF assms(1), of "unat (rg_start (rm r))"] assms(2)
    by (metis not_None_eq region_has_nat surj_pair)
  then have "ucs_pgtable_remove_page pt (rg_start (rm r)) n r = Some (UCS_ERR_NO_ELEM, pt)"
    using remove_page_absent [OF _ page_ok_of [OF conjunct1 [OF al] n(2,3)]] assms(1) by (simp add: pt_rep_def)
  then show ?thesis
    using remove_unfold [OF True] remove_pages.simps [of pt r "rg_start (rm r)" "rg_start (rm r)" "rg_end (rm r)"] lt n(1)
    by simp
next
  case False
  then show ?thesis by (auto simp: ucs_pgtable_remove_def region_ok_def Let_def)
qed

end
