(* ===== verification/Pgt_Index.thy ===== *)
theory Pgt_Index
  imports Pgt_Region
begin

text \<open>
  The contract of an index of disjoint address ranges, what its clients can rely on, and the page table as
  such an index.
\<close>

section \<open>The contract\<close>

text \<open>\<open>rep t R\<close> says that the index \<open>t\<close> holds the ranges \<open>R\<close>, \<open>has r a\<close> that the range
  \<open>r\<close> has the address \<open>a\<close>.\<close>

locale region_index =
  fixes rep :: "'t \<Rightarrow> 'r set \<Rightarrow> bool"
    and has :: "'r \<Rightarrow> 'a \<Rightarrow> bool"
    and valid :: "'r \<Rightarrow> bool"
    and ins :: "'t \<Rightarrow> 'r \<Rightarrow> (ucs_status \<times> 't) option"
    and del :: "'t \<Rightarrow> 'r \<Rightarrow> (ucs_status \<times> 't) option"
    and look :: "'t \<Rightarrow> 'a \<Rightarrow> 'r option option"
    and room :: nat
  assumes rep_finite: "rep t R \<Longrightarrow> finite R"
    and look_member: "rep t R \<Longrightarrow> r \<in> R \<Longrightarrow> has r a \<Longrightarrow> look t a = Some (Some r)"
    and look_nothing: "rep t R \<Longrightarrow> (\<And>r. r \<in> R \<Longrightarrow> \<not> has r a) \<Longrightarrow> look t a = Some None"
    and ins_new: "rep t R \<Longrightarrow> valid r \<Longrightarrow> (\<And>r' a. r' \<in> R \<Longrightarrow> \<not> (has r a \<and> has r' a)) \<Longrightarrow> card R + 1 < room \<Longrightarrow>
      \<exists>t'. ins t r = Some (UCS_OK, t') \<and> rep t' (insert r R)"
    and ins_taken: "rep t R \<Longrightarrow> valid r \<Longrightarrow> r' \<in> R \<Longrightarrow> has r a \<Longrightarrow> has r' a \<Longrightarrow>
      \<exists>t'. ins t r = Some (UCS_ERR_ALREADY_EXISTS, t') \<and> rep t' R"
    and ins_bad: "rep t R \<Longrightarrow> \<not> valid r \<Longrightarrow> ins t r = Some (UCS_ERR_INVALID_PARAM, t)"
    and del_member: "rep t R \<Longrightarrow> r \<in> R \<Longrightarrow> \<exists>t'. del t r = Some (UCS_OK, t') \<and> rep t' (R - {r})"
begin

text \<open>Lookup decides which range an address belongs to.\<close>

lemma look_iff:
  assumes "rep t R"
  shows "look t a = Some (Some r) \<longleftrightarrow> r \<in> R \<and> has r a"
proof (cases "\<exists>r\<in>R. has r a")
  case True
  then obtain r' where "r' \<in> R" "has r' a" by blast
  then have "look t a = Some (Some r')" using look_member [OF assms] by blast
  then show ?thesis using look_member [OF assms, of r a] \<open>r' \<in> R\<close> \<open>has r' a\<close> by auto
next
  case False
  then show ?thesis using look_nothing [OF assms, of a] by auto
qed

lemma look_total:
  assumes "rep t R"
  shows "look t a \<noteq> None"
  using look_member [OF assms, of _ a] look_nothing [OF assms, of a] by (metis option.distinct(1))

text \<open>An insertion never makes another range disappear, and fails only for a reason.\<close>

lemma ins_cases:
  assumes "rep t R" "card R + 1 < room"
  shows "\<exists>st t'. ins t r = Some (st, t') \<and>
    (if \<not> valid r then st = UCS_ERR_INVALID_PARAM \<and> rep t' R
     else if \<exists>r'\<in>R. \<exists>a. has r a \<and> has r' a then st = UCS_ERR_ALREADY_EXISTS \<and> rep t' R
     else st = UCS_OK \<and> rep t' (insert r R))"
proof (cases "valid r")
  case True
  show ?thesis
  proof (cases "\<exists>r'\<in>R. \<exists>a. has r a \<and> has r' a")
    case o: True
    then obtain r' a where "r' \<in> R" "has r a" "has r' a" by blast
    then obtain t' where "ins t r = Some (UCS_ERR_ALREADY_EXISTS, t')" "rep t' R"
      using ins_taken [OF assms(1) True] by blast
    then show ?thesis using True o by auto
  next
    case o: False
    then obtain t' where "ins t r = Some (UCS_OK, t')" "rep t' (insert r R)"
      using ins_new [OF assms(1) True _ assms(2)] by blast
    then show ?thesis using True o by auto
  qed
next
  case False
  then show ?thesis using ins_bad [OF assms(1)] assms(1) by auto
qed

text \<open>Removing one range after the other.\<close>

lemma del_all:
  assumes "rep t R" "distinct rs" "set rs \<subseteq> R"
  shows "\<exists>t'. foldl (\<lambda>s r. Option.bind s (\<lambda>t. map_option snd (del t r))) (Some t) rs = Some t' \<and> rep t' (R - set rs)"
  using assms
proof (induction rs arbitrary: t R)
  case (Cons r rs)
  obtain t1 where t1: "del t r = Some (UCS_OK, t1)" "rep t1 (R - {r})"
    using del_member [OF Cons.prems(1)] Cons.prems(3) by auto
  have "set rs \<subseteq> R - {r}" using Cons.prems(2,3) by auto
  moreover have "distinct rs" using Cons.prems(2) by simp
  ultimately obtain t' where "foldl (\<lambda>s r. Option.bind s (\<lambda>t. map_option snd (del t r))) (Some t1) rs = Some t'"
      "rep t' (R - {r} - set rs)"
    using Cons.IH [OF t1(2)] by blast
  moreover have "R - {r} - set rs = R - set (r # rs)" by auto
  ultimately show ?case using t1(1) by simp
qed simp

end

section \<open>Lookup in the page table\<close>

lemma lookup_descend_leaf:
  assumes "wf_pte s t" "4 \<le> s"
  shows "lookup_descend rm a t s = (case leaf s t (unat a) of None \<Rightarrow> Some None
    | Some (n, r) \<Rightarrow> (if rg_start (rm r) \<le> a \<and> a < rg_end (rm r) then Some (Some r) else None))"
  using assms
proof (induction s t rule: wf_pte.induct)
  case (3 s es c)
  define i where "i = unat a div 2 ^ (s - 4) mod 16"
  have i: "i < length es" "wf_pte (s - 4) (es ! i)" "8 \<le> s" "4 \<le> s - 4" using 3(2) by (auto simp: i_def)
  then show ?case using 3(1) [of "es ! i"] by (simp add: pte_index_nat pgt_consts Let_def i_def)
qed (simp_all add: ucs_assert_def)

lemma lookup_tleaf:
  assumes "tbl_ok pt"
  shows "ucs_pgtable_lookup rm pt a = (case tleaf pt (unat a) of None \<Rightarrow> Some None
    | Some (n, r) \<Rightarrow> (if rg_start (rm r) \<le> a \<and> a < rg_end (rm r) then Some (Some r) else None))"
  using lookup_descend_leaf [of "pt_shift pt" "pt_root pt" rm a] covered_iff [OF assms, of a] assms
  by (simp add: ucs_pgtable_lookup_def tleaf_def tbl_ok_def)

lemma lookup_member:
  assumes "pt_rep rm pt R" "r \<in> R" "region_has rm r a"
  shows "ucs_pgtable_lookup rm pt a = Some (Some r)"
proof -
  obtain n where "tleaf pt (unat a) = Some (n, r)"
    using tleaf_region [OF assms(1), of "unat a" r] assms(2,3) by (auto simp: region_has_nat)
  then show ?thesis
    using lookup_tleaf [of pt rm a] assms by (simp add: pt_rep_def region_has_def)
qed

lemma lookup_nothing:
  assumes "pt_rep rm pt R" "\<And>r. r \<in> R \<Longrightarrow> \<not> region_has rm r a"
  shows "ucs_pgtable_lookup rm pt a = Some None"
proof -
  have "tleaf pt (unat a) = None"
    using tleaf_region [OF assms(1), of "unat a"] assms(2) by (metis not_None_eq region_has_nat surj_pair)
  then show ?thesis using lookup_tleaf [of pt rm a] assms(1) by (simp add: pt_rep_def)
qed

interpretation pgt: region_index "pt_rep rm" "region_has rm" "region_ok rm" "ucs_pgtable_insert rm"
  "ucs_pgtable_remove rm" "ucs_pgtable_lookup rm" max_regions for rm
proof
  show "pt_rep rm t R \<Longrightarrow> finite R" for t R by (simp add: pt_rep_def)
  show "ucs_pgtable_lookup rm t a = Some (Some r)" if "pt_rep rm t R" "r \<in> R" "region_has rm r a" for t R r a
    using lookup_member that by blast
  show "ucs_pgtable_lookup rm t a = Some None" if "pt_rep rm t R" "\<And>r. r \<in> R \<Longrightarrow> \<not> region_has rm r a" for t R a
    using lookup_nothing that by blast
  show "\<exists>t'. ucs_pgtable_insert rm t r = Some (UCS_OK, t') \<and> pt_rep rm t' (insert r R)"
    if "pt_rep rm t R" "region_ok rm r" "\<And>r' a. r' \<in> R \<Longrightarrow> \<not> (region_has rm r a \<and> region_has rm r' a)"
      "card R + 1 < max_regions" for t R r
    using insert_disjoint [OF that(1,2) _ that(4)] that(3) unfolding overlap_def by blast
  show "\<exists>t'. ucs_pgtable_insert rm t r = Some (UCS_ERR_ALREADY_EXISTS, t') \<and> pt_rep rm t' R"
    if "pt_rep rm t R" "region_ok rm r" "r' \<in> R" "region_has rm r a" "region_has rm r' a" for t R r r' a
    using insert_overlapping [OF that(1-3)] that(4,5) unfolding overlap_def by blast
  show "ucs_pgtable_insert rm t r = Some (UCS_ERR_INVALID_PARAM, t)" if "pt_rep rm t R" "\<not> region_ok rm r" for t R r
    using insert_invalid that(2) by blast
  show "\<exists>t'. ucs_pgtable_remove rm t r = Some (UCS_OK, t') \<and> pt_rep rm t' (R - {r})"
    if "pt_rep rm t R" "r \<in> R" for t R r
    using remove_member that by blast
qed

end
