(* ===== verification/Pgt_Search.thy ===== *)
theory Pgt_Search
  imports Pgt_Index
begin

text \<open>
  The search for the regions that overlap a range: it reports each of them once, in the order of their
  addresses, and no assertion of it fails.
\<close>

section \<open>What a search has found\<close>

abbreviation rstart :: "region_mem \<Rightarrow> nat \<Rightarrow> nat" where
  "rstart rm r \<equiv> unat (rg_start (rm r))"

abbreviation rend :: "region_mem \<Rightarrow> nat \<Rightarrow> nat" where
  "rend rm r \<equiv> unat (rg_end (rm r))"

text \<open>The regions with an address from \<open>lo\<close> up to but not including \<open>hi\<close>.\<close>

definition hits :: "region_mem \<Rightarrow> nat set \<Rightarrow> nat \<Rightarrow> nat \<Rightarrow> nat set" where
  "hits rm R lo hi = {r \<in> R. \<exists>x. lo \<le> x \<and> x < hi \<and> rstart rm r \<le> x \<and> x < rend rm r}"

definition found :: "region_mem \<Rightarrow> nat set \<Rightarrow> nat \<Rightarrow> nat \<Rightarrow> nat option \<times> nat list \<Rightarrow> bool" where
  "found rm R lo c s \<longleftrightarrow> lo \<le> c \<and> set (snd s) = hits rm R lo c \<and>
     sorted_wrt (\<lambda>r r'. rend rm r \<le> rstart rm r') (snd s) \<and>
     fst s = (if snd s = [] then None else Some (last (snd s)))"

lemma hits_extend:
  assumes "lo \<le> c" "c \<le> d"
  shows "hits rm R lo d = hits rm R lo c \<union> hits rm R c d"
proof -
  have "lo \<le> x \<and> x < d \<longleftrightarrow> (lo \<le> x \<and> x < c) \<or> (c \<le> x \<and> x < d)" for x
    using assms by auto
  then show ?thesis unfolding hits_def by blast
qed

lemma found_nothing:
  assumes "found rm R lo c s" "c \<le> d" "hits rm R c d = {}"
  shows "found rm R lo d s"
  using assms hits_extend [of lo c d rm R] by (simp add: found_def)

text \<open>The regions of a table are disjoint.\<close>

lemma rep_disjoint:
  assumes "pt_rep rm pt R" "r \<in> R" "r' \<in> R" "rstart rm r \<le> x" "x < rend rm r" "rstart rm r' \<le> x" "x < rend rm r'"
  shows "r = r'"
  using tleaf_region [OF assms(1), of x r] tleaf_region [OF assms(1), of x r'] assms(2-) by auto

lemma hits_tleaf:
  assumes "pt_rep rm pt R"
  shows "hits rm R c d = {r. \<exists>x n. c \<le> x \<and> x < d \<and> tleaf pt x = Some (n, r)}"
  using tleaf_region [OF assms] unfolding hits_def by blast

text \<open>One more page, all of which belongs to \<open>r\<close>.\<close>

lemma found_before:
  assumes "pt_rep rm pt R" "found rm R lo c s" "r \<in> R" "rstart rm r \<le> c" "c < rend rm r"
    and "l \<in> set (snd s)" "l \<noteq> r" "r \<notin> set (snd s)"
  shows "rend rm l \<le> rstart rm r"
proof (rule ccontr)
  assume n: "\<not> rend rm l \<le> rstart rm r"
  obtain x where x: "l \<in> R" "lo \<le> x" "x < c" "rstart rm l \<le> x" "x < rend rm l"
    using assms(2,6) by (auto simp: found_def hits_def)
  have "\<not> (rstart rm r < c)"
  proof
    assume "rstart rm r < c"
    then have "lo \<le> max lo (rstart rm r) \<and> max lo (rstart rm r) < c \<and> rstart rm r \<le> max lo (rstart rm r) \<and>
        max lo (rstart rm r) < rend rm r"
      using x(2,3) assms(5) by simp
    then have "r \<in> hits rm R lo c" using assms(3) unfolding hits_def by blast
    then show False using assms(2,8) by (simp add: found_def)
  qed
  then have "rstart rm r = c" using assms(4) by simp
  then have "rstart rm l \<le> c" "c < rend rm l" using x n by auto
  then have "l = r" using rep_disjoint [OF assms(1) x(1) assms(3), of c] assms(4,5) by blast
  then show False using assms(7) by blast
qed

lemma found_last:
  assumes "pt_rep rm pt R" "found rm R lo c s" "r \<in> R" "rstart rm r \<le> c" "c < rend rm r" "r \<in> set (snd s)"
  shows "fst s = Some r"
proof (rule ccontr)
  assume ne: "fst s \<noteq> Some r"
  have s: "snd s \<noteq> []" "fst s = Some (last (snd s))" "sorted_wrt (\<lambda>r r'. rend rm r \<le> rstart rm r') (snd s)"
    using assms(2,6) by (auto simp: found_def)
  define l where "l = last (snd s)"
  have b: "snd s = butlast (snd s) @ [l]" using s(1) by (simp add: l_def)
  have "set (snd s) = insert l (set (butlast (snd s)))" by (subst b) simp
  then have "r \<in> set (butlast (snd s))" using assms(6) ne s(2) by (auto simp: l_def)
  moreover have "sorted_wrt (\<lambda>r r'. rend rm r \<le> rstart rm r') (butlast (snd s) @ [l])"
    unfolding b [symmetric] by (rule s(3))
  ultimately have "rend rm r \<le> rstart rm l" unfolding sorted_wrt_append by simp
  moreover have "l \<in> set (snd s)" using s(1) by (simp add: l_def)
  then have "l \<in> hits rm R lo c" using assms(2) by (simp add: found_def)
  ultimately show False using assms(5) by (auto simp: hits_def)
qed

lemma unat_mask_safe:
  assumes "unat a + 2 ^ n \<le> 2 ^ 64" "n \<le> 64"
  shows "unat (a + UCS_MASK_SAFE n) = unat a + (2 ^ n - 1)"
proof -
  have "unat (UCS_MASK_SAFE n) = 2 ^ n - 1"
  proof (cases "n = 64")
    case False
    then have n: "n < 64" using assms(2) by simp
    then have "(1::u64) \<le> push_bit n 1" using unat_page_size [OF n] by (simp add: word_le_nat_alt del: push_bit_of_1)
    then show ?thesis using n unat_page_size [OF n] by (simp add: UCS_MASK_SAFE_def unat_sub del: push_bit_of_1)
  qed (simp add: UCS_MASK_SAFE_def unsigned_minus_1_eq_mask mask_eq_exp_minus_1)
  moreover have "unat a + (2 ^ n - 1) < 2 ^ 64" using assms(1) zero_less_power [of "2::nat" n] by linarith
  ultimately show ?thesis by (simp add: unat_word_ariths)
qed

lemma search_region:
  assumes "pt_rep rm pt R" "found rm R lo c s" "r \<in> R" "rstart rm r \<le> c" "c < d" "d \<le> rend rm r"
    and "unat a \<le> c" "c < unat a + 2 ^ n" "unat a + 2 ^ n \<le> 2 ^ 64" "n \<le> 64"
  shows "\<exists>s'. ucs_pgtable_search_recurs rm a n (Pte_region r) sh s = Some s' \<and> found rm R lo d s'"
proof -
  have h: "hits rm R lo d = insert r (hits rm R lo c)"
  proof -
    have "q = r" if "q \<in> hits rm R c d" for q
      using that rep_disjoint [OF assms(1) _ assms(3)] assms(4,6) unfolding hits_def
      by (auto intro: order_trans less_le_trans)
    moreover have "r \<in> hits rm R c d" using assms(3,4,5,6) unfolding hits_def by auto
    ultimately have "hits rm R c d = {r}" by blast
    then show ?thesis using hits_extend [of lo c d rm R] assms(2,5) by (simp add: found_def)
  qed
  have lod: "lo \<le> d" using assms(2,5) by (simp add: found_def)
  show ?thesis
  proof (cases "r \<in> set (snd s)")
    case True
    then have "fst s = Some r" using found_last [OF assms(1-4)] assms(5,6) by simp
    moreover have "found rm R lo d s"
      using True assms(2) h lod by (auto simp: found_def)
    ultimately show ?thesis by simp
  next
    case False
    have before: "rend rm l \<le> rstart rm r" if "l \<in> set (snd s)" for l
      using found_before [OF assms(1-4) _ that _ False] assms(5,6) that False by auto
    have fst: "fst s \<noteq> Some r" using False assms(2) by (auto simp: found_def split: if_splits)
    have a1: "case fst s of None \<Rightarrow> True | Some l \<Rightarrow> rg_end (rm l) \<le> rg_start (rm r)"
    proof (cases "snd s = []")
      case False
      then show ?thesis using before [OF last_in_set [OF False]] assms(2) by (simp add: found_def word_le_nat_alt)
    qed (use assms(2) in \<open>simp add: found_def\<close>)
    have "rg_start (rm r) \<le> rg_end (rm r) - 1 \<and> unat (rg_end (rm r) - 1) = rend rm r - 1"
    proof -
      have "rg_end (rm r) \<noteq> 0" using assms(5,6) by auto
      then have "(1::u64) \<le> rg_end (rm r)" by (simp add: word_le_nat_alt unat_gt_0 Suc_leI)
      then have "unat (rg_end (rm r) - 1) = rend rm r - 1" by (simp add: unat_sub)
      then show ?thesis using assms(4,5,6) by (simp add: word_le_nat_alt)
    qed
    then have a2: "max (rg_start (rm r)) a \<le> min (rg_end (rm r) - 1) (a + UCS_MASK_SAFE n)"
      using unat_mask_safe [OF assms(9,10)] assms(4,5,6,7,8) by (auto simp: word_le_nat_alt max_def min_def)
    have "ucs_pgtable_search_recurs rm a n (Pte_region r) sh s = Some (Some r, snd s @ [r])"
      using fst a1 a2 by simp
    moreover have "found rm R lo d (Some r, snd s @ [r])"
      using assms(2) h lod before by (auto simp: found_def sorted_wrt_append)
    ultimately show ?thesis by blast
  qed
qed

section \<open>Searching an entry\<close>

text \<open>The entry \<open>t\<close> holds what the table maps from \<open>b\<close> on.\<close>

definition holds_part :: "ucs_pgtable \<Rightarrow> nat \<Rightarrow> nat \<Rightarrow> ucs_pgt_entry \<Rightarrow> bool" where
  "holds_part pt b s t \<longleftrightarrow> 2 ^ s dvd b \<and> b + 2 ^ s \<le> 2 ^ 64 \<and>
     (\<forall>x. b \<le> x \<longrightarrow> x < b + 2 ^ s \<longrightarrow> tleaf pt x = leaf s t x)"

lemma part_index:
  assumes "2 ^ s dvd (b::nat)" "4 \<le> s" "i < 16" "b + i * 2 ^ (s - 4) \<le> x" "x < b + (i + 1) * 2 ^ (s - 4)"
  shows "x div 2 ^ (s - 4) mod 16 = i"
proof -
  obtain q where "b = 2 ^ s * q" using assms(1) by (rule dvdE)
  then have b: "b = 2 ^ (s - 4) * (16 * q)" using exp_minus_4 [OF assms(2)] by simp
  have "x div 2 ^ (s - 4) = 16 * q + i"
    using assms(4,5) b by (intro div_nat_eqI) (simp_all add: algebra_simps)
  then show ?thesis using assms(3) by simp
qed

lemma holds_child:
  assumes "holds_part pt b s (Pte_dir es c)" "wf_pte s (Pte_dir es c)" "i < 16"
  shows "holds_part pt (b + i * 2 ^ (s - 4)) (s - 4) (es ! i)"
proof -
  have s: "8 \<le> s" "length es = 16" using assms(2) by auto
  have e: "(2::nat) ^ s = 2 ^ (s - 4) * 16" using exp_minus_4 s(1) by simp
  have b: "2 ^ s dvd b" "b + 2 ^ s \<le> 2 ^ 64" using assms(1) by (auto simp: holds_part_def)
  have "(i + 1) * 2 ^ (s - 4) \<le> 16 * 2 ^ (s - 4)" using assms(3) by (intro mult_le_mono1) simp
  then have le: "b + i * 2 ^ (s - 4) + 2 ^ (s - 4) \<le> b + 2 ^ s" using e by simp
  have "tleaf pt x = leaf (s - 4) (es ! i) x" if "b + i * 2 ^ (s - 4) \<le> x" "x < b + i * 2 ^ (s - 4) + 2 ^ (s - 4)" for x
  proof -
    have "x div 2 ^ (s - 4) mod 16 = i" using part_index [OF b(1) _ assms(3), of x] that s(1) by simp
    then have "leaf s (Pte_dir es c) x = leaf (s - 4) (es ! i) x" using s(2) assms(3) by simp
    moreover have "b \<le> x" "x < b + 2 ^ s" using that le by linarith+
    ultimately show ?thesis using assms(1) by (simp add: holds_part_def)
  qed
  moreover have "2 ^ (s - 4) dvd b" using b(1) e by (metis dvd_mult_left)
  ultimately show ?thesis using le b(2) by (simp add: holds_part_def)
qed

lemma holds_none:
  assumes "pt_rep rm pt R" "holds_part pt b s Pte_none" "b \<le> c" "d \<le> b + 2 ^ s"
  shows "hits rm R c d = {}"
proof -
  have "tleaf pt x = None" if "c \<le> x" "x < d" for x
    using that assms(2-) by (simp add: holds_part_def)
  then show ?thesis unfolding hits_tleaf [OF assms(1)] by auto
qed

lemma holds_region:
  assumes "pt_rep rm pt R" "holds_part pt b s (Pte_region r)" "b \<le> c" "c < d" "d \<le> b + 2 ^ s"
  shows "r \<in> R \<and> rstart rm r \<le> c \<and> d \<le> rend rm r"
proof -
  have p: "r \<in> R \<and> rstart rm r \<le> x \<and> x < rend rm r" if "c \<le> x" "x < d" for x
    using that assms(2,3,5) tleaf_region [OF assms(1), of x r] by (simp add: holds_part_def)
  have "c \<le> d - 1" "d - 1 < d" using assms(4) by linarith+
  then show ?thesis using p [of c] p [of "d - 1"] assms(4) by auto
qed

text \<open>An entry that lies inside the page of the search.\<close>

lemma search_whole:
  assumes "wf_pte s t" "holds_part pt b s t" "found rm R lo b st"
    and "pt_rep rm pt R" "s \<le> n" "n \<le> 64" "unat a \<le> b" "b + 2 ^ s \<le> unat a + 2 ^ n" "unat a + 2 ^ n \<le> 2 ^ 64"
  shows "\<exists>st'. ucs_pgtable_search_recurs rm a n t s st = Some st' \<and> found rm R lo (b + 2 ^ s) st'"
  using assms
proof (induction s t arbitrary: b st rule: wf_pte.induct)
  case (1 s)
  then show ?case using found_nothing [OF 1(3)] holds_none [OF 1(4,2)] by simp
next
  case (2 s r)
  have "r \<in> R \<and> rstart rm r \<le> b \<and> b + 2 ^ s \<le> rend rm r"
    using holds_region [OF 2(4,2), of b "b + 2 ^ s"] by simp
  moreover have "b < b + 2 ^ s" by simp
  moreover have "b < unat a + 2 ^ n" using 2(8) by (rule less_le_trans [rotated]) simp
  ultimately show ?case
    using search_region [OF 2(4,3), of r "b + 2 ^ s" a n s] 2(6,7,9) by blast
next
  case (3 s es c)
  have s: "8 \<le> s" "length es = 16" using 3(2) by auto
  have e: "(2::nat) ^ s = 2 ^ (s - 4) * 16" using exp_minus_4 s(1) by simp
  have step: "\<exists>st'. search_entries rm a n (drop k es) (s - 4) st = Some st' \<and> found rm R lo (b + 2 ^ s) st'"
    if "k \<le> 16" "found rm R lo (b + k * 2 ^ (s - 4)) st" for k st
    using that
  proof (induction "16 - k" arbitrary: k st)
    case 0
    then have "k = 16" by simp
    then show ?case using 0(3) s(2) e by (simp add: mult.commute)
  next
    case (Suc m)
    then have k: "k < 16" by simp
    have le: "b + k * 2 ^ (s - 4) + 2 ^ (s - 4) \<le> b + 2 ^ s"
      using mult_le_mono1 [of "k + 1" 16 "2 ^ (s - 4)"] k e by simp
    have "wf_pte (s - 4) (es ! k)" "es ! k \<in> set es" using 3(2) k s(2) by auto
    moreover have "s - 4 \<le> n" "unat a \<le> b + k * 2 ^ (s - 4)" "b + k * 2 ^ (s - 4) + 2 ^ (s - 4) \<le> unat a + 2 ^ n"
      using 3(6,8,9) le by linarith+
    ultimately obtain st1 where st1: "ucs_pgtable_search_recurs rm a n (es ! k) (s - 4) st = Some st1"
        "found rm R lo (b + k * 2 ^ (s - 4) + 2 ^ (s - 4)) st1"
      using 3(1) [of "es ! k" "b + k * 2 ^ (s - 4)" st] holds_child [OF 3(3,2) k] Suc(4) 3(5,7,10) by blast
    have "found rm R lo (b + Suc k * 2 ^ (s - 4)) st1" using st1(2) by (simp add: algebra_simps)
    moreover have "m = 16 - Suc k" "Suc k \<le> 16" using Suc(2) k by simp_all
    ultimately obtain st' where "search_entries rm a n (drop (Suc k) es) (s - 4) st1 = Some st'" "found rm R lo (b + 2 ^ s) st'"
      using Suc(1) [of "Suc k" st1] by blast
    moreover have "drop k es = es ! k # drop (Suc k) es" using k s(2) by (simp add: Cons_nth_drop_Suc)
    ultimately show ?case using st1(1) by simp
  qed
  have "\<not> n < s" using 3(6) by simp
  then show ?case using step [of 0 st] 3(4) s(1) by (simp add: pgt_consts Let_def)
qed

text \<open>An entry around the page of the search.\<close>

lemma aligned_step: "k dvd x \<Longrightarrow> k dvd y \<Longrightarrow> x < y \<Longrightarrow> x + k \<le> (y::nat)"
  by (auto elim!: dvdE simp: mult_less_cancel_left) (metis Suc_leI mult_Suc_right mult_le_mono2 add.commute)

lemma part_of:
  assumes "2 ^ s dvd (b::nat)" "4 \<le> s" "b \<le> a" "a < b + 2 ^ s" "2 ^ n dvd a" "n + 4 \<le> s" "i = a div 2 ^ (s - 4) mod 16"
  shows "b + i * 2 ^ (s - 4) \<le> a \<and> a + 2 ^ n \<le> b + i * 2 ^ (s - 4) + 2 ^ (s - 4)"
proof -
  have e: "(2::nat) ^ s = 2 ^ (s - 4) * 16" using exp_minus_4 [OF assms(2)] .
  obtain q where q: "b = 2 ^ s * q" using assms(1) by (rule dvdE)
  have "a div 2 ^ s = q" using assms(3,4) q by (intro div_nat_eqI) simp_all
  then have "a div 2 ^ (s - 4) div 16 = q" using div_exp_exp [of a "s - 4" 4] assms(2) by simp
  then have "a div 2 ^ (s - 4) = 16 * q + i" using assms(7) mult_div_mod_eq [of 16 "a div 2 ^ (s - 4)"] by simp
  then have p: "b + i * 2 ^ (s - 4) = a div 2 ^ (s - 4) * 2 ^ (s - 4)" using q e by (simp add: algebra_simps)
  have lt: "a < b + i * 2 ^ (s - 4) + 2 ^ (s - 4)"
    unfolding p using dividend_less_div_times [of "2 ^ (s - 4)" a] by simp
  have "(2::nat) ^ n dvd 2 ^ (s - 4)" using assms(6) by (intro le_imp_power_dvd) simp
  then have "2 ^ n dvd b + i * 2 ^ (s - 4) + 2 ^ (s - 4)" unfolding p by simp
  then have "a + 2 ^ n \<le> b + i * 2 ^ (s - 4) + 2 ^ (s - 4)" using aligned_step [OF assms(5)] lt by blast
  then show ?thesis unfolding p by simp
qed

lemma search_part:
  assumes "wf_pte s t" "holds_part pt b s t" "found rm R lo (unat a) st" "pt_rep rm pt R"
    and "n \<le> s" "4 dvd n" "4 dvd s" "4 \<le> s" "s \<le> 64" "2 ^ n dvd unat a" "b \<le> unat a" "unat a + 2 ^ n \<le> b + 2 ^ s"
  shows "\<exists>st'. ucs_pgtable_search_recurs rm a n t s st = Some st' \<and> found rm R lo (unat a + 2 ^ n) st'"
  using assms
proof (induction s t arbitrary: b rule: wf_pte.induct)
  case (1 s)
  then show ?case using found_nothing [OF 1(3)] holds_none [OF 1(4,2)] by simp
next
  case (2 s r)
  have "r \<in> R \<and> rstart rm r \<le> unat a \<and> unat a + 2 ^ n \<le> rend rm r"
    using holds_region [OF 2(4,2), of "unat a" "unat a + 2 ^ n"] 2(11,12) by simp
  moreover have "unat a < unat a + 2 ^ n" by simp
  moreover have "unat a + 2 ^ n \<le> 2 ^ 64" using 2(2,12) by (simp add: holds_part_def)
  moreover have "n \<le> 64" using 2(5,9) by simp
  ultimately show ?case using search_region [OF 2(4,3), of r "unat a + 2 ^ n" a n s] by blast
next
  case (3 s es c)
  show ?case
  proof (cases "n = s")
    case True
    then have ab: "unat a = b" using 3(12,13) by simp
    then show ?thesis
      using search_whole [OF 3(2,3), of rm R lo st n a] 3(3,4,5,10) True by (simp add: holds_part_def)
  next
    case False
    then have ns: "n + 4 \<le> s" using 3(6,7,8) by (auto elim!: dvdE)
    have s: "8 \<le> s" "length es = 16" using 3(2) by auto
    define i where "i = unat a div 2 ^ (s - 4) mod 16"
    have i: "i < 16" by (simp add: i_def)
    have "unat a < b + 2 ^ s" using 3(13) by (rule less_le_trans [rotated]) simp
    then have p: "b + i * 2 ^ (s - 4) \<le> unat a \<and> unat a + 2 ^ n \<le> b + i * 2 ^ (s - 4) + 2 ^ (s - 4)"
      using part_of [of s b "unat a" n i] 3(3,9,11,12) ns i_def by (simp add: holds_part_def)
    have "wf_pte (s - 4) (es ! i)" "es ! i \<in> set es" using 3(2) i s(2) by auto
    moreover have "n \<le> s - 4" "4 dvd s - 4" "4 \<le> s - 4" "s - 4 \<le> 64" using ns s(1) 3(8,10) by simp_all
    ultimately have "\<exists>st'. ucs_pgtable_search_recurs rm a n (es ! i) (s - 4) st = Some st' \<and> found rm R lo (unat a + 2 ^ n) st'"
      using 3(1) [of "es ! i" "b + i * 2 ^ (s - 4)"] holds_child [OF 3(3,2) i] 3(4,5,7,11) p by blast
    moreover have "n < s" using ns by simp
    ultimately show ?thesis
      using s ns i by (simp add: pgt_consts Let_def pte_index_nat i_def)
  qed
qed

end
