(* ===== verification/Pgt_Range.thy ===== *)
theory Pgt_Range
  imports Pgt_Search
begin

text \<open>
  The loop of the search over the pages of a range, and the search as a whole: it returns for ranges below the
  last sixteenth of the address space.
\<close>

section \<open>One page of the loop\<close>

lemma root_holds:
  assumes "tbl_ok pt"
  shows "holds_part pt (unat (pt_base pt)) (pt_shift pt) (pt_root pt)"
proof -
  have s: "pt_shift pt \<le> 64" "2 ^ pt_shift pt dvd unat (pt_base pt)" using assms by (auto simp: tbl_ok_def)
  have "unat (pt_base pt) + 2 ^ pt_shift pt \<le> 2 ^ 64"
    using aligned_step [OF s(2), of "2 ^ 64"] le_imp_power_dvd [OF s(1), of "2::nat"] addr_less by blast
  moreover have "tleaf pt x = leaf (pt_shift pt) (pt_root pt) x"
    if "unat (pt_base pt) \<le> x" "x < unat (pt_base pt) + 2 ^ pt_shift pt" for x
    using that page_has_div [OF s(2), of x] by (simp add: page_has_def tleaf_def)
  ultimately show ?thesis using s(2) by (simp add: holds_part_def)
qed

lemma covered_span:
  assumes "tbl_ok pt"
  shows "a AND pt_mask pt = pt_base pt \<longleftrightarrow>
    unat (pt_base pt) \<le> unat a \<and> unat a < unat (pt_base pt) + 2 ^ pt_shift pt"
  using covered_iff [OF assms, of a] page_has_div [of "pt_shift pt" "unat (pt_base pt)" "unat a"] assms
  by (simp add: page_has_def tbl_ok_def)

lemma nothing_beyond:
  assumes "pt_rep rm pt R" "unat (pt_base pt) + 2 ^ pt_shift pt \<le> c"
  shows "hits rm R c d = {}"
proof -
  have ok: "tbl_ok pt" using assms(1) by (simp add: pt_rep_def)
  have "tleaf pt x = None" if "c \<le> x" for x
    using that assms(2) page_has_div [of "pt_shift pt" "unat (pt_base pt)" x] ok
    by (auto simp: tleaf_def page_has_def tbl_ok_def)
  then show ?thesis unfolding hits_tleaf [OF assms(1)] by auto
qed

lemma search_page:
  assumes "pt_rep rm pt R" "found rm R lo (unat a) st" "4 dvd n" "n \<le> 60" "2 ^ n dvd unat a"
    and "a AND pt_mask pt = pt_base pt"
  shows "\<exists>st'. ucs_pgtable_search_recurs rm a n (pt_root pt) (pt_shift pt) st = Some st' \<and>
    found rm R lo (unat a + 2 ^ n) st'"
proof -
  define S where "S = pt_shift pt"
  define B where "B = unat (pt_base pt)"
  have ok: "tbl_ok pt" using assms(1) by (simp add: pt_rep_def)
  then have s: "4 \<le> S" "S \<le> 64" "4 dvd S" "2 ^ S dvd B" "wf_pte S (pt_root pt)"
    by (auto simp: tbl_ok_def S_def B_def)
  have h: "holds_part pt B S (pt_root pt)" using root_holds [OF ok] by (simp add: S_def B_def)
  have ab: "B \<le> unat a" "unat a < B + 2 ^ S" using covered_span [OF ok] assms(6) by (auto simp: S_def B_def)
  show ?thesis
  proof (cases "n \<le> S")
    case True
    have "2 ^ n dvd B + 2 ^ S" using le_imp_power_dvd [OF True, of "2::nat"] s(4) by (meson dvd_add dvd_trans)
    then have "unat a + 2 ^ n \<le> B + 2 ^ S" using aligned_step [OF assms(5)] ab(2) by blast
    then show ?thesis
      using search_part [OF s(5) h assms(2,1) True assms(3) s(3,1,2) assms(5) ab(1)] by (simp add: S_def)
  next
    case False
    then have "S \<le> n" by simp
    have "2 ^ S dvd unat a" using le_imp_power_dvd [OF \<open>S \<le> n\<close>, of "2::nat"] assms(5) by (rule dvd_trans)
    then have eq: "unat a = B"
      using aligned_step [OF s(4), of "unat a"] ab by fastforce
    have le: "(2::nat) ^ S \<le> 2 ^ n" using \<open>S \<le> n\<close> by (rule power_increasing) simp
    have "2 ^ n dvd (2::nat) ^ 64" using assms(4) by (intro le_imp_power_dvd) simp
    then have a64: "unat a + 2 ^ n \<le> 2 ^ 64" using aligned_step [OF assms(5)] addr_less by blast
    obtain st' where st': "ucs_pgtable_search_recurs rm a n (pt_root pt) S st = Some st'" "found rm R lo (B + 2 ^ S) st'"
      using search_whole [OF s(5) h, of rm R lo st n a] assms(1,2,4) \<open>S \<le> n\<close> le a64 eq by auto
    have "hits rm R (B + 2 ^ S) (unat a + 2 ^ n) = {}"
      using nothing_beyond [OF assms(1)] by (simp add: S_def B_def)
    then have "found rm R lo (unat a + 2 ^ n) st'" using found_nothing [OF st'(2)] le eq by simp
    then show ?thesis using st'(1) by (auto simp: S_def)
  qed
qed

section \<open>The loop\<close>

text \<open>The last sixteenth of the address space starts here; no user address of a 64-bit system is in it.\<close>

definition search_limit :: u64 where
  "search_limit = 0xF000000000000000"

lemma search_limit_nat: "unat search_limit = 15 * 2 ^ 60"
  by (simp add: search_limit_def)

lemma below_limit:
  assumes "2 ^ n dvd (x::nat)" "n \<le> 60" "x < 15 * 2 ^ 60"
  shows "x + 2 ^ n \<le> 15 * 2 ^ 60"
proof -
  have "(2::nat) ^ n dvd 2 ^ 60" using assms(2) by (rule le_imp_power_dvd)
  then have "2 ^ n dvd 15 * (2::nat) ^ 60" by (rule dvd_mult)
  then show ?thesis using aligned_step [OF assms(1) _ assms(3)] by blast
qed

text \<open>How far one page of the loop goes.\<close>

lemma page_reach:
  assumes "ucs_pgtable_get_next_page_order a e = Some n" "16 dvd unat a" "16 dvd unat e" "unat e \<noteq> 0"
    and "unat a \<le> t" "unat e = (t + 15) div 16 * 16 \<or> unat e = B \<and> unat e \<le> (t + 15) div 16 * 16" "unat a < B"
  shows "unat a + 2 ^ n \<le> (t div 16 + 1) * 16"
proof -
  have up: "(t + 15) div 16 * 16 \<le> (t div 16 + 1) * 16" by presburger
  have ge: "t \<le> (t + 15) div 16 * 16" by presburger
  have ne: "a \<noteq> 0 \<or> e \<noteq> 0" using assms(4) by auto
  obtain m where m: "ucs_pgtable_get_next_page_order a e = Some m" "a = e \<longrightarrow> m = 4" "a \<noteq> e \<longrightarrow> 2 ^ m \<le> unat (e - a)"
    using next_page_order_any [OF assms(2,3) ne] by blast
  show ?thesis
  proof (cases "a = e")
    case True
    have "n = 4" using m(1,2) assms(1) True by simp
    obtain q where q: "unat a = 16 * q" using assms(2) by (rule dvdE)
    have "q \<le> t div 16" using div_le_mono [OF assms(5), of 16] q by simp
    then have "(q + 1) * 16 \<le> (t div 16 + 1) * 16" by simp
    then have "unat a + 16 \<le> (t div 16 + 1) * 16" using q by simp
    then show ?thesis using \<open>n = 4\<close> by simp
  next
    case False
    have "unat a \<noteq> unat e" using False by (metis unsigned_word_eqI)
    have "unat a \<le> unat e" using assms(5,6,7) ge by auto
    then have "unat (e - a) = unat e - unat a" by (simp add: unat_sub word_le_nat_alt)
    then have "unat a + 2 ^ n \<le> unat e" using m(1,3) assms(1) False \<open>unat a \<le> unat e\<close> by auto
    then show ?thesis using assms(6) up by auto
  qed
qed

lemma search_loop:
  assumes "16 dvd unat a" "found rm R lo (unat a) st" "unat (pt_base pt) \<le> unat a"
    and "pt_rep rm pt R" "16 dvd unat e" "unat e \<noteq> 0" "to < search_limit"
    and "unat e = (unat to + 15) div 16 * 16 \<or>
      unat e = unat (pt_base pt) + 2 ^ pt_shift pt \<and> unat e \<le> (unat to + 15) div 16 * 16"
  shows "\<exists>st' A. search_pages rm pt to e a st = Some (Some (snd st')) \<and> found rm R lo A st' \<and> unat to < A \<and>
    (A = unat a \<or> A \<le> (unat to div 16 + 1) * 16 \<or> unat (pt_base pt) + 2 ^ pt_shift pt \<le> unat to)"
  using assms
proof (induction "2 ^ 64 - unat a" arbitrary: a st rule: less_induct)
  case less
  have ok: "tbl_ok pt" using less.prems(4) by (simp add: pt_rep_def)
  show ?case
  proof (cases "a \<le> to")
    case False
    then have "search_pages rm pt to e a st = Some (Some (snd st))" by (simp add: search_pages.simps)
    moreover have "unat to < unat a" using False by (simp add: word_le_nat_alt)
    ultimately show ?thesis using less.prems(2) by blast
  next
    case True
    then have at: "unat a \<le> unat to" by (simp add: word_le_nat_alt)
    have ne: "a \<noteq> 0 \<or> e \<noteq> 0" using less.prems(6) by auto
    obtain n where n: "ucs_pgtable_get_next_page_order a e = Some n" "4 \<le> n" "n \<le> 60" "4 dvd n" "2 ^ n dvd unat a"
      using next_page_order_any [OF less.prems(1,5) ne] by blast
    have "unat to < 15 * 2 ^ 60" using less.prems(7) search_limit_nat by (simp add: word_less_nat_alt)
    then have lim: "unat a + 2 ^ n \<le> 15 * 2 ^ 60" using below_limit [OF n(5,3)] at by linarith
    have adv: "unat (a + push_bit n 1) = unat a + 2 ^ n"
      using unat_page_end [of a n search_limit] lim n(3) search_limit_nat by simp
    have "(16::nat) dvd 2 ^ n" using le_imp_power_dvd [OF n(2), of "2::nat"] by simp
    then have al: "16 dvd unat (a + push_bit n 1)" using adv less.prems(1) by simp
    obtain st1 where st1: "(if a AND pt_mask pt = pt_base pt
        then ucs_pgtable_search_recurs rm a n (pt_root pt) (pt_shift pt) st else Some st) = Some st1"
        "found rm R lo (unat a + 2 ^ n) st1"
    proof (cases "a AND pt_mask pt = pt_base pt")
      case True
      then show ?thesis using that search_page [OF less.prems(4,2) n(4,3,5)] by auto
    next
      case False
      then have "unat (pt_base pt) + 2 ^ pt_shift pt \<le> unat a"
        using covered_span [OF ok] less.prems(3) by (simp add: not_less)
      then show ?thesis
        using that False found_nothing [OF less.prems(2)] nothing_beyond [OF less.prems(4)] by simp
    qed
    have "2 ^ 64 - unat (a + push_bit n 1) < 2 ^ 64 - unat a"
      using adv addr_less [of a] by (simp add: diff_less_mono2)
    moreover have "found rm R lo (unat (a + push_bit n 1)) st1" "unat (pt_base pt) \<le> unat (a + push_bit n 1)"
      using adv st1(2) less.prems(3) by simp_all
    ultimately obtain st' A where r: "search_pages rm pt to e (a + push_bit n 1) st1 = Some (Some (snd st'))"
        "found rm R lo A st'" "unat to < A"
        "A = unat (a + push_bit n 1) \<or> A \<le> (unat to div 16 + 1) * 16 \<or> unat (pt_base pt) + 2 ^ pt_shift pt \<le> unat to"
      using less.hyps [of "a + push_bit n 1" st1] al less.prems(4-8) by blast
    have "search_pages rm pt to e a st = search_pages rm pt to e (a + push_bit n 1) st1"
      using True n(1,3) st1(1) advance_ok [OF n(3), of a] search_pages.simps [of rm pt to e a st]
      by (simp add: pgt_consts del: push_bit_of_1)
    moreover have "unat a + 2 ^ n \<le> (unat to div 16 + 1) * 16 \<or> unat (pt_base pt) + 2 ^ pt_shift pt \<le> unat to"
      using page_reach [OF n(1) less.prems(1,5,6) at less.prems(8)] at by (meson le_less_trans not_le)
    then have "A \<le> (unat to div 16 + 1) * 16 \<or> unat (pt_base pt) + 2 ^ pt_shift pt \<le> unat to"
      using r(4) adv by auto
    ultimately show ?thesis using r(1,2,3) by (intro exI [of _ st'] exI [of _ A]) simp
  qed
qed

section \<open>The search\<close>

lemma not_mask_push: "NOT (mask n) = (push_bit n (- 1) :: u64)"
  by (rule bit_eqI) (auto simp: bit_not_iff bit_mask_iff bit_push_bit_iff)

lemma align_down_nat: "unat (ucs_align_down_pow2 x UCS_PGT_ADDR_ALIGN) = unat x div 16 * 16"
proof -
  have "UCS_PGT_ADDR_ALIGN - 1 = mask 4" by (simp add: pgt_consts mask_eq_exp_minus_1)
  then have "ucs_align_down_pow2 x UCS_PGT_ADDR_ALIGN = x AND NOT (mask 4)" by (simp add: ucs_align_down_pow2_def)
  also have "\<dots> = x AND push_bit 4 (- 1)" unfolding not_mask_push [of 4] ..
  finally show ?thesis using unat_and_high [of x 4] by simp
qed

lemma align_up_nat:
  assumes "unat x + 15 < 2 ^ 64"
  shows "unat (ucs_align_up_pow2 x UCS_PGT_ADDR_ALIGN) = (unat x + 15) div 16 * 16"
proof -
  have e: "x + UCS_PGT_ADDR_ALIGN - 1 = x + 15" by (simp add: pgt_consts)
  have "unat (x + 15) = unat x + 15" using assms by (simp add: unat_word_ariths)
  then show ?thesis unfolding ucs_align_up_pow2_def e align_down_nat by simp
qed

lemma region_block:
  assumes "region_ok rm r" "rstart rm r \<le> x" "x < rend rm r" "y div 16 = x div 16"
  shows "rstart rm r \<le> y \<and> y < rend rm r"
proof -
  obtain p q where pq: "rstart rm r = 16 * p" "rend rm r = 16 * q" using region_dvd [OF assms(1)] by (auto elim!: dvdE)
  have "p \<le> x div 16" using assms(2) pq(1) div_le_mono [of "16 * p" x 16] by simp
  moreover have "x div 16 < q" using assms(3) pq(2) by (simp add: less_mult_imp_div_less mult.commute)
  ultimately have "p \<le> y div 16" "y div 16 < q" using assms(4) by simp_all
  then have "16 * p \<le> 16 * (y div 16)" "16 * (y div 16 + 1) \<le> 16 * q" by (simp, intro mult_le_mono2) simp
  moreover have "16 * (y div 16) \<le> y" "y < 16 * (y div 16 + 1)" by simp_all
  ultimately show ?thesis unfolding pq by linarith
qed

lemma hits_range:
  assumes "pt_rep rm pt R" "from \<le> to" "unat to < A"
    and "lo = max (unat from div 16 * 16) (unat (pt_base pt))"
    and "A = lo \<or> A \<le> (unat to div 16 + 1) * 16 \<or> unat (pt_base pt) + 2 ^ pt_shift pt \<le> unat to"
  shows "hits rm R lo A = {r \<in> R. \<exists>a. from \<le> a \<and> a \<le> to \<and> region_has rm r a}"
proof (intro equalityI subsetI CollectI conjI)
  have ft: "unat from \<le> unat to" using assms(2) by (simp add: word_le_nat_alt)
  fix r assume "r \<in> hits rm R lo A"
  then obtain x where x: "r \<in> R" "lo \<le> x" "x < A" "rstart rm r \<le> x" "x < rend rm r" by (auto simp: hits_def)
  then have ok: "region_ok rm r" using assms(1) by (simp add: pt_rep_def)
  show "r \<in> R" by (rule x(1))
  have "x < unat (pt_base pt) + 2 ^ pt_shift pt"
  proof (rule ccontr)
    assume "\<not> ?thesis"
    then have "hits rm R x (x + 1) = {}" using nothing_beyond [OF assms(1)] by simp
    then show False using x unfolding hits_def by fastforce
  qed
  then have "x \<le> unat to \<or> x div 16 = unat to div 16"
    using assms(5) x(2,3) by (auto simp: div_nat_eqI) 
  then have to: "x \<le> unat to \<or> region_has rm r to"
    using region_block [OF ok x(4,5), of "unat to"] by (auto simp: region_has_nat)
  have "unat from \<le> x \<or> x div 16 = unat from div 16"
    using assms(4) x(2) by (auto simp: not_le intro!: div_nat_eqI)
  then have fr: "unat from \<le> x \<or> region_has rm r from"
    using region_block [OF ok x(4,5), of "unat from"] by (auto simp: region_has_nat)
  have "x < 2 ^ 64" using x(5) addr_less [of "rg_end (rm r)"] by linarith
  then have ux: "unat (of_nat x :: u64) = x" by (rule unat_of_nat_addr)
  then have "region_has rm r (of_nat x)" using x(4,5) by (simp add: region_has_nat)
  then show "\<exists>a. from \<le> a \<and> a \<le> to \<and> region_has rm r a"
    using to fr ux assms(2) by (metis word_le_nat_alt order_refl)
next
  fix r assume "r \<in> {r \<in> R. \<exists>a. from \<le> a \<and> a \<le> to \<and> region_has rm r a}"
  then obtain a :: u64 where a: "r \<in> R" "unat from \<le> unat a" "unat a \<le> unat to" "rstart rm r \<le> unat a" "unat a < rend rm r"
    by (auto simp: region_has_nat word_le_nat_alt)
  have ok: "tbl_ok pt" using assms(1) by (simp add: pt_rep_def)
  obtain n where "tleaf pt (unat a) = Some (n, r)" using tleaf_region [OF assms(1), of "unat a" r] a by blast
  then have "a AND pt_mask pt = pt_base pt" using covered_iff [OF ok, of a] by (auto simp: tleaf_def split: if_splits)
  then have "unat (pt_base pt) \<le> unat a" using covered_span [OF ok] by blast
  moreover have "unat from div 16 * 16 \<le> unat a" using a(2) by (meson div_times_less_eq_dividend order_trans)
  ultimately show "r \<in> hits rm R lo A" using a assms(3,4) unfolding hits_def by auto
qed

lemma found_start: "found rm R lo lo (None, [])"
  by (auto simp: found_def hits_def)

lemma span_nat:
  assumes "tbl_ok pt" "pt_shift pt < 64" "unat (pt_base pt) + 2 ^ pt_shift pt < 2 ^ 64"
  shows "unat (pt_base pt + push_bit (pt_shift pt) 1) = unat (pt_base pt) + 2 ^ pt_shift pt"
  using assms unat_page_size [OF assms(2)] by (simp add: unat_word_ariths)

lemma span_16:
  assumes "tbl_ok pt"
  shows "16 dvd unat (pt_base pt) \<and> (16::nat) dvd 2 ^ pt_shift pt"
proof -
  have "(16::nat) dvd 2 ^ pt_shift pt"
    using le_imp_power_dvd [of 4 "pt_shift pt" "2::nat"] assms by (simp add: tbl_ok_def)
  then show ?thesis using assms by (auto simp: tbl_ok_def intro: dvd_trans)
qed

lemma shift_60: "tbl_ok pt \<Longrightarrow> pt_shift pt < 64 \<Longrightarrow> pt_shift pt \<le> 60"
  by (auto simp: tbl_ok_def elim!: dvdE)

lemma search_pages_end: "to < a \<Longrightarrow> search_pages rm pt to e a s = Some (Some (snd s))"
  by (simp add: search_pages.simps flip: not_le)

text \<open>What the search promises: the regions that overlap the range, each once, in ascending order.\<close>

definition search_result :: "region_mem \<Rightarrow> nat set \<Rightarrow> u64 \<Rightarrow> u64 \<Rightarrow> nat list \<Rightarrow> bool" where
  "search_result rm R from to log \<longleftrightarrow>
     set log = {r \<in> R. \<exists>a. from \<le> a \<and> a \<le> to \<and> region_has rm r a} \<and>
     sorted_wrt (\<lambda>r r'. rg_end (rm r) \<le> rg_start (rm r')) log"

lemma found_result:
  assumes "found rm R lo A s" "hits rm R lo A = {r \<in> R. \<exists>a. from \<le> a \<and> a \<le> to \<and> region_has rm r a}"
  shows "search_result rm R from to (snd s)"
  using assms by (simp add: found_def search_result_def word_le_nat_alt)

lemma search_from:
  assumes "pt_rep rm pt R" "from \<le> to" "to < search_limit"
    and "unat lo = max (unat from div 16 * 16) (unat (pt_base pt))"
    and e: "\<not> to < lo \<Longrightarrow> 16 dvd unat e \<and> unat e \<noteq> 0 \<and> (unat e = (unat to + 15) div 16 * 16 \<or>
      unat e = unat (pt_base pt) + 2 ^ pt_shift pt \<and> unat e \<le> (unat to + 15) div 16 * 16)"
  shows "\<exists>log. search_pages rm pt to e lo (None, []) = Some (Some log) \<and> search_result rm R from to log"
proof (cases "to < lo")
  case True
  then have "hits rm R (unat lo) (unat lo) = {r \<in> R. \<exists>a. from \<le> a \<and> a \<le> to \<and> region_has rm r a}"
    using assms(4) by (intro hits_range [OF assms(1,2)]) (simp_all add: word_less_nat_alt)
  then show ?thesis using search_pages_end [OF True] found_result [OF found_start] by fastforce
next
  case False
  have "tbl_ok pt" using assms(1) by (simp add: pt_rep_def)
  then have "16 dvd unat lo" using assms(4) span_16 by (auto simp: max_def)
  moreover have "unat (pt_base pt) \<le> unat lo" using assms(4) by simp
  ultimately obtain st A where r: "search_pages rm pt to e lo (None, []) = Some (Some (snd st))" "found rm R (unat lo) A st"
      "unat to < A" "A = unat lo \<or> A \<le> (unat to div 16 + 1) * 16 \<or> unat (pt_base pt) + 2 ^ pt_shift pt \<le> unat to"
    using search_loop [OF _ found_start _ assms(1) _ _ assms(3), of lo e] e [OF False] by blast
  have "hits rm R (unat lo) A = {r \<in> R. \<exists>a. from \<le> a \<and> a \<le> to \<and> region_has rm r a}"
    using r(3,4) assms(4) by (intro hits_range [OF assms(1,2)]) simp_all
  then show ?thesis using r(1) found_result [OF r(2)] by blast
qed

lemma search_range_ok:
  assumes "pt_rep rm pt R" "from \<le> to" "to \<noteq> 0" "to < search_limit"
  shows "\<exists>log. ucs_pgtable_search_range rm pt from to = Some (Some log) \<and> search_result rm R from to log"
proof -
  define S where "S = pt_shift pt"
  define B where "B = unat (pt_base pt)"
  define a where "a = ucs_align_down_pow2 from UCS_PGT_ADDR_ALIGN"
  define e where "e = ucs_align_up_pow2 to UCS_PGT_ADDR_ALIGN"
  have ok: "tbl_ok pt" using assms(1) by (simp add: pt_rep_def)
  then have s: "S \<le> 64" "2 ^ S dvd B" by (auto simp: tbl_ok_def S_def B_def)
  have tl: "unat to < 15 * 2 ^ 60" using assms(4) search_limit_nat by (simp add: word_less_nat_alt)
  have ua: "unat a = unat from div 16 * 16" by (simp add: a_def align_down_nat)
  have ue: "unat e = (unat to + 15) div 16 * 16" using align_up_nat [of to] tl by (simp add: e_def)
  have "unat to \<noteq> 0" using assms(3) by (metis unsigned_eq_0_iff)
  then have e0: "16 dvd unat e" "unat e \<noteq> 0" using ue by simp_all
  show ?thesis
  proof (cases "S < 64")
    case False
    then have "2 ^ 64 dvd B" using s by simp
    then have "B = 0" using addr_less [of "pt_base pt"] by (auto simp: B_def dest: dvd_imp_le)
    then have "pt_base pt = 0" unfolding B_def by (metis unsigned_eq_0_iff)
    then show ?thesis
      using search_from [OF assms(1,2,4), of a e] False ua ue e0
      by (simp add: ucs_pgtable_search_range_def a_def e_def S_def Let_def)
  next
    case True
    define lo where "lo = max a (pt_base pt)"
    define e' where "e' = min e (pt_base pt + push_bit S 1)"
    have ulo: "unat lo = max (unat from div 16 * 16) B" using ua by (simp add: lo_def max_def word_le_nat_alt B_def)
    have "16 dvd unat e' \<and> unat e' \<noteq> 0 \<and> (unat e' = (unat to + 15) div 16 * 16 \<or>
        unat e' = B + 2 ^ S \<and> unat e' \<le> (unat to + 15) div 16 * 16)" if "\<not> to < lo"
    proof -
      have "B \<le> unat to" using that ulo by (simp add: word_less_nat_alt)
      then have "B + 2 ^ S \<le> 15 * 2 ^ 60" using below_limit [OF s(2)] shift_60 [OF ok] True tl by (simp add: S_def)
      then have "unat (pt_base pt + push_bit S 1) = B + 2 ^ S"
        using span_nat [OF ok] True by (simp add: S_def B_def)
      then have "unat e' = min (unat e) (B + 2 ^ S)" by (simp add: e'_def min_def word_le_nat_alt)
      then show ?thesis using e0 ue span_16 [OF ok] by (auto simp: min_def S_def B_def)
    qed
    then show ?thesis
      using search_from [OF assms(1,2,4), of lo e'] ulo True
      by (simp add: ucs_pgtable_search_range_def a_def e_def e'_def lo_def S_def B_def Let_def)
  qed
qed

end
