(* ===== verification/Pgt_Purge.thy ===== *)
theory Pgt_Purge
  imports Pgt_Range
begin

text \<open>
  Purging a table, which searches exactly the span of the table, and the ranges for which the search does
  not do what it promises.
\<close>

section \<open>Searching the span of the table\<close>

lemma hits_all:
  assumes "pt_rep rm pt R"
  shows "hits rm R (unat (pt_base pt)) (unat (pt_base pt) + 2 ^ pt_shift pt) = R"
proof -
  have ok: "tbl_ok pt" using assms by (simp add: pt_rep_def)
  have "r \<in> hits rm R (unat (pt_base pt)) (unat (pt_base pt) + 2 ^ pt_shift pt)" if "r \<in> R" for r
  proof -
    have lt: "rstart rm r < rend rm r" using assms that by (auto simp: pt_rep_def region_ok_def word_less_nat_alt)
    then have "\<exists>n. tleaf pt (rstart rm r) = Some (n, r)" using tleaf_region [OF assms, of "rstart rm r" r] that by simp
    then obtain n where "tleaf pt (rstart rm r) = Some (n, r)" by blast
    then have "rg_start (rm r) AND pt_mask pt = pt_base pt"
      using covered_iff [OF ok] by (auto simp: tleaf_def split: if_splits)
    then show ?thesis using covered_span [OF ok] that lt unfolding hits_def by auto
  qed
  then show ?thesis unfolding hits_def by blast
qed

lemma sorted_wrt_neq: "sorted_wrt (\<noteq>) xs \<longleftrightarrow> distinct xs"
  by (induction xs) auto

lemma all_in_order:
  assumes "pt_rep rm pt R" "found rm R (unat (pt_base pt)) (unat (pt_base pt) + 2 ^ pt_shift pt) s"
  shows "set (snd s) = R \<and> distinct (snd s) \<and> sorted_wrt (\<lambda>r r'. rg_end (rm r) \<le> rg_start (rm r')) (snd s)"
proof -
  have s: "set (snd s) = R" "sorted_wrt (\<lambda>r r'. rend rm r \<le> rstart rm r') (snd s)"
    using assms(2) hits_all [OF assms(1)] by (auto simp: found_def)
  have "rstart rm r < rend rm r" if "r \<in> R" for r
    using assms(1) that by (auto simp: pt_rep_def region_ok_def word_less_nat_alt)
  then have "sorted_wrt (\<noteq>) (snd s)"
    using s by (intro sorted_wrt_mono_rel [OF _ s(2)]) force
  then show ?thesis using s by (simp add: sorted_wrt_neq word_le_nat_alt)
qed

lemma span_end:
  assumes "tbl_ok pt" "pt_shift pt < 64"
  shows "unat (pt_base pt + push_bit (pt_shift pt) 1 - 1) = unat (pt_base pt) + 2 ^ pt_shift pt - 1"
    and "ucs_align_up_pow2 (pt_base pt + push_bit (pt_shift pt) 1 - 1) UCS_PGT_ADDR_ALIGN = pt_base pt + push_bit (pt_shift pt) 1"
proof -
  define S where "S = pt_shift pt"
  have le: "unat (pt_base pt) + 2 ^ S \<le> 2 ^ 64" using root_holds [OF assms(1)] by (simp add: holds_part_def S_def)
  have "push_bit S 1 - 1 = UCS_MASK_SAFE S" using assms(2) by (simp add: UCS_MASK_SAFE_def S_def)
  then have eq: "pt_base pt + push_bit S 1 - 1 = pt_base pt + UCS_MASK_SAFE S" by (metis add_diff_eq)
  show "unat (pt_base pt + push_bit (pt_shift pt) 1 - 1) = unat (pt_base pt) + 2 ^ pt_shift pt - 1"
    using unat_mask_safe [OF le] assms(2) unfolding eq [unfolded S_def] by (simp add: S_def)
  define x where "x = pt_base pt + push_bit S 1"
  have "2 ^ 4 dvd unat (pt_base pt)" "2 ^ 4 dvd unat (push_bit S 1 :: u64)"
    using span_16 [OF assms(1)] unat_page_size [OF assms(2)] by (simp_all add: S_def)
  then have x16: "16 dvd unat x" using dvd_unat_add [of 4 "pt_base pt" "push_bit S 1"] by (simp add: x_def)
  then obtain q where q: "unat x = 16 * q" by (rule dvdE)
  have "16 * q < 16 * 2 ^ 60" using q addr_less [of x] by simp
  then have "q < 2 ^ 60" by simp
  then have "unat x + 14 < 2 ^ 64" using q by simp
  then have "unat (x + 14) = unat x + 14" by (simp add: unat_word_ariths)
  then have "unat (x + 14) div 16 * 16 = unat x" using q by simp
  moreover have up: "x - 1 + UCS_PGT_ADDR_ALIGN - 1 = x + 14" by (simp add: pgt_consts)
  ultimately have "unat (ucs_align_up_pow2 (x - 1) UCS_PGT_ADDR_ALIGN) = unat x"
    unfolding ucs_align_up_pow2_def up align_down_nat by simp
  then have "ucs_align_up_pow2 (x - 1) UCS_PGT_ADDR_ALIGN = x" by (rule unsigned_word_eqI)
  then show "ucs_align_up_pow2 (pt_base pt + push_bit (pt_shift pt) 1 - 1) UCS_PGT_ADDR_ALIGN = pt_base pt + push_bit (pt_shift pt) 1"
    by (simp add: x_def S_def)
qed

lemma span_order:
  assumes "tbl_ok pt" "pt_shift pt < 64"
  shows "ucs_pgtable_get_next_page_order (pt_base pt) (pt_base pt + push_bit (pt_shift pt) 1) = Some (pt_shift pt)"
proof -
  define S where "S = pt_shift pt"
  define x where "x = pt_base pt + push_bit S 1"
  have S: "4 dvd S" "2 ^ S dvd unat (pt_base pt)" using assms(1) by (auto simp: tbl_ok_def S_def)
  have p: "unat (push_bit S 1 :: u64) = 2 ^ S" using unat_page_size assms(2) by (simp add: S_def)
  have d: "x - pt_base pt = push_bit S 1" by (simp add: x_def)
  have "(push_bit S 1 :: u64) \<noteq> 0" using p by (metis power_not_zero unsigned_0 zero_neq_numeral)
  then have ne: "pt_base pt \<noteq> x" using d by (metis diff_self)
  have "2 ^ 4 dvd unat (pt_base pt)" "2 ^ 4 dvd unat (push_bit S 1 :: u64)"
    using span_16 [OF assms(1)] p by (simp_all add: S_def)
  then have x16: "16 dvd unat x" using dvd_unat_add [of 4 "pt_base pt" "push_bit S 1"] by (simp add: x_def)
  obtain n where n: "ucs_pgtable_get_next_page_order (pt_base pt) x = Some n" "2 ^ n \<le> unat (x - pt_base pt)"
      "\<forall>k. 4 dvd k \<longrightarrow> 2 ^ k dvd unat (pt_base pt) \<longrightarrow> 2 ^ k \<le> unat (x - pt_base pt) \<longrightarrow> k \<le> n"
    using next_page_order_any [OF _ x16, of "pt_base pt"] span_16 [OF assms(1)] ne by blast
  have "S \<le> n" using n(3) S p d by simp
  moreover have "(2::nat) ^ n \<le> 2 ^ S" using n(2) p d by simp
  then have "n \<le> S" by simp
  ultimately show ?thesis using n(1) by (simp add: x_def S_def)
qed

lemma search_span:
  assumes "pt_rep rm pt R" "pt_shift pt < 64"
  shows "\<exists>log. ucs_pgtable_search_range rm pt (pt_base pt) (pt_base pt + push_bit (pt_shift pt) 1 - 1) = Some (Some log) \<and>
    set log = R \<and> distinct log \<and> sorted_wrt (\<lambda>r r'. rg_end (rm r) \<le> rg_start (rm r')) log"
proof -
  define S where "S = pt_shift pt"
  define x where "x = pt_base pt + push_bit S 1"
  have ok: "tbl_ok pt" using assms(1) by (simp add: pt_rep_def)
  have S: "S \<le> 60" "4 dvd S" "2 ^ S dvd unat (pt_base pt)"
    using shift_60 [OF ok] assms(2) ok by (auto simp: S_def tbl_ok_def)
  have to: "unat (x - 1) = unat (pt_base pt) + 2 ^ S - 1" "ucs_align_up_pow2 (x - 1) UCS_PGT_ADDR_ALIGN = x"
    using span_end [OF ok assms(2)] by (simp_all add: x_def S_def)
  have "unat (ucs_align_down_pow2 (pt_base pt) UCS_PGT_ADDR_ALIGN) = unat (pt_base pt)"
    using align_down_nat span_16 [OF ok] by simp
  then have fr: "ucs_align_down_pow2 (pt_base pt) UCS_PGT_ADDR_ALIGN = pt_base pt" by (rule unsigned_word_eqI)
  have cov: "pt_base pt AND pt_mask pt = pt_base pt" using covered_span [OF ok] by simp
  obtain st where st: "ucs_pgtable_search_recurs rm (pt_base pt) S (pt_root pt) (pt_shift pt) (None, []) = Some st"
      "found rm R (unat (pt_base pt)) (unat (pt_base pt) + 2 ^ S) st"
    using search_page [OF assms(1) found_start S(2,1,3) cov] by blast
  have "(1::nat) \<le> 2 ^ S" by simp
  then have "unat (pt_base pt) \<le> unat (x - 1)" using to(1) by linarith
  then have "pt_base pt \<le> x - 1" by (simp only: word_le_nat_alt)
  then have step: "search_pages rm pt (x - 1) x (pt_base pt) (None, []) = search_pages rm pt (x - 1) x x st"
    using search_pages.simps [of rm pt "x - 1" x "pt_base pt" "(None, [])"] span_order [OF ok assms(2)] cov st(1)
      advance_ok [OF S(1), of "pt_base pt"] S(1) by (simp add: x_def S_def pgt_consts del: push_bit_of_1)
  have "search_pages rm pt (x - 1) x x st = Some (Some (snd st))"
  proof (cases "x = 0")
    case True
    have "pt_base pt \<noteq> 0"
    proof
      assume "pt_base pt = 0"
      then have "unat x = 2 ^ S" using unat_page_size assms(2) by (simp add: x_def S_def)
      then show False using True by simp
    qed
    moreover have "ucs_pgtable_get_next_page_order 0 0 = Some 64"
      by (simp add: ucs_pgtable_get_next_page_order_def ucs_pgt_is_addr_aligned_def pgt_consts)
    ultimately show ?thesis using True search_pages.simps [of rm pt "x - 1" x x st] by (simp add: pgt_consts)
  next
    case False
    then have "x - 1 < x" by (metis word_less_1 word_not_simps(1) less_imp_diff_less measure_unat word_less_nat_alt)
    then show ?thesis by (rule search_pages_end)
  qed
  then have "ucs_pgtable_search_range rm pt (pt_base pt) (pt_base pt + push_bit (pt_shift pt) 1 - 1) = Some (Some (snd st))"
    using step fr to(2) assms(2) unfolding ucs_pgtable_search_range_def Let_def x_def S_def by simp
  then show ?thesis using all_in_order [OF assms(1)] st(2) by (auto simp: S_def)
qed

section \<open>Purge\<close>

lemma rep_empty_root:
  assumes "pt_rep rm pt {}"
  shows "pt_root pt = Pte_none \<and> pt_shift pt = 4 \<and> pt_base pt = 0 \<and> pt_num_regions pt = 0"
proof -
  define S where "S = pt_shift pt"
  have ok: "tbl_ok pt" "tbl_norm pt" "pt_num_regions pt = 0" using assms by (auto simp: pt_rep_def)
  have none: "tleaf pt x = None" for x using rep_tleaf [OF assms, of x] by (cases "tleaf pt x") auto
  have "leaf S (pt_root pt) x = None" for x
  proof -
    define y where "y = unat (pt_base pt) div 2 ^ S * 2 ^ S + x mod 2 ^ S"
    have "y mod 2 ^ S = x mod 2 ^ S" "y div 2 ^ S = unat (pt_base pt) div 2 ^ S" by (simp_all add: y_def)
    then show ?thesis
      using none [of y] leaf_mod [of S "pt_root pt" y x] ok(1) by (simp add: tleaf_def S_def tbl_ok_def)
  qed
  then have "pt_root pt = Pte_none"
    using present_leaf [of S "pt_root pt"] ok(1) by (cases "pt_root pt") (auto simp: tbl_ok_def S_def)
  then show ?thesis using ok(2,3) by (simp add: tbl_norm_def)
qed

lemma purge_remove_fold:
  "purge_remove rm rs pt = foldl (\<lambda>s r. Option.bind s (\<lambda>t. map_option snd (ucs_pgtable_remove rm t r))) (Some pt) rs"
proof (induction rs arbitrary: pt)
  case (Cons r rs)
  have none: "foldl (\<lambda>s r. Option.bind s (\<lambda>t. map_option snd (ucs_pgtable_remove rm t r))) None rs = None"
    by (induction rs) simp_all
  then show ?case using Cons.IH by (cases "ucs_pgtable_remove rm pt r") auto
qed simp

lemma purge_ok:
  assumes "pt_rep rm pt R" "pt_shift pt < 64"
  shows "\<exists>pt' log. ucs_pgtable_purge rm True pt = Some (Some (pt', log)) \<and> pt_rep rm pt' {} \<and> set log = R \<and> distinct log"
proof (cases "R = {}")
  case True
  then have "ucs_pgtable_purge rm True pt = Some (Some (pt, []))"
    using rep_empty_root [of rm pt] assms(1) by (simp add: ucs_pgtable_purge_def purge_out_def pgt_consts)
  then show ?thesis using assms(1) True by auto
next
  case False
  have ok: "tbl_ok pt" "finite R" "card R < 2 ^ 32" "pt_num_regions pt = of_nat (card R)"
    using assms(1) by (auto simp: pt_rep_def max_regions_def)
  have num: "unat (pt_num_regions pt) = card R" using ok(3,4) by (simp add: unat_of_nat)
  have "card R \<noteq> 0" using ok(2) False by simp
  then have n0: "pt_num_regions pt \<noteq> 0" using num by auto
  have m: "push_bit (pt_shift pt) 1 AND pt_mask pt = (push_bit (pt_shift pt) 1 :: u64)"
    using ok(1) by (intro bit_eqI) (auto simp: tbl_ok_def bit_and_iff bit_push_bit_iff bit_not_iff bit_mask_iff bit_exp_iff)
  obtain log where log: "ucs_pgtable_search_range rm pt (pt_base pt) (pt_base pt + push_bit (pt_shift pt) 1 - 1) = Some (Some log)"
      "set log = R" "distinct log"
    using search_span [OF assms] by blast
  obtain pt' where pt': "purge_remove rm log pt = Some pt'" "pt_rep rm pt' (R - set log)"
    using pgt.del_all [OF assms(1) log(3)] log(2) purge_remove_fold by auto
  then have "pt_rep rm pt' {}" using log(2) by simp
  moreover have "length log = card R" using log(2,3) distinct_card by fastforce
  ultimately have "ucs_pgtable_purge rm True pt = Some (Some (pt', log))"
    using n0 assms(2) m log(1) num pt'(1) rep_empty_root [of rm pt']
    by (simp add: ucs_pgtable_purge_def purge_out_def pgt_consts Let_def)
  then show ?thesis using \<open>pt_rep rm pt' {}\<close> log(2,3) by blast
qed

section \<open>Ranges for which the search goes wrong\<close>

text \<open>The loop never leaves the addresses up to the last sixteenth when the range ends in it.\<close>

lemma loop_closed:
  assumes "16 dvd unat a" "unat a \<le> 15 * 2 ^ 60" "16 dvd unat e" "unat e \<noteq> 0" "unat e < 15 * 2 ^ 60"
    and "ucs_pgtable_get_next_page_order a e = Some n"
  shows "n \<le> 60 \<and> 16 dvd unat (a + push_bit n 1) \<and> unat (a + push_bit n 1) \<le> 15 * 2 ^ 60"
proof -
  have "a \<noteq> 0 \<or> e \<noteq> 0" using assms(4) by auto
  then obtain m where "ucs_pgtable_get_next_page_order a e = Some m" "4 \<le> m" "m \<le> 60" "4 dvd m" "2 ^ m dvd unat a"
      "a \<noteq> e \<longrightarrow> (\<forall>k. 4 dvd k \<longrightarrow> 2 ^ k dvd unat a \<longrightarrow> 2 ^ k \<le> unat (e - a) \<longrightarrow> k \<le> m)"
    using next_page_order_any [OF assms(1,3)] by blast
  then have n: "4 \<le> n" "n \<le> 60" "2 ^ n dvd unat a"
      "a \<noteq> e \<longrightarrow> (\<forall>k. 4 dvd k \<longrightarrow> 2 ^ k dvd unat a \<longrightarrow> 2 ^ k \<le> unat (e - a) \<longrightarrow> k \<le> n)"
    using assms(6) by simp_all
  have p: "unat (push_bit n 1 :: u64) = 2 ^ n" using unat_page_size n(2) by simp
  have "2 ^ 4 dvd unat (push_bit n 1 :: u64)" unfolding p using n(1) by (rule le_imp_power_dvd)
  then have "16 dvd unat (a + push_bit n 1)" using dvd_unat_add [of 4 a "push_bit n 1"] assms(1) by simp
  moreover have "unat (a + push_bit n 1) \<le> 15 * 2 ^ 60"
  proof (cases "unat a = 15 * 2 ^ 60")
    case False
    then have le: "unat a + 2 ^ n \<le> 15 * 2 ^ 60" using below_limit [OF n(3,2)] assms(2) by simp
    then show ?thesis using unat_page_end [of a n search_limit] n(2) search_limit_nat by simp
  next
    case True
    have "\<not> a \<le> e" using True assms(5) by (simp add: word_le_nat_alt)
    then have "unat (e - a) = unat e + 2 ^ 64 - unat a" by (simp add: unat_sub_if' word_le_nat_alt)
    then have d: "2 ^ 60 \<le> unat (e - a)" "a \<noteq> e" using True assms(5) by auto
    have "(2::nat) ^ 60 dvd unat a" using True by simp
    then have "60 \<le> n" using n(4) d by simp
    then have "n = 60" using n(2) by simp
    then have "unat (a + push_bit n 1) = 0" using True p by (simp add: unat_word_ariths)
    then show ?thesis by simp
  qed
  ultimately show ?thesis using n(2) by blast
qed

text \<open>The arguments of a loop that stays below the end of its range.\<close>

definition stuck :: "u64 \<Rightarrow> u64 \<Rightarrow> u64 \<Rightarrow> bool" where
  "stuck to e a \<longleftrightarrow> 16 dvd unat a \<and> unat a \<le> 15 * 2 ^ 60 \<and> 16 dvd unat e \<and> unat e \<noteq> 0 \<and> unat e < 15 * 2 ^ 60 \<and>
     search_limit \<le> to"

lemma stuck_step:
  assumes "stuck to e a"
  obtains n where "a \<le> to" "ucs_pgtable_get_next_page_order a e = Some n" "n \<noteq> UCS_PGT_ADDR_ORDER"
    "ucs_pgt_address_advance a n = Some (a + push_bit n 1)" "stuck to e (a + push_bit n 1)"
proof -
  have h: "16 dvd unat a" "unat a \<le> 15 * 2 ^ 60" "16 dvd unat e" "unat e \<noteq> 0" "unat e < 15 * 2 ^ 60" "search_limit \<le> to"
    using assms by (auto simp: stuck_def)
  have "a \<le> to" using h(2,6) search_limit_nat by (simp add: word_le_nat_alt)
  moreover have "a \<noteq> 0 \<or> e \<noteq> 0" using h(4) by auto
  then obtain n where n: "ucs_pgtable_get_next_page_order a e = Some n" using next_page_order_any [OF h(1,3)] by blast
  moreover note c = loop_closed [OF h(1-5) n]
  ultimately show ?thesis using that [of n] advance_ok [of n a] h by (simp add: pgt_consts stuck_def)
qed

text \<open>Such a loop can only end with a failing assertion, and on an empty table no assertion can fail.\<close>

lemma search_pages_no_result:
  assumes "search_pages rm pt to e a s = Some y" "stuck to e a"
  shows "y = None \<and> pt_root pt \<noteq> Pte_none"
proof -
  have "stuck to e a \<longrightarrow> y = None \<and> pt_root pt \<noteq> Pte_none"
  proof (rule search_pages.raw_induct [where P = "\<lambda>rm pt to e a s y. stuck to e a \<longrightarrow> y = None \<and> pt_root pt \<noteq> Pte_none", OF _ assms(1)])
    fix f :: "region_mem \<Rightarrow> ucs_pgtable \<Rightarrow> u64 \<Rightarrow> u64 \<Rightarrow> u64 \<Rightarrow> nat option \<times> nat list \<Rightarrow> nat list option option"
      and rm pt to e a s y
    assume IH: "\<And>rm pt to e a s y. f rm pt to e a s = Some y \<Longrightarrow> stuck to e a \<longrightarrow> y = None \<and> pt_root pt \<noteq> Pte_none"
      and body: "(if a \<le> to then
        case ucs_pgtable_get_next_page_order a e of
          None \<Rightarrow> Some None
        | Some order \<Rightarrow>
          (case (if a AND pt_mask pt = pt_base pt
                 then ucs_pgtable_search_recurs rm a order (pt_root pt) (pt_shift pt) s else Some s) of
             None \<Rightarrow> Some None
           | Some s1 \<Rightarrow>
               if order = UCS_PGT_ADDR_ORDER then Some (Some (snd s1))
               else (case ucs_pgt_address_advance a order of
                       None \<Rightarrow> Some None
                     | Some address1 \<Rightarrow> f rm pt to e address1 s1))
      else Some (Some (snd s))) = Some y"
    show "stuck to e a \<longrightarrow> y = None \<and> pt_root pt \<noteq> Pte_none"
    proof
      assume st: "stuck to e a"
      obtain n where n: "a \<le> to" "ucs_pgtable_get_next_page_order a e = Some n" "n \<noteq> UCS_PGT_ADDR_ORDER"
          "ucs_pgt_address_advance a n = Some (a + push_bit n 1)" "stuck to e (a + push_bit n 1)"
        using stuck_step [OF st] by blast
      define r where "r = (if a AND pt_mask pt = pt_base pt
        then ucs_pgtable_search_recurs rm a n (pt_root pt) (pt_shift pt) s else Some s)"
      show "y = None \<and> pt_root pt \<noteq> Pte_none"
      proof (cases r)
        case None
        moreover have "pt_root pt \<noteq> Pte_none" using None by (auto simp: r_def split: if_splits)
        ultimately show ?thesis using body n(1,2) by (simp add: r_def)
      next
        case (Some s1)
        then have "f rm pt to e (a + push_bit n 1) s1 = Some y" using body n(1-4) by (simp add: r_def)
        then show ?thesis using IH n(5) by blast
      qed
    qed
  qed
  then show ?thesis using assms(2) by blast
qed

lemma stuck_start:
  assumes "tbl_ok pt" "pt_shift pt < 64" "unat (pt_base pt) + 2 ^ pt_shift pt < 15 * 2 ^ 60"
    and "from \<le> search_limit" "search_limit \<le> to" "to \<le> - 16"
  shows "stuck to (min (ucs_align_up_pow2 to UCS_PGT_ADDR_ALIGN) (pt_base pt + push_bit (pt_shift pt) 1))
    (max (ucs_align_down_pow2 from UCS_PGT_ADDR_ALIGN) (pt_base pt))"
proof -
  define e where "e = pt_base pt + push_bit (pt_shift pt) 1"
  have e: "unat e = unat (pt_base pt) + 2 ^ pt_shift pt" using span_nat [OF assms(1,2)] assms(3) by (simp add: e_def)
  have "unat (- 16 :: u64) = 2 ^ 64 - 16" by simp
  then have "unat to + 15 < 2 ^ 64" using assms(6) by (simp add: word_le_nat_alt)
  then have "unat (ucs_align_up_pow2 to UCS_PGT_ADDR_ALIGN) = (unat to + 15) div 16 * 16" by (rule align_up_nat)
  moreover have "unat to \<le> (unat to + 15) div 16 * 16" by presburger
  moreover have "15 * 2 ^ 60 \<le> unat to" using assms(5) search_limit_nat by (simp add: word_le_nat_alt)
  ultimately have "\<not> ucs_align_up_pow2 to UCS_PGT_ADDR_ALIGN \<le> e" using e assms(3) by (simp add: word_le_nat_alt)
  then have "min (ucs_align_up_pow2 to UCS_PGT_ADDR_ALIGN) e = e" by (simp add: min_def)
  moreover have "unat (max (ucs_align_down_pow2 from UCS_PGT_ADDR_ALIGN) (pt_base pt)) = max (unat from div 16 * 16) (unat (pt_base pt))"
    by (simp add: max_def word_le_nat_alt align_down_nat)
  moreover have "unat from div 16 * 16 \<le> 15 * 2 ^ 60"
    using assms(4) search_limit_nat div_times_less_eq_dividend [of "unat from" 16] by (simp add: word_le_nat_alt)
  ultimately show ?thesis
    using e assms(3,5) span_16 [OF assms(1)] unfolding e_def [symmetric] by (auto simp: stuck_def max_def)
qed

end
