(* ===== verification/Pgt_Props.thy ===== *)
theory Pgt_Props
  imports Pgt_Purge
begin

text \<open>
  The page table against its specification, a set of disjoint regions, for every table that a sequence of
  operations can build.
\<close>

section \<open>Specification and runs\<close>

definition spec_insert :: "region_mem \<Rightarrow> nat set \<Rightarrow> nat \<Rightarrow> ucs_status \<times> nat set" where
  "spec_insert rm R r =
     (if \<not> region_ok rm r then (UCS_ERR_INVALID_PARAM, R)
      else if \<exists>r'\<in>R. overlap rm r r' then (UCS_ERR_ALREADY_EXISTS, R)
      else (UCS_OK, insert r R))"

inductive pt_run :: "region_mem \<Rightarrow> ucs_pgtable \<Rightarrow> nat set \<Rightarrow> bool" for rm where
  run_init: "pt_run rm (snd (ucs_pgtable_init pt)) {}"
| run_insert: "pt_run rm pt R \<Longrightarrow> card R + 1 < max_regions \<Longrightarrow> ucs_pgtable_insert rm pt r = Some (st, pt') \<Longrightarrow>
    pt_run rm pt' (snd (spec_insert rm R r))"
| run_remove: "pt_run rm pt R \<Longrightarrow> r \<in> R \<Longrightarrow> ucs_pgtable_remove rm pt r = Some (st, pt') \<Longrightarrow> pt_run rm pt' (R - {r})"
| run_purge: "pt_run rm pt R \<Longrightarrow> pt_shift pt < 64 \<Longrightarrow> ucs_pgtable_purge rm True pt = Some (Some (pt', log)) \<Longrightarrow>
    pt_run rm pt' {}"

lemma insert_spec:
  assumes "pt_rep rm pt R" "card R + 1 < max_regions"
  shows "\<exists>pt'. ucs_pgtable_insert rm pt r = Some (fst (spec_insert rm R r), pt') \<and> pt_rep rm pt' (snd (spec_insert rm R r))"
  using pgt.ins_cases [OF assms, of r] unfolding spec_insert_def overlap_def by (auto split: if_splits)

lemma pt_run_rep: "pt_run rm pt R \<Longrightarrow> pt_rep rm pt R"
proof (induction rule: pt_run.induct)
  case (run_init pt)
  then show ?case by (rule rep_init)
next
  case (run_insert pt R r st pt')
  then show ?case using insert_spec [of rm pt R r] by auto
next
  case (run_remove pt R r st pt')
  then show ?case using remove_member [of rm pt R r] by auto
next
  case (run_purge pt R pt' log)
  then show ?case using purge_ok [of rm pt R] by auto
qed

lemma lookup_cong:
  assumes "pt_rep rm pt R" "pt_rep rm pt' R"
  shows "ucs_pgtable_lookup rm pt' a = ucs_pgtable_lookup rm pt a"
  using pgt.look_member [OF assms(1), of _ a] pgt.look_member [OF assms(2), of _ a]
    pgt.look_nothing [OF assms(1), of a] pgt.look_nothing [OF assms(2), of a] by metis

lemma num_regions_rep: "pt_rep rm pt R \<Longrightarrow> ucs_pgtable_num_regions pt = of_nat (card R)"
  by (simp add: pt_rep_def ucs_pgtable_num_regions_def)

section \<open>A sample table\<close>

definition sample_rm :: region_mem where
  "sample_rm r = [\<lparr>rg_start = 0, rg_end = 0x10\<rparr>, \<lparr>rg_start = 0x20, rg_end = 0x40\<rparr>, \<lparr>rg_start = 0x30, rg_end = 0x50\<rparr>,
     \<lparr>rg_start = 0x8000000000000000, rg_end = 0x8000000000000010\<rparr>] ! r"

definition sample_pt0 :: ucs_pgtable where
  "sample_pt0 = snd (ucs_pgtable_init \<lparr>pt_root = Pte_none, pt_base = 0, pt_mask = 0, pt_shift = 0, pt_num_regions = 0\<rparr>)"

definition sample_pt1 :: ucs_pgtable where
  "sample_pt1 = snd (the (ucs_pgtable_insert sample_rm sample_pt0 0))"

definition sample_pt2 :: ucs_pgtable where
  "sample_pt2 = snd (the (ucs_pgtable_insert sample_rm sample_pt1 1))"

definition sample_pt3 :: ucs_pgtable where
  "sample_pt3 = snd (the (ucs_pgtable_insert sample_rm sample_pt2 3))"

lemma sample_inserts:
  "ucs_pgtable_insert sample_rm sample_pt0 0 = Some (UCS_OK, sample_pt1)"
  "ucs_pgtable_insert sample_rm sample_pt1 1 = Some (UCS_OK, sample_pt2)"
  "pt_shift sample_pt2 = 8" "pt_base sample_pt2 = 0"
  "ucs_pgtable_insert sample_rm sample_pt2 3 = Some (UCS_OK, sample_pt3)"
  "pt_shift sample_pt3 = 64"
  by code_simp+

lemma sample_overlap: "\<not> overlap sample_rm 1 0" "overlap sample_rm 2 1" "\<not> overlap sample_rm 2 0"
proof -
  show "\<not> overlap sample_rm 1 0" "\<not> overlap sample_rm 2 0"
    by (auto simp: overlap_def region_has_def sample_rm_def word_le_nat_alt word_less_nat_alt)
  show "overlap sample_rm 2 1"
    unfolding overlap_def by (rule exI [of _ "0x30"]) (simp add: region_has_def sample_rm_def)
qed

lemma sample_regions: "region_ok sample_rm 0" "region_ok sample_rm 1" "region_ok sample_rm 2"
  by (simp_all add: region_ok_def sample_rm_def aligned_dvd)

lemma sample_spec:
  "spec_insert sample_rm {} 0 = (UCS_OK, {0})"
  "spec_insert sample_rm {0} 1 = (UCS_OK, {0, 1})"
  "spec_insert sample_rm {0, 1} 2 = (UCS_ERR_ALREADY_EXISTS, {0, 1})"
  using sample_overlap sample_regions by (auto simp: spec_insert_def)

lemma sample_run1: "pt_run sample_rm sample_pt1 {0}"
proof -
  have "pt_run sample_rm sample_pt0 {}" unfolding sample_pt0_def by (rule run_init)
  from run_insert [OF this _ sample_inserts(1)] show ?thesis by (simp add: sample_spec(1) max_regions_def)
qed

lemma sample_run2: "pt_run sample_rm sample_pt2 {0, 1}"
  using run_insert [OF sample_run1 _ sample_inserts(2)] by (simp add: sample_spec(2) max_regions_def del: One_nat_def)

lemma sample_room: "card {0, 1 :: nat} + 1 < max_regions"
  by (simp add: max_regions_def)

section \<open>Properties\<close>

text \<open>C6: A page table is a set of disjoint memory regions: inserting a region succeeds exactly when it is
  aligned, not empty and apart from every region of the table, and fails with the documented status otherwise;
  a region of the table can be removed; and looking up an address finds the region that has it, and nothing
  when there is none.\<close>

theorem pgtable_refines:
  assumes "pt_run rm pt R" "card R + 1 < max_regions"
  shows "(\<exists>pt'. ucs_pgtable_insert rm pt r = Some (fst (spec_insert rm R r), pt') \<and> pt_run rm pt' (snd (spec_insert rm R r))) \<and>
    (r \<in> R \<longrightarrow> (\<exists>pt'. ucs_pgtable_remove rm pt r = Some (UCS_OK, pt') \<and> pt_run rm pt' (R - {r}))) \<and>
    (ucs_pgtable_lookup rm pt a = Some (Some r) \<longleftrightarrow> r \<in> R \<and> rg_start (rm r) \<le> a \<and> a < rg_end (rm r)) \<and>
    ucs_pgtable_lookup rm pt a \<noteq> None"
proof -
  note rep = pt_run_rep [OF assms(1)]
  obtain pt' where "ucs_pgtable_insert rm pt r = Some (fst (spec_insert rm R r), pt')" using insert_spec [OF rep assms(2)] by blast
  moreover have "pt_run rm pt' (snd (spec_insert rm R r))" using run_insert [OF assms] calculation by blast
  moreover have "\<exists>pt'. ucs_pgtable_remove rm pt r = Some (UCS_OK, pt') \<and> pt_run rm pt' (R - {r})" if "r \<in> R"
    using pgt.del_member [OF rep that] run_remove [OF assms(1) that] by blast
  ultimately show ?thesis
    using pgt.look_iff [OF rep, of a r] pgt.look_total [OF rep, of a] unfolding region_has_def by blast
qed

theorem pgtable_refines_witness:
  "(\<exists>pt'. ucs_pgtable_insert sample_rm sample_pt2 2 = Some (UCS_ERR_ALREADY_EXISTS, pt') \<and> pt_run sample_rm pt' {0, 1}) \<and>
   (\<exists>pt'. ucs_pgtable_remove sample_rm sample_pt2 1 = Some (UCS_OK, pt')) \<and>
   ucs_pgtable_lookup sample_rm sample_pt2 0x25 = Some (Some 1)"
  using pgtable_refines [OF sample_run2 sample_room, of 2 0] pgtable_refines [OF sample_run2 sample_room, of 1 "0x25"]
  by (auto simp: sample_spec(3) sample_rm_def simp del: One_nat_def)

text \<open>C13: Inserting a region that overlaps one in the table changes nothing, although some of its pages may
  already have been inserted when the overlap is found: every address is mapped as before, and so is the
  number of regions.\<close>

theorem pgtable_failed_insert_unchanged:
  assumes "pt_run rm pt R" "card R + 1 < max_regions" "ucs_pgtable_insert rm pt r = Some (st, pt')" "st \<noteq> UCS_OK"
  shows "ucs_pgtable_lookup rm pt' a = ucs_pgtable_lookup rm pt a \<and>
    ucs_pgtable_num_regions pt' = ucs_pgtable_num_regions pt"
proof -
  note rep = pt_run_rep [OF assms(1)]
  have "pt_rep rm pt' (snd (spec_insert rm R r))" "st = fst (spec_insert rm R r)"
    using insert_spec [OF rep assms(2), of r] assms(3) by auto
  then have "pt_rep rm pt' R" using assms(4) by (auto simp: spec_insert_def split: if_splits)
  then show ?thesis using lookup_cong [OF rep] num_regions_rep rep by metis
qed

theorem pgtable_failed_insert_unchanged_witness:
  "\<exists>pt'. ucs_pgtable_insert sample_rm sample_pt2 2 = Some (UCS_ERR_ALREADY_EXISTS, pt') \<and>
     ucs_pgtable_lookup sample_rm pt' 0x45 = ucs_pgtable_lookup sample_rm sample_pt2 0x45"
  using insert_spec [OF pt_run_rep [OF sample_run2] sample_room, of 2]
    pgtable_failed_insert_unchanged [OF sample_run2 sample_room, of 2 UCS_ERR_ALREADY_EXISTS _ "0x45"]
  by (auto simp: sample_spec(3) simp del: One_nat_def)

text \<open>C24: Removing a region right after it was inserted gives back a table that maps every address as before.\<close>

theorem pgtable_insert_remove:
  assumes "pt_run rm pt R" "card R + 1 < max_regions" "ucs_pgtable_insert rm pt r = Some (UCS_OK, pt1)"
  shows "\<exists>pt2. ucs_pgtable_remove rm pt1 r = Some (UCS_OK, pt2) \<and>
    (\<forall>a. ucs_pgtable_lookup rm pt2 a = ucs_pgtable_lookup rm pt a) \<and>
    ucs_pgtable_num_regions pt2 = ucs_pgtable_num_regions pt"
proof -
  note rep = pt_run_rep [OF assms(1)]
  have sp: "pt_rep rm pt1 (snd (spec_insert rm R r))" "fst (spec_insert rm R r) = UCS_OK"
    using insert_spec [OF rep assms(2), of r] assms(3) by auto
  then have r1: "pt_rep rm pt1 (insert r R)" and no: "\<forall>r'\<in>R. \<not> overlap rm r r'" and ok: "region_ok rm r"
    by (auto simp: spec_insert_def split: if_splits)
  have "overlap rm r r" using ok unfolding overlap_def region_has_def region_ok_def by auto
  then have "r \<notin> R" using no by blast
  then have "insert r R - {r} = R" by simp
  then obtain pt2 where "ucs_pgtable_remove rm pt1 r = Some (UCS_OK, pt2)" "pt_rep rm pt2 R"
    using remove_member [OF r1, of r] by auto
  then show ?thesis using lookup_cong [OF rep] num_regions_rep rep by metis
qed

theorem pgtable_insert_remove_witness:
  "\<exists>pt2. ucs_pgtable_remove sample_rm sample_pt2 1 = Some (UCS_OK, pt2) \<and>
     ucs_pgtable_lookup sample_rm pt2 0x25 = ucs_pgtable_lookup sample_rm sample_pt1 0x25"
proof -
  have "card {0 :: nat} + 1 < max_regions" by (simp add: max_regions_def)
  from pgtable_insert_remove [OF sample_run1 this sample_inserts(2)] show ?thesis by blast
qed

text \<open>C12: The search for the regions that overlap a range of addresses returns for every range that ends
  below the last sixteenth of the address space and is not the single address 0: it reports the regions with
  an address in the range, each once, in ascending order.\<close>

theorem pgtable_search_returns:
  assumes "pt_run rm pt R" "from \<le> to" "to \<noteq> 0" "to < 0xF000000000000000"
  shows "\<exists>log. ucs_pgtable_search_range rm pt from to = Some (Some log) \<and>
    set log = {r \<in> R. \<exists>a. from \<le> a \<and> a \<le> to \<and> rg_start (rm r) \<le> a \<and> a < rg_end (rm r)} \<and>
    distinct log \<and> sorted_wrt (\<lambda>r r'. rg_end (rm r) \<le> rg_start (rm r')) log"
proof -
  note rep = pt_run_rep [OF assms(1)]
  obtain log where log: "ucs_pgtable_search_range rm pt from to = Some (Some log)" "search_result rm R from to log"
    using search_range_ok [OF rep assms(2,3)] assms(4) by (auto simp: search_limit_def)
  have pos: "rg_start (rm r) < rg_end (rm r)" if "r \<in> R" for r using rep that by (auto simp: pt_rep_def region_ok_def)
  have s: "sorted_wrt (\<lambda>r r'. rg_end (rm r) \<le> rg_start (rm r')) log" "set log \<subseteq> R"
    using log(2) by (auto simp: search_result_def)
  have "sorted_wrt (\<noteq>) log"
  proof (rule sorted_wrt_mono_rel [OF _ s(1)])
    fix r r' assume "r \<in> set log" "rg_end (rm r) \<le> rg_start (rm r')"
    then show "r \<noteq> r'" using pos [of r] s(2) by auto
  qed
  then show ?thesis using log by (auto simp: search_result_def region_has_def sorted_wrt_neq)
qed

theorem pgtable_search_returns_witness:
  "\<exists>log. ucs_pgtable_search_range sample_rm sample_pt2 0x25 0x1000 = Some (Some log) \<and> 1 \<in> set log \<and> 0 \<notin> set log"
proof -
  obtain log where log: "ucs_pgtable_search_range sample_rm sample_pt2 0x25 0x1000 = Some (Some log)"
      "set log = {r \<in> {0, 1}. \<exists>a. 0x25 \<le> a \<and> a \<le> 0x1000 \<and> rg_start (sample_rm r) \<le> a \<and> a < rg_end (sample_rm r)}"
    using pgtable_search_returns [OF sample_run2, of "0x25" "0x1000"] by auto
  have "(0x25::u64) \<le> 0x25 \<and> (0x25::u64) \<le> 0x1000 \<and> rg_start (sample_rm 1) \<le> 0x25 \<and> 0x25 < rg_end (sample_rm 1)"
    by (simp add: sample_rm_def)
  then have "1 \<in> set log" unfolding log(2) by blast
  moreover have "0 \<notin> set log" unfolding log(2) by (auto simp: sample_rm_def word_le_nat_alt word_less_nat_alt)
  ultimately show ?thesis using log(1) by blast
qed

text \<open>C15: Purging a table that covers less than the whole address space calls the callback once for every
  region, removes them all and leaves the table in its initial state, and none of the assertions of the
  function fails.  On a table that covers the whole address space the function shifts a 64-bit value by 64,
  which is undefined.\<close>

theorem pgtable_purge_empties:
  assumes "pt_run rm pt R"
  shows "(pt_shift pt < 64 \<longrightarrow> (\<exists>pt' log. ucs_pgtable_purge rm True pt = Some (Some (pt', log)) \<and> pt_run rm pt' {} \<and>
      set log = R \<and> distinct log \<and> pt_root pt' = Pte_none \<and> pt_shift pt' = 4 \<and> pt_base pt' = 0 \<and> pt_num_regions pt' = 0)) \<and>
    (\<not> pt_shift pt < 64 \<and> R \<noteq> {} \<longrightarrow> ucs_pgtable_purge rm True pt = Some None)"
proof -
  note rep = pt_run_rep [OF assms]
  have "\<exists>pt' log. ucs_pgtable_purge rm True pt = Some (Some (pt', log)) \<and> pt_run rm pt' {} \<and> set log = R \<and> distinct log \<and>
      pt_root pt' = Pte_none \<and> pt_shift pt' = 4 \<and> pt_base pt' = 0 \<and> pt_num_regions pt' = 0" if "pt_shift pt < 64"
    using purge_ok [OF rep that] run_purge [OF assms that] rep_empty_root by metis
  moreover have "ucs_pgtable_purge rm True pt = Some None" if "\<not> pt_shift pt < 64" "R \<noteq> {}"
  proof -
    have "finite R" "card R < 2 ^ 32" "pt_num_regions pt = of_nat (card R)" using rep by (auto simp: pt_rep_def max_regions_def)
    then have "pt_num_regions pt \<noteq> 0" using of_nat_eq_0_small [of "card R", where ?'a = 32] that(2) by simp
    then show ?thesis using that(1) by (simp add: ucs_pgtable_purge_def)
  qed
  ultimately show ?thesis by (intro conjI impI) simp_all
qed

theorem pgtable_purge_empties_witness:
  "(\<exists>pt' log. ucs_pgtable_purge sample_rm True sample_pt2 = Some (Some (pt', log)) \<and> set log = {0, 1}) \<and>
   ucs_pgtable_purge sample_rm True sample_pt3 = Some None"
proof -
  have "pt_run sample_rm sample_pt3 (snd (spec_insert sample_rm {0, 1} 3))"
    using run_insert [OF sample_run2 sample_room sample_inserts(5)] .
  moreover have "snd (spec_insert sample_rm {0, 1} 3) \<noteq> {}" by (simp add: spec_insert_def)
  ultimately show ?thesis
    using pgtable_purge_empties [OF sample_run2] pgtable_purge_empties [of sample_rm sample_pt3] sample_inserts(3,6) by auto
qed

text \<open>C26: The shape of every table that the operations can build: the root covers \<open>2 ^ shift\<close> bytes from an
  aligned base with a shift between 4 and 64 in steps of 4, every directory has 16 entries, at least one of them
  present, and a counter that is the number of the present ones; the table counts its regions, and a table
  without regions is in its initial state.\<close>

theorem pgtable_shape:
  assumes "pt_run rm pt R"
  shows "4 \<le> pt_shift pt \<and> pt_shift pt \<le> 64 \<and> 4 dvd pt_shift pt \<and> pt_mask pt = push_bit (pt_shift pt) (- 1) \<and>
    2 ^ pt_shift pt dvd unat (pt_base pt) \<and> wf_pte (pt_shift pt) (pt_root pt) \<and>
    pt_num_regions pt = of_nat (card R) \<and> (pt_root pt = Pte_none \<longrightarrow> pt_shift pt = 4 \<and> pt_base pt = 0)"
  using pt_run_rep [OF assms] by (simp add: pt_rep_def tbl_ok_def tbl_norm_def)

theorem pgtable_shape_witness: "wf_pte 8 (pt_root sample_pt2) \<and> pt_num_regions sample_pt2 = 2"
  using pgtable_shape [OF sample_run2] sample_inserts(3) by simp



text \<open>C37: Searching the single address 0 reports every region of a table that starts at address 0, not only
  the one that has the address: a range that starts and ends at 0 is taken for the whole address space.\<close>

theorem pgtable_search_zero_reports_all:
  assumes "pt_run rm pt R" "pt_base pt = 0" "pt_shift pt < 64"
  shows "\<exists>log. ucs_pgtable_search_range rm pt 0 0 = Some (Some log) \<and> set log = R"
proof -
  note rep = pt_run_rep [OF assms(1)]
  have ok: "tbl_ok pt" "wf_pte (pt_shift pt) (pt_root pt)" using rep by (auto simp: pt_rep_def tbl_ok_def)
  have h: "holds_part pt 0 (pt_shift pt) (pt_root pt)" using root_holds [OF ok(1)] assms(2) by simp
  have le: "(2::nat) ^ pt_shift pt \<le> 2 ^ 64" using assms(3) by (intro power_increasing) simp_all
  have "\<exists>st. ucs_pgtable_search_recurs rm 0 64 (pt_root pt) (pt_shift pt) (None, []) = Some st \<and>
      found rm R 0 (0 + 2 ^ pt_shift pt) st"
    using search_whole [OF ok(2) h found_start rep, of 64 0] assms(3) le by simp
  then obtain st where st: "ucs_pgtable_search_recurs rm 0 64 (pt_root pt) (pt_shift pt) (None, []) = Some st"
      "found rm R 0 (2 ^ pt_shift pt) st" by auto
  have o: "ucs_pgtable_get_next_page_order 0 0 = Some 64"
    by (simp add: ucs_pgtable_get_next_page_order_def ucs_pgt_is_addr_aligned_def pgt_consts)
  have "ucs_align_up_pow2 0 UCS_PGT_ADDR_ALIGN = 0" "ucs_align_down_pow2 0 UCS_PGT_ADDR_ALIGN = 0"
    by (simp_all add: ucs_align_up_pow2_def ucs_align_down_pow2_def pgt_consts)
  then have "ucs_pgtable_search_range rm pt 0 0 = search_pages rm pt 0 0 0 (None, [])"
    using assms(2,3) by (simp add: ucs_pgtable_search_range_def Let_def min_def max_def)
  also have "\<dots> = Some (Some (snd st))"
    using o st(1) assms(2) search_pages.simps [of rm pt 0 0 0 "(None, [])"] by (simp add: pgt_consts)
  finally show ?thesis using all_in_order [OF rep, of st] st(2) assms(2) by simp
qed

theorem pgtable_search_zero_reports_all_witness:
  "\<exists>log. ucs_pgtable_search_range sample_rm sample_pt2 0 0 = Some (Some log) \<and> set log = {0, 1}"
  using pgtable_search_zero_reports_all [OF sample_run2] sample_inserts(3,4) by simp

end
