(* ===== verification/String_Distance.thy ===== *)
theory String_Distance
  imports Status
begin

text \<open>
  The edit distance of \<^verbatim>\<open>src/src/ucs/algorithm/string_distance.c\<close>, which finds misspelled
  variable names.  A string is the list of its characters before the terminating zero.  The array comes from
  the stack and is not initialised, so its first contents are an argument; its numbers are 64-bit words.
  Taking it from the stack asserts that it is small enough; \<open>None\<close> is a failed assertion.
\<close>

section \<open>Definitions\<close>

type_synonym distances = "u64 list"

text \<open>The body of the inner loop, on the array and \<^verbatim>\<open>distance_prev\<close>.\<close>

definition distance_cell :: "string \<Rightarrow> char \<Rightarrow> nat \<Rightarrow> distances \<times> u64 \<Rightarrow> distances \<times> u64" where
  "distance_cell str1 c j = (\<lambda>(distances, distance_prev).
     let distance_backup = distances ! j;
         min_prev = min (distances ! j + 1) (distances ! (j - 1) + 1);
         addition = (if str1 ! (j - 1) \<noteq> c then 1 else 0)
     in (distances[j := min min_prev (distance_prev + addition)], distance_backup))"

text \<open>The body of the outer loop.\<close>

definition distance_row :: "string \<Rightarrow> string \<Rightarrow> nat \<Rightarrow> distances \<Rightarrow> distances" where
  "distance_row str1 str2 i distances =
     fst (fold (distance_cell str1 (str2 ! (i - 1))) [1..<length str1 + 1]
       (distances[0 := of_nat i], of_nat i - 1))"

definition distance_init :: "nat \<Rightarrow> distances \<Rightarrow> distances" where
  "distance_init len1 distances =
     fold (\<lambda>j d. d[j := of_nat j]) [1..<len1 + 1] (distances[len1 := of_nat len1])"

definition UCS_ALLOCA_MAX_SIZE :: nat where
  "UCS_ALLOCA_MAX_SIZE = 1200"

definition ucs_string_distance :: "distances \<Rightarrow> string \<Rightarrow> string \<Rightarrow> u64 option" where
  "ucs_string_distance distances str1 str2 = do {
     ucs_assert (8 * (length str1 + 1) \<le> UCS_ALLOCA_MAX_SIZE);
     Some (fold (distance_row str1 str2) [1..<length str2 + 1] (distance_init (length str1) distances) ! length str1)
   }"

section \<open>The specification: the least number of edits\<close>

inductive edit :: "'a list \<Rightarrow> 'a list \<Rightarrow> bool" where
  edit_insert: "edit (xs @ ys) (xs @ c # ys)"
| edit_delete: "edit (xs @ c # ys) (xs @ ys)"
| edit_replace: "edit (xs @ c # ys) (xs @ c' # ys)"

inductive edits :: "nat \<Rightarrow> 'a list \<Rightarrow> 'a list \<Rightarrow> bool" where
  edits_none: "edits 0 xs xs"
| edits_step: "edit xs ys \<Longrightarrow> edits n ys zs \<Longrightarrow> edits (Suc n) xs zs"

fun lev :: "'a list \<Rightarrow> 'a list \<Rightarrow> nat" where
  "lev [] ys = length ys"
| "lev xs [] = length xs"
| "lev (x # xs) (y # ys) =
     min (min (lev (x # xs) ys + 1) (lev xs (y # ys) + 1)) (lev xs ys + (if x = y then 0 else 1))"

section \<open>The recursion counts edits\<close>

lemma lev_nil [simp]: "lev xs [] = length xs"
  by (cases xs) auto

lemma lev_drop_left: "lev (x # xs) ys \<le> lev xs ys + 1"
  by (cases ys) auto

lemma lev_drop_right: "lev xs (y # ys) \<le> lev xs ys + 1"
  by (cases xs) auto

lemma lev_add_left: "lev xs ys \<le> lev (x # xs) ys + 1"
proof (induction ys)
  case (Cons y ys)
  then show ?case using lev_drop_right [of xs y ys] by auto
qed auto

lemma lev_replace_left: "lev (x # xs) ys \<le> lev (z # xs) ys + 1"
proof (induction ys)
  case (Cons y ys)
  then show ?case by auto
qed auto

lemma lev_cons_cong:
  assumes "\<And>ys. lev as ys \<le> lev bs ys + 1"
  shows "lev (p # as) ys \<le> lev (p # bs) ys + 1"
proof (induction ys)
  case Nil
  then show ?case using assms [of "[]"] by simp
next
  case (Cons y ys)
  then show ?case using assms [of ys] assms [of "y # ys"] by auto
qed

lemma lev_prefix_cong: "(\<And>ys. lev as ys \<le> lev bs ys + 1) \<Longrightarrow> lev (p @ as) ys \<le> lev (p @ bs) ys + 1"
  by (induction p arbitrary: ys) (auto intro: lev_cons_cong [simplified])

lemma lev_edit: "edit as bs \<Longrightarrow> lev as ys \<le> lev bs ys + 1"
  by (induction rule: edit.induct)
    (rule lev_prefix_cong, rule lev_add_left lev_drop_left lev_replace_left)+

lemma lev_same [simp]: "lev xs xs = 0"
  by (induction xs) auto

lemma lev_least: "edits n xs ys \<Longrightarrow> lev xs ys \<le> n"
proof (induction rule: edits.induct)
  case (edits_step xs ys n zs)
  then show ?case using lev_edit [of xs ys zs] by simp
qed simp

lemma edit_cons: "edit xs ys \<Longrightarrow> edit (z # xs) (z # ys)"
proof (induction rule: edit.induct)
  case (edit_insert xs ys c)
  then show ?case using edit.edit_insert [of "z # xs" ys c] by simp
next
  case (edit_delete xs c ys)
  then show ?case using edit.edit_delete [of "z # xs" c ys] by simp
next
  case (edit_replace xs c ys c')
  then show ?case using edit.edit_replace [of "z # xs" c ys c'] by simp
qed

lemma edits_cons: "edits n xs ys \<Longrightarrow> edits n (z # xs) (z # ys)"
  by (induction rule: edits.induct) (auto intro: edits.intros edit_cons)

lemma edits_delete: "edits n xs ys \<Longrightarrow> edits (Suc n) (x # xs) ys"
  using edits_step [OF edit_delete [of "[]" x xs, simplified]] by simp

lemma edits_insert_after: "edits n xs ys \<Longrightarrow> edits (Suc n) xs (y # ys)"
proof -
  assume "edits n xs ys"
  then have "edits n (y # xs) (y # ys)" by (rule edits_cons)
  then show ?thesis using edits_step [OF edit_insert [of "[]" xs y, simplified]] by simp
qed

lemma edits_replace: "edits n xs ys \<Longrightarrow> edits (Suc n) (x # xs) (y # ys)"
  using edits_step [OF edit_replace [of "[]" x xs y, simplified]] edits_cons by fastforce

lemma lev_reached: "edits (lev xs ys) xs ys"
proof (induction xs ys rule: lev.induct)
  case (1 ys)
  then show ?case by (induction ys) (auto intro: edits_none edits_insert_after)
next
  case (2 x xs)
  have "edits (length zs) zs []" for zs :: "'a list" by (induction zs) (auto intro: edits_none edits_delete)
  from this [of "x # xs"] show ?case by simp
next
  case (3 x xs y ys)
  then show ?case
    using edits_insert_after [OF 3(1), of y] edits_delete [OF 3(2), of x] edits_replace [OF 3(3), of x y] edits_cons [OF 3(3), of x]
    by (auto simp: min_def)
qed

lemma edit_rev: "edit xs ys \<Longrightarrow> edit (rev xs) (rev ys)"
  by (induction rule: edit.induct) (simp_all add: edit.intros)

lemma edits_rev: "edits n xs ys \<Longrightarrow> edits n (rev xs) (rev ys)"
  by (induction rule: edits.induct) (auto intro: edits.intros edit_rev)

section \<open>The array holds the distances of prefixes\<close>

definition prefix_lev :: "string \<Rightarrow> string \<Rightarrow> nat \<Rightarrow> nat \<Rightarrow> nat" where
  "prefix_lev s t i j = lev (rev (take j s)) (rev (take i t))"

lemma prefix_lev_nil [simp]: "j \<le> length s \<Longrightarrow> prefix_lev s t 0 j = j" "i \<le> length t \<Longrightarrow> prefix_lev s t i 0 = i"
  by (simp_all add: prefix_lev_def)

lemma prefix_lev_Suc:
  "j < length s \<Longrightarrow> i < length t \<Longrightarrow> prefix_lev s t (Suc i) (Suc j) =
     min (min (prefix_lev s t i (Suc j) + 1) (prefix_lev s t (Suc i) j + 1))
       (prefix_lev s t i j + (if s ! j = t ! i then 0 else 1))"
  by (simp add: prefix_lev_def take_Suc_conv_app_nth)

lemma lev_length: "lev xs ys \<le> length xs + length ys"
  by (induction xs ys rule: lev.induct) auto

lemma prefix_lev_le: "prefix_lev s t i j \<le> length s + length t"
  using lev_length [of "rev (take j s)" "rev (take i t)"] by (simp add: prefix_lev_def)

lemma of_nat_min: "a < 2 ^ 64 \<Longrightarrow> b < 2 ^ 64 \<Longrightarrow> min (of_nat a :: u64) (of_nat b) = of_nat (min a b)"
  by (auto simp: min_def word_le_nat_alt unat_of_nat)

lemma distance_cell_word:
  assumes "length s + length t + 1 < 2 ^ 64" "j < length s" "i < length t"
  shows "min (min (of_nat (prefix_lev s t i (Suc j)) + 1) (of_nat (prefix_lev s t (Suc i) j) + 1))
      (of_nat (prefix_lev s t i j) + (if s ! j \<noteq> t ! i then 1 else 0)) = (of_nat (prefix_lev s t (Suc i) (Suc j)) :: u64)"
proof -
  note le = prefix_lev_le [of s t]
  define a b c where "a = prefix_lev s t i (Suc j) + 1" and "b = prefix_lev s t (Suc i) j + 1"
    and "c = prefix_lev s t i j + (if s ! j = t ! i then 0 else 1)"
  have "a < 2 ^ 64" "b < 2 ^ 64" "c < 2 ^ 64"
    using le [of i "Suc j"] le [of "Suc i" j] le [of i j] assms(1) by (auto simp: a_def b_def c_def)
  then have "min (min (of_nat a) (of_nat b)) (of_nat c) = (of_nat (min (min a b) c) :: u64)"
    using of_nat_min [of a b] of_nat_min [of "min a b" c] by (simp only: min_less_iff_disj simp_thms)
  moreover have "min (min a b) c = prefix_lev s t (Suc i) (Suc j)"
    unfolding a_def b_def c_def prefix_lev_Suc [OF assms(2,3)] ..
  ultimately have "min (min (of_nat a) (of_nat b)) (of_nat c) = (of_nat (prefix_lev s t (Suc i) (Suc j)) :: u64)" by (simp only:)
  moreover have "of_nat c = (of_nat (prefix_lev s t i j) + (if s ! j \<noteq> t ! i then 1 else 0) :: u64)" by (simp add: c_def)
  ultimately show ?thesis by (simp only: a_def b_def of_nat_add of_nat_1)
qed

text \<open>The array and \<^verbatim>\<open>distance_prev\<close> after the first \<open>k\<close> cells of row \<open>Suc i\<close>.\<close>

definition row_at :: "string \<Rightarrow> string \<Rightarrow> nat \<Rightarrow> nat \<Rightarrow> distances \<times> u64 \<Rightarrow> bool" where
  "row_at s t i k st \<longleftrightarrow> length (fst st) = length s + 1 \<and> snd st = of_nat (prefix_lev s t i k) \<and>
     (\<forall>m\<le>length s. fst st ! m = of_nat (prefix_lev s t (if m \<le> k then Suc i else i) m))"

text \<open>The array before row \<open>Suc i\<close>; its first cell may still be uninitialised then.\<close>

definition row_done :: "string \<Rightarrow> string \<Rightarrow> nat \<Rightarrow> distances \<Rightarrow> bool" where
  "row_done s t i d \<longleftrightarrow> length d = length s + 1 \<and> (\<forall>m\<le>length s. 0 < m \<or> s = [] \<longrightarrow> d ! m = of_nat (prefix_lev s t i m))"

lemma row_start: "row_done s t i d \<Longrightarrow> i < length t \<Longrightarrow> row_at s t i 0 (d[0 := of_nat (Suc i)], of_nat (Suc i) - 1)"
  by (auto simp: row_done_def row_at_def nth_list_update)

lemma row_step:
  assumes "length s + length t + 1 < 2 ^ 64" "row_at s t i k st" "k < length s" "i < length t"
  shows "row_at s t i (Suc k) (distance_cell s (t ! i) (Suc k) st)"
proof -
  obtain d p where st: "st = (d, p)" by (cases st)
  have d: "length d = length s + 1" "p = of_nat (prefix_lev s t i k)"
      "m \<le> length s \<Longrightarrow> d ! m = of_nat (prefix_lev s t (if m \<le> k then Suc i else i) m)" for m
    using assms(2) by (auto simp: row_at_def st)
  have cell: "distance_cell s (t ! i) (Suc k) st =
      (d[Suc k := of_nat (prefix_lev s t (Suc i) (Suc k))], of_nat (prefix_lev s t i (Suc k)))"
    using d(2) d(3) [of k] d(3) [of "Suc k"] assms(3) distance_cell_word [OF assms(1,3,4)]
    by (simp add: distance_cell_def st Let_def)
  show ?thesis unfolding cell row_at_def using d(1) d(3) assms(3) by (auto simp: nth_list_update le_Suc_eq)
qed

lemma row_cells:
  assumes "length s + length t + 1 < 2 ^ 64" "row_at s t i 0 st" "k \<le> length s" "i < length t"
  shows "row_at s t i k (fold (distance_cell s (t ! i)) [1..<k + 1] st)"
  using assms(3)
proof (induction k)
  case 0
  then show ?case using assms(2) by simp
next
  case (Suc k)
  then show ?case using row_step [OF assms(1) _ _ assms(4), of k] by simp
qed

lemma row_whole:
  assumes "length s + length t + 1 < 2 ^ 64" "row_done s t i d" "i < length t"
  shows "row_done s t (Suc i) (distance_row s t (Suc i) d)"
  using row_cells [OF assms(1) row_start [OF assms(2,3)] order_refl assms(3)]
  by (simp add: distance_row_def row_done_def row_at_def)

lemma init_cells:
  fixes d :: distances
  defines "f k \<equiv> fold (\<lambda>j d. d[j := of_nat j]) [1..<k + 1] d"
  shows "length (f k) = length d \<and> (\<forall>m<length d. f k ! m = (if 0 < m \<and> m \<le> k then of_nat m else d ! m))"
proof (induction k)
  case (Suc k)
  have "f (Suc k) = (f k)[Suc k := of_nat (Suc k)]" by (simp add: f_def)
  then show ?case using Suc by (auto simp: nth_list_update le_Suc_eq simp del: of_nat_Suc)
qed (simp add: f_def)

lemma init_done:
  assumes "length d = length s + 1"
  shows "row_done s t 0 (distance_init (length s) d)"
  using init_cells [of "length s" "d[length s := of_nat (length s)]"] assms
  by (auto simp: distance_init_def row_done_def)

lemma rows_done:
  assumes "length s + length t + 1 < 2 ^ 64" "row_done s t 0 d" "k \<le> length t"
  shows "row_done s t k (fold (distance_row s t) [1..<k + 1] d)"
  using assms(3)
proof (induction k)
  case (Suc k)
  then show ?case using row_whole [OF assms(1), of k] by simp
qed (simp add: assms(2))

section \<open>Property\<close>

text \<open>C27: The one-row table computes the edit distance: if the first string has at most 149 characters,
  so that the table fits the limit for the stack, and the lengths together fit a machine word, the result is the
  least number of insertions, deletions and replacements of a character that turn one string into the other, no
  matter what the uninitialised array held.  For a longer first string the assertion on the stack size fails.\<close>

theorem string_distance_is_edit_distance:
  assumes "length distances = length str1 + 1" "length str1 + length str2 + 1 < 2 ^ 64"
  shows "case ucs_string_distance distances str1 str2 of
      None \<Rightarrow> 150 \<le> length str1
    | Some d \<Rightarrow> length str1 < 150 \<and> edits (unat d) str1 str2 \<and> (\<forall>n. edits n str1 str2 \<longrightarrow> unat d \<le> n)"
proof (cases "length str1 < 150")
  case True
  have "row_done str1 str2 (length str2)
      (fold (distance_row str1 str2) [1..<length str2 + 1] (distance_init (length str1) distances))"
    using rows_done [OF assms(2) init_done [OF assms(1)]] by simp
  then have eq: "ucs_string_distance distances str1 str2 = Some (of_nat (lev (rev str1) (rev str2)))"
    using True by (cases str1) (simp_all add: ucs_string_distance_def ucs_assert_def UCS_ALLOCA_MAX_SIZE_def row_done_def prefix_lev_def)
  have "lev (rev str1) (rev str2) < 2 ^ 64" using lev_length [of "rev str1" "rev str2"] assms(2) by simp
  then have u: "unat (of_nat (lev (rev str1) (rev str2)) :: u64) = lev (rev str1) (rev str2)" by (simp add: unat_of_nat)
  have "edits (lev (rev str1) (rev str2)) str1 str2" using edits_rev [OF lev_reached [of "rev str1" "rev str2"]] by simp
  then show ?thesis using True lev_least [OF edits_rev, of _ str1 str2] by (simp add: eq u)
qed (simp add: ucs_string_distance_def ucs_assert_def UCS_ALLOCA_MAX_SIZE_def)

theorem string_distance_is_edit_distance_witness:
  "ucs_string_distance [7, 7, 7, 7] ''TLS'' ''TSL'' = Some 2 \<and> edits 2 ''TLS'' ''TSL'' \<and> \<not> edits 1 ''TLS'' ''TSL''"
proof -
  have "ucs_string_distance [7, 7, 7, 7] ''TLS'' ''TSL'' = Some 2" by code_simp
  then show ?thesis
    using string_distance_is_edit_distance [of "[7, 7, 7, 7]" "''TLS''" "''TSL''"] by auto
qed

end
