(* ===== verification/Spec2Isabelle.thy ===== *)
theory Spec2Isabelle
  imports Ucs_Queue Ucs_List Frag_List_Order Arbiter_Props Ptr_Array_Table Datatype_Iter_Props Tag_Match_Props Mm_Fifo_Props
    Pgt_Props String_Distance
begin

text \<open>
  Verification of \<^verbatim>\<open>hucx\<close>, a communication library for parallel programs.  Paths below are relative to
  \<^verbatim>\<open>src/src\<close>.

  \<^bold>\<open>The program.\<close>  The library has four layers.  \<^verbatim>\<open>ucs\<close> holds services: containers, status codes,
  configuration, logging.  \<^verbatim>\<open>ucm\<close> hooks memory allocation.  \<^verbatim>\<open>uct\<close> holds the transports, each a set
  of interfaces and endpoints that send short messages: shared memory (\<^verbatim>\<open>uct/sm\<close>), InfiniBand, sockets,
  accelerators.  \<^verbatim>\<open>ucp\<close> is what applications call: it matches tagged messages with posted receives, walks
  through the buffers of the user and chooses transports.  A tagged message goes through most of what is modelled
  here: the sender's datatype iterator packs the user's buffer in chunks; a transport such as the shared-memory FIFO
  carries the chunks, with an arbiter that shares the send resources of an interface between endpoints that have to
  wait, and a reorder buffer where the network may reorder; the receiver's tag matching finds the posted receive, and
  its iterator unpacks the fragments.  Requests get identifiers from the pointer array, memory registrations are found
  with the page table, and everything rests on the intrusive queue and list.

  \<^bold>\<open>Conventions.\<close>  Theory \<open>Prelude\<close> fixes them.  C integers are words of their width, so they wrap around as
  in C.  A result \<open>None\<close> is a failing \<^verbatim>\<open>ucs_assert\<close> (the models follow the debug build), a null pointer
  that is dereferenced, or a shift out of range; the lemmas show when it cannot happen.  Status codes are the enumeration of
  \<open>Status\<close>.  Where the sources link structures in memory, the model is that memory, and a representation predicate
  relates it to a list, map or set.  Code that belongs to the user or to a library (callbacks, operations of datatypes,
  memory registration, answers of pools) is a parameter of the definitions that call it.

  \<^bold>\<open>Theories, state and operations.\<close>

  \<^item> \<open>Prelude\<close>, \<open>Status\<close> (\<^verbatim>\<open>ucs/type/status.h\<close>), \<open>Buffers\<close>: result type, integer widths, circular
    comparison, status codes and status pointers, byte buffers and writes of fragments.
  \<^item> \<open>Ucs_Queue\<close> (\<^verbatim>\<open>ucs/datastruct/queue.h\<close>): pointer cells and tail addresses in memory, one definition per
    operation.  \<open>is_queue\<close> relates memory to the list of elements; the locale \<open>intrusive_fifo\<close> is what users rely
    on, interpreted on the operations.
  \<^item> \<open>Ucs_List\<close> (\<^verbatim>\<open>ucs/datastruct/list.h\<close>): the circular doubly linked list in the same style.
  \<^item> \<open>Frag_List\<close>, \<open>Frag_List_Order\<close> (\<^verbatim>\<open>ucs/datastruct/frag_list.c\<close>): the reorder buffer of datagram
    transports over the queue memory, its representation invariant, and delivery in sequence order for every order of
    arrival.
  \<^item> \<open>Arbiter\<close>, \<open>Arbiter_Refine\<close>, \<open>Arbiter_Dispatch\<close>, \<open>Arbiter_Props\<close>
    (\<^verbatim>\<open>ucs/datastruct/arbiter.c\<close>): rings of elements and the list of scheduled groups in memory; an abstract
    dispatcher over queues; the refinement for every callback that fulfils the locale \<open>arbiter_callback\<close>, which is
    interpreted on callbacks that push and schedule while they run; fairness.
  \<^item> \<open>Ptr_Array\<close>, \<open>Ptr_Array_Correct\<close>, \<open>Ptr_Array_Table\<close> (\<^verbatim>\<open>ucs/datastruct/ptr_array.c\<close>):
    64-bit slots with a free list and skip counts; the array as a finite map; the locale \<open>id_table\<close> and a step relation
    of programs that use it.
  \<^item> \<open>Dt_Iov\<close>, \<open>Datatype_Iter\<close>, \<open>Datatype_Iter_Props\<close> (\<^verbatim>\<open>ucp/dt\<close>): scatter-gather lists and
    iterators over contiguous, scattered and user-defined data; the locale \<open>byte_iter\<close> gives the transfer theorem for
    any pair of kinds.
  \<^item> \<open>Tag_Match\<close>, \<open>Tag_Match_Correct\<close>, \<open>Tag_Offload\<close>, \<open>Tag_Post\<close>, \<open>Tag_Match_Props\<close>
    (\<^verbatim>\<open>ucp/tag/tag_match.c\<close>, \<^verbatim>\<open>tag_match.inl\<close>, \<^verbatim>\<open>offload.c\<close>): hashed queues of posted receives and
    unexpected messages, sequence numbers, and posting of receives to the transport; \<open>tm_rep\<close> relates them to two
    lists in order; an inductive run relation, and an invariant kept by each of its steps.
  \<^item> \<open>Mm_Fifo\<close>, \<open>Mm_Fifo_Index\<close>, \<open>Mm_Fifo_Inv\<close>, \<open>Mm_Fifo_Recv\<close>, \<open>Mm_Fifo_Runs\<close>,
    \<open>Mm_Fifo_Props\<close> (\<^verbatim>\<open>uct/sm/mm/base/mm_ep.c\<close>, \<^verbatim>\<open>mm_iface.c\<close>): the lock-free receive FIFO.  Each
    operation is cut at its accesses to shared memory, so a run is any interleaving of many senders and one receiver,
    who may also sleep and be woken; the invariant \<open>mm_inv\<close> holds in all of them.
  \<^item> \<open>Pgt_Order\<close>, \<open>Pgtable\<close>, \<open>Pgt_Tree\<close>, \<open>Pgt_Table\<close>, \<open>Pgt_Region\<close>, \<open>Pgt_Index\<close>,
    \<open>Pgt_Search\<close>, \<open>Pgt_Range\<close>, \<open>Pgt_Purge\<close>, \<open>Pgt_Props\<close>
    (\<^verbatim>\<open>ucs/datastruct/pgtable.c\<close>): the radix tree from addresses to memory regions.  Page sizes and the split of a
    range into pages; the operations; what an entry, a table and a set of regions mean; the locale
    \<open>region_index\<close>, interpreted on the table; search, purge and their limits.
  \<^item> \<open>String_Distance\<close> (\<^verbatim>\<open>ucs/algorithm/string_distance.c\<close>): the one-row table of the edit distance, on
    words, against the least number of edits.
\<close>

text \<open>
  \<^bold>\<open>What the theorems show.\<close>  For the shared-memory FIFO: delivery once, intact and in order under every
  interleaving; no lost wake-up; exclusive ownership of elements; no failing assertion; completion of sends.  For tag
  matching: the oldest match wins on both sides, also when the transport matches some receives itself.  For the
  containers: each refines its abstract counterpart (a list, a finite map, a set of regions, a dispatcher over queues),
  including the error paths.  For the iterators: chunks of any sizes, unpacked in any order, reproduce the bytes.  Several
  theorems state what goes wrong at a boundary: sequence numbers and counters that wrap around, a length field that is too
  short, a failed attachment, an empty pool, a range at the end of the address space.

  \<^bold>\<open>Bounds, termination and fuel.\<close>  Loops are structural recursion, come with a
  termination proof, or have fuel.  Fuel is used where a loop follows pointers or indices stored in memory, and the
  representation predicates bound it: the number of elements of a queue, list or reorder buffer, the number of slots of the
  pointer array, the number of queued elements for a dispatch whose callback accepts every element.  A callback that keeps
  pushing elements can keep a dispatch busy forever, so the refinement of the dispatch says that code and abstract
  dispatcher run out of fuel together.  The search loop of the page table may run forever, so it is a partial function in which \<open>None\<close> means
  that it does not end; a theorem shows that it ends for ranges below the last sixteenth of the address space, another that
  it does not for some above.  Theorems on the FIFO hold while fewer than \<open>2 ^ 31\<close> messages were sent (its sequence
  comparison is signed 32-bit), those on the page table below \<open>2 ^ 32\<close> regions (its counter is 32-bit), those on the
  string distance for strings whose lengths fit a word together.  Each bound is a hypothesis of the theorem and has a
  concrete instance.

  \<^bold>\<open>Not modelled.\<close>  \<^verbatim>\<open>ucm\<close> patches the running process and contains a copy of a third-party allocator.  The
  InfiniBand, socket, URMA, uGNI and accelerator transports are driven by libraries and devices whose behaviour is not in
  the repository.  Wireup and protocol selection of \<^verbatim>\<open>ucp\<close> score transports in floating point; the life cycle of
  contexts, workers and endpoints, remote memory access, rendezvous, streams and active messages spread their state over
  dozens of transport callbacks, for which the repository has no contract to assume.  Configuration, logging, statistics,
  profiling, the file-system view and the tools read or write text and files.  Timers, asynchronous events and locks belong to
  the operating system.  Memory pools, hash tables and caches appear as parameters or finite maps where the modelled code
  uses them.  In the modelled parts, statistics counters, log output, dump functions and locked wrappers are left out.
  The shared-memory model takes the accesses of a process in program order, as the fences of the code ask for; weaker
  orders of the hardware are not modelled.
\<close>

end
